(* ===== verification/Klee_Prelude.thy ===== *)
theory Klee_Prelude
  imports Main "HOL-Library.Word" "HOL-Library.Monad_Syntax"
begin

text \<open>
  The vocabulary every component of the development shares: the machine integer types, the
  error codes of \<^verbatim>\<open>src/error.hpp\<close>, the two result shapes of the kernel, and the generic
  lemmas on lists and words that the component proofs rest on.

  \<^item> \<^verbatim>\<open>Error\<close> (a code, \<open>Success\<close> meaning no error) is the datatype \<open>error_code\<close> itself.
  \<^item> \<^verbatim>\<open>Result<T>\<close> (a variant of a value and an error) is \<open>'a result\<close>: \<open>Inr\<close> holds the value,
    \<open>Inl\<close> the error. \<^verbatim>\<open>Inl Success\<close> is representable, as it is in the source.
  \<^item> An operation whose source would read or write outside an array, or dereference a null
    pointer, returns an \<open>option\<close>: \<open>None\<close> stands for that undefined behaviour, so a theorem
    that the operation returns \<open>Some\<close> is a memory-safety statement.
\<close>

unbundle bit_operations_syntax

type_synonym u8 = "8 word"
type_synonym u16 = "16 word"
type_synonym u32 = "32 word"
type_synonym u64 = "64 word"

named_theorems klee_defs "definitions a component unfolds in its own proofs"

section \<open>Error codes and results\<close>

datatype (plugins only: code) error_code =
    Success | Full | Empty | NoEnoughMemory | IndexOutOfRange | HostControllerNotHalted
  | InvalidSlotID | PortNotConnected | InvalidEndpointNumber | TransferRingNotSet
  | AlreadyAllocated | NotSupported | NotImplemented | InvalidDescriptor | BufferTooSmall
  | UnknownDevice | NoCorrespondingSetupStage | TransferFailed | InvalidPhase
  | UnknownXHCISpeedID | NoWaiter | NoPCIMSI | NoSuchTask | BadChecksum | EntryNotSet
  | InvalidNice | NoSuchEvent | UnFinishedEvent | AlivingThread | DeadThread | NoSuchProcess
  | NoSuchThread
  | IOError | InvalidData | InvalidSize | InvalidSector | NotDirectory | NotFile | NoSuchFile
  | UnknownFilesystem | FileExists | FileOpened | FileNotOpened | InvalidOpenMode
  | VolumeMounted | VolumeBusy | NotMounted | AlreadyMounted | EndOfFile
  | NotFAT | BrokenFATEntry
  | InvalidDeviceType | InvalidDeviceOperation
  | NotMBR | NotGPT | UnsupportedGPT
  | VirtIOLegacyDevice | VirtIODeviceNotReady | VirtIOOperationOutOfOrder | VirtIODisplayInfo
  | VirtIOCreateResource | VirtIOAttachBacking | VirtIOProcessEvent | VirtIOUnknownEvent
  | VirtIOWorkerExit
  | NotELF | InvalidELF

type_synonym 'a result = "error_code + 'a"

text \<open>\<^verbatim>\<open>Error::operator bool\<close>: an error is truthy when it is not \<open>Success\<close>.\<close>

definition is_error :: "error_code \<Rightarrow> bool" where
  "is_error e \<longleftrightarrow> e \<noteq> Success"

lemma is_error_Success [simp]: "\<not> is_error Success"
  by (simp add: is_error_def)

text \<open>\<^verbatim>\<open>Result::operator bool\<close>: a result is truthy when it holds a value.\<close>

definition is_value :: "'a result \<Rightarrow> bool" where
  "is_value r \<longleftrightarrow> (case r of Inl _ \<Rightarrow> False | Inr _ \<Rightarrow> True)"

lemma is_value_simps [simp]: "is_value (Inr v)" "\<not> is_value (Inl e)"
  by (simp_all add: is_value_def)

section \<open>Lists\<close>

text \<open>\<^verbatim>\<open>erase_all\<close> of \<^verbatim>\<open>src/process/manager.hpp\<close>: the erase-remove idiom.\<close>

definition erase_all :: "'a list \<Rightarrow> 'a \<Rightarrow> 'a list" where
  "erase_all c v = filter (\<lambda>x. x \<noteq> v) c"

lemma set_erase_all [simp]: "set (erase_all c v) = set c - {v}"
  by (auto simp: erase_all_def)

lemma distinct_erase_all [simp]: "distinct c \<Longrightarrow> distinct (erase_all c v)"
  by (simp add: erase_all_def)

lemma erase_all_notin [simp]: "v \<notin> set c \<Longrightarrow> erase_all c v = c"
  unfolding erase_all_def by (induction c) auto

lemma erase_all_append [simp]: "erase_all (xs @ ys) v = erase_all xs v @ erase_all ys v"
  by (simp add: erase_all_def)

lemma erase_all_Nil [simp]: "erase_all [] v = []"
  by (simp add: erase_all_def)

lemma erase_all_Cons [simp]:
  "erase_all (x # xs) v = (if x = v then erase_all xs v else x # erase_all xs v)"
  by (simp add: erase_all_def)

lemma count_list_erase_all: "count_list (erase_all c v) w = (if w = v then 0 else count_list c w)"
  by (induction c) auto

section \<open>Pages\<close>

text \<open>\<^verbatim>\<open>paging::bytes_per_page\<close>, the unit of page tables and page caches alike.\<close>

definition bytes_per_page :: nat where
  "bytes_per_page = 0x1000"

section \<open>Words\<close>

text \<open>Testing one bit of a word with a mask, the way the allocation bitmap does.\<close>

lemma word_and_exp_iff: "(x AND 2 ^ n \<noteq> 0) = bit (x :: 'a :: len word) n"
proof
  assume "x AND 2 ^ n \<noteq> 0"
  then obtain k where "bit (x AND 2 ^ n) k"
    using bit_eqI [of "x AND 2 ^ n" 0] by auto
  then show "bit x n"
    by (auto simp: bit_and_iff bit_exp_iff)
next
  assume b: "bit x n"
  then have "n < LENGTH('a)"
    by (rule bit_imp_le_length)
  with b have "bit (x AND 2 ^ n) n"
    by (simp add: bit_and_iff bit_exp_iff)
  then show "x AND 2 ^ n \<noteq> 0"
    by auto
qed

lemma bit_or_exp:
  "m < LENGTH('a) \<Longrightarrow> bit ((x :: 'a :: len word) OR 2 ^ m) n = (bit x n \<or> n = m)"
  by (auto simp: bit_or_iff bit_exp_iff)

lemma bit_and_not_exp:
  "bit ((x :: 'a :: len word) AND NOT (2 ^ m)) n = (bit x n \<and> n \<noteq> m)"
  by (auto simp: bit_and_iff bit_not_iff bit_exp_iff dest: bit_imp_le_length)

end
