(* ===== verification/Frame_Allocator.thy ===== *)
theory Frame_Allocator
  imports Klee_Prelude
begin

text \<open>
  The physical frame allocator: \<^verbatim>\<open>src/memory/allocator.hpp\<close>, \<^verbatim>\<open>src/memory/frame.hpp\<close> and
  \<^verbatim>\<open>src/memory/memory-type.hpp\<close>. The bitmap is a list of 64-bit lines, exactly the
  \<^verbatim>\<open>std::array<uint64_t>\<close> of the source; an access past its end is \<open>None\<close>. Frame numbers
  (\<^verbatim>\<open>size_t\<close>) are natural numbers: every frame number the allocator forms is at most the
  number of bitmap bits plus the requested length, far below \<open>2 ^ 64\<close>.

  The locale \<open>frame_source\<close> is the contract of single-frame allocation as the page cache and
  the ELF loader use it; its interpretation at the end discharges it for \<open>allocate_single\<close>.
\<close>

section \<open>Frames and memory descriptors\<close>

definition bytes_per_frame :: nat where
  "bytes_per_frame = 4096"

definition bits_per_mapline :: nat where
  "bits_per_mapline = 64"

definition required_frames :: nat where
  "required_frames = 64 * 1024 * 1024 * 1024 div bytes_per_frame"

definition nullframe :: nat where
  "nullframe = 2 ^ 64 - 1"

record smart_frame_id =
  sf_id :: nat
  sf_frames :: nat

record memory_descriptor =
  md_type :: u32
  physical_start :: nat
  number_of_pages :: nat

definition EfiBootServicesCode :: u32 where "EfiBootServicesCode = 3"
definition EfiBootServicesData :: u32 where "EfiBootServicesData = 4"
definition EfiConventionalMemory :: u32 where "EfiConventionalMemory = 7"

definition is_available_memory_type :: "u32 \<Rightarrow> bool" where
  "is_available_memory_type t \<longleftrightarrow>
     t = EfiBootServicesCode \<or> t = EfiBootServicesData \<or> t = EfiConventionalMemory"

definition uefi_page_size :: nat where
  "uefi_page_size = 4096"

section \<open>The bitmap\<close>

record bmm =
  allocation_map :: "u64 list"
  range_begin :: nat
  range_end :: nat

definition get_bit :: "bmm \<Rightarrow> nat \<Rightarrow> bool option" where
  "get_bit m frame =
     (let line_index = frame div bits_per_mapline; bit_index = frame mod bits_per_mapline
      in if line_index < length (allocation_map m)
         then Some ((allocation_map m ! line_index) AND push_bit bit_index 1 \<noteq> 0)
         else None)"

definition set_bit_bmm :: "bmm \<Rightarrow> nat \<Rightarrow> bool \<Rightarrow> bmm option" where
  "set_bit_bmm m frame flag =
     (let line_index = frame div bits_per_mapline; bit_index = frame mod bits_per_mapline;
          line = allocation_map m ! line_index
      in if line_index < length (allocation_map m)
         then Some (m\<lparr>allocation_map := (allocation_map m)
                [line_index := if flag then line OR push_bit bit_index 1
                               else line AND NOT (push_bit bit_index 1)]\<rparr>)
         else None)"

fun set_bits :: "bmm \<Rightarrow> nat \<Rightarrow> nat \<Rightarrow> bool \<Rightarrow> bmm option" where
  "set_bits m begin 0 flag = Some m"
| "set_bits m begin (Suc n) flag =
     (case set_bit_bmm m begin flag of None \<Rightarrow> None | Some m' \<Rightarrow> set_bits m' (Suc begin) n flag)"

definition set_range :: "bmm \<Rightarrow> nat \<Rightarrow> nat \<Rightarrow> bmm" where
  "set_range m b e = m\<lparr>range_begin := b, range_end := e\<rparr>"

section \<open>Allocation and release\<close>

text \<open>
  The inner \<^verbatim>\<open>for\<close> loop of \<^verbatim>\<open>allocate\<close> ends in one of three ways: past the range, at a used
  frame, or with the whole run free.
\<close>

datatype scan_result = ScanNoMemory | ScanUsed nat | ScanFree

function alloc_scan :: "bmm \<Rightarrow> nat \<Rightarrow> nat \<Rightarrow> nat \<Rightarrow> scan_result option" where
  "alloc_scan m start frames i =
     (if i < frames then
        if start + i > range_end m then Some ScanNoMemory
        else (case get_bit m (start + i) of
                None \<Rightarrow> None
              | Some used \<Rightarrow> if used then Some (ScanUsed i) else alloc_scan m start frames (Suc i))
      else Some ScanFree)"
  by pat_completeness auto
termination
  by (relation "measure (\<lambda>(m, start, frames, i). frames - i)") auto

declare alloc_scan.simps [simp del]

lemma alloc_scan_used_bound:
  "alloc_scan m start frames i = Some (ScanUsed j) \<Longrightarrow> i \<le> j \<and> start + j \<le> range_end m"
proof (induction m start frames i rule: alloc_scan.induct)
  case (1 m start frames i)
  show ?case
    using "1.prems" "1.IH"
    by (subst (asm) alloc_scan.simps) (fastforce split: if_splits option.splits)
qed

text \<open>The outer \<^verbatim>\<open>goto loop\<close>: after a used frame, the search resumes right behind it.\<close>

function alloc_loop :: "bmm \<Rightarrow> nat \<Rightarrow> nat \<Rightarrow> (smart_frame_id result \<times> bmm) option" where
  "alloc_loop m start frames =
     (case alloc_scan m start frames 0 of
        None \<Rightarrow> None
      | Some ScanNoMemory \<Rightarrow> Some (Inl NoEnoughMemory, m)
      | Some (ScanUsed i) \<Rightarrow> alloc_loop m (start + i + 1) frames
      | Some ScanFree \<Rightarrow>
          (case set_bits m start frames True of
             None \<Rightarrow> None
           | Some m' \<Rightarrow> Some (Inr \<lparr>sf_id = start, sf_frames = frames\<rparr>, m')))"
  by pat_completeness auto
termination
  by (relation "measure (\<lambda>(m, start, frames). Suc (range_end m) - start)")
    (auto dest: alloc_scan_used_bound)

declare alloc_loop.simps [simp del]

definition allocate :: "bmm \<Rightarrow> nat \<Rightarrow> (smart_frame_id result \<times> bmm) option" where
  "allocate m frames = alloc_loop m (range_begin m) frames"

function alloc_single_loop :: "bmm \<Rightarrow> nat \<Rightarrow> (nat result \<times> bmm) option" where
  "alloc_single_loop m i =
     (if i \<le> range_end m then
        (case get_bit m i of
           None \<Rightarrow> None
         | Some used \<Rightarrow>
             if \<not> used then
               (case set_bit_bmm m i True of None \<Rightarrow> None | Some m' \<Rightarrow> Some (Inr i, m'))
             else alloc_single_loop m (Suc i))
      else Some (Inl NoEnoughMemory, m))"
  by pat_completeness auto
termination
  by (relation "measure (\<lambda>(m, i). Suc (range_end m) - i)") auto

declare alloc_single_loop.simps [simp del]

definition allocate_single :: "bmm \<Rightarrow> (nat result \<times> bmm) option" where
  "allocate_single m = alloc_single_loop m (range_begin m)"

definition deallocate :: "bmm \<Rightarrow> nat \<Rightarrow> nat \<Rightarrow> (error_code \<times> bmm) option" where
  "deallocate m begin frames =
     (case set_bits m begin frames False of None \<Rightarrow> None | Some m' \<Rightarrow> Some (Success, m'))"

definition is_available :: "bmm \<Rightarrow> nat \<Rightarrow> bool option" where
  "is_available m address = map_option Not (get_bit m (address div bytes_per_frame))"

text \<open>
  \<^verbatim>\<open>SmartFrameID\<close> owns its frames: \<open>free\<close> returns them once and leaves the null frame, move
  assignment frees the target first and swaps the identifiers. \<open>None\<close> is the panic of
  \<^verbatim>\<open>fatal_assert\<close> or an access outside the bitmap.
\<close>

definition smart_free :: "smart_frame_id \<Rightarrow> bmm \<Rightarrow> (smart_frame_id \<times> bmm) option" where
  "smart_free s m =
     (if sf_id s \<noteq> nullframe then
        (case deallocate m (sf_id s) (sf_frames s) of
           None \<Rightarrow> None
         | Some (e, m') \<Rightarrow> if is_error e then None else Some (s\<lparr>sf_id := nullframe\<rparr>, m'))
      else Some (s, m))"

definition smart_move_assign ::
  "smart_frame_id \<Rightarrow> smart_frame_id \<Rightarrow> bmm \<Rightarrow> (smart_frame_id \<times> smart_frame_id \<times> bmm) option" where
  "smart_move_assign s other m =
     (case smart_free s m of
        None \<Rightarrow> None
      | Some (s', m') \<Rightarrow>
          Some (s'\<lparr>sf_id := sf_id other, sf_frames := sf_frames other\<rparr>,
                other\<lparr>sf_id := sf_id s'\<rparr>, m'))"

definition single_free :: "nat \<Rightarrow> bmm \<Rightarrow> (nat \<times> bmm) option" where
  "single_free f m =
     (if f \<noteq> nullframe then
        (case deallocate m f 1 of
           None \<Rightarrow> None
         | Some (e, m') \<Rightarrow> if is_error e then None else Some (nullframe, m'))
      else Some (f, m))"

definition heap_frames :: nat where
  "heap_frames = 64 * 512"

text \<open>\<open>initialize_heap\<close> also returns the program break and its end, which the source stores in
  the two globals the C library's \<^verbatim>\<open>sbrk\<close> reads.\<close>

definition initialize_heap :: "bmm \<Rightarrow> ((smart_frame_id \<times> nat \<times> nat) result \<times> bmm) option" where
  "initialize_heap m =
     (case allocate m heap_frames of
        None \<Rightarrow> None
      | Some (Inl e, m') \<Rightarrow> Some (Inl e, m')
      | Some (Inr heap_start, m') \<Rightarrow>
          (let program_break = sf_id heap_start * bytes_per_frame
           in Some (Inr (heap_start, program_break, program_break + heap_frames * bytes_per_frame), m')))"

section \<open>Construction from the UEFI memory map\<close>

text \<open>
  The constructor walks the descriptors of the firmware's memory map. The list holds the
  descriptors found at the buffer's base and then every \<^verbatim>\<open>descriptor_size\<close> bytes up to
  \<^verbatim>\<open>map_size\<close>. Addresses are 64-bit, so the end of a descriptor wraps.
\<close>

fun bmm_init_loop :: "bmm \<Rightarrow> nat \<Rightarrow> memory_descriptor list \<Rightarrow> (bmm \<times> nat) option" where
  "bmm_init_loop m available_end [] = Some (m, available_end)"
| "bmm_init_loop m available_end (d # ds) =
     (case (if available_end < physical_start d
            then set_bits m (available_end div bytes_per_frame)
                   ((physical_start d - available_end) div bytes_per_frame) True
            else Some m) of
        None \<Rightarrow> None
      | Some m1 \<Rightarrow>
          (let physical_end = (physical_start d + number_of_pages d * uefi_page_size) mod 2 ^ 64
           in if is_available_memory_type (md_type d) then bmm_init_loop m1 physical_end ds
              else (case set_bits m1 (physical_start d div bytes_per_frame)
                           (number_of_pages d * uefi_page_size mod 2 ^ 64 div bytes_per_frame) True of
                      None \<Rightarrow> None
                    | Some m2 \<Rightarrow> bmm_init_loop m2 available_end ds)))"

text \<open>\<open>init_map\<close> is the content of the bitmap's memory when the constructor runs, which does not
  clear it; \<open>kernel_instance_buffer\<close> in \<^verbatim>\<open>src/main.cpp\<close> is static and so all zero.\<close>

definition bmm_construct :: "u64 list \<Rightarrow> memory_descriptor list \<Rightarrow> bmm option" where
  "bmm_construct init_map ds =
     (case bmm_init_loop \<lparr>allocation_map = init_map, range_begin = 0, range_end = required_frames\<rparr> 0 ds of
        None \<Rightarrow> None
      | Some (m, available_end) \<Rightarrow> Some (set_range m 1 (available_end div bytes_per_frame)))"


section \<open>Bit-level facts\<close>

lemma get_bit_alt:
  "get_bit m f = (if f div 64 < length (allocation_map m)
                  then Some (bit (allocation_map m ! (f div 64)) (f mod 64)) else None)"
  by (simp add: get_bit_def bits_per_mapline_def Let_def word_and_exp_iff)

lemma get_bit_defined: "f < 64 * length (allocation_map m) \<Longrightarrow> \<exists>b. get_bit m f = Some b"
  by (auto simp: get_bit_alt)

lemma get_bit_Some_bound: "get_bit m f = Some b \<Longrightarrow> f < 64 * length (allocation_map m)"
  by (auto simp: get_bit_alt split: if_splits)

lemma set_bit_bmm_defined: "f < 64 * length (allocation_map m) \<Longrightarrow> \<exists>m'. set_bit_bmm m f flag = Some m'"
  by (auto simp: set_bit_bmm_def bits_per_mapline_def Let_def)

lemma set_bit_frame:
  assumes "set_bit_bmm m f flag = Some m'"
  shows "length (allocation_map m') = length (allocation_map m)"
    and "range_begin m' = range_begin m" and "range_end m' = range_end m"
  using assms by (auto simp: set_bit_bmm_def Let_def split: if_splits)

lemma get_bit_set_bit:
  assumes "set_bit_bmm m f flag = Some m'"
  shows "get_bit m' g = (if g = f then Some flag else get_bit m g)"
proof -
  have fg: "g = f" if "g div 64 = f div 64" "g mod 64 = f mod 64"
    using that by (metis div_mult_mod_eq)
  have in64: "f mod 64 < LENGTH(64)" by simp
  show ?thesis
    using assms fg
    by (cases "g div 64 = f div 64")
      (auto simp: set_bit_bmm_def get_bit_alt bits_per_mapline_def Let_def nth_list_update
        bit_or_exp [OF in64] bit_and_not_exp split: if_splits)
qed

lemma set_bits_frame:
  assumes "set_bits m b n flag = Some m'"
  shows "length (allocation_map m') = length (allocation_map m)
    \<and> range_begin m' = range_begin m \<and> range_end m' = range_end m"
  using assms
proof (induction m b n flag rule: set_bits.induct)
  case (2 m b n flag)
  then show ?case by (auto simp: set_bit_frame split: option.splits)
qed simp

lemma get_bit_set_bits:
  assumes "set_bits m b n flag = Some m'"
  shows "get_bit m' g = (if b \<le> g \<and> g < b + n then Some flag else get_bit m g)"
  using assms
proof (induction m b n flag rule: set_bits.induct)
  case (2 m b n flag)
  then show ?case by (auto simp: get_bit_set_bit split: option.splits)
qed auto

lemma set_bits_defined:
  "b + n \<le> 64 * length (allocation_map m) \<Longrightarrow> \<exists>m'. set_bits m b n flag = Some m'"
proof (induction m b n flag rule: set_bits.induct)
  case (2 m b n flag)
  then obtain m1 where m1: "set_bit_bmm m b flag = Some m1"
    using set_bit_bmm_defined [of b m flag] by auto
  with 2 show ?case by (simp add: set_bit_frame [OF m1])
qed simp

lemma bmm_eqI:
  assumes len: "length (allocation_map m') = length (allocation_map m)"
    and rng: "range_begin m' = range_begin m" "range_end m' = range_end m"
    and bits: "\<And>f. get_bit m' f = get_bit m f"
  shows "m' = m"
proof -
  have "allocation_map m' ! k = allocation_map m ! k" if k: "k < length (allocation_map m)" for k
  proof (rule bit_word_eqI)
    fix n assume "n < LENGTH(64)"
    then have "(64 * k + n) div 64 = k" "(64 * k + n) mod 64 = n" by simp_all
    with bits [of "64 * k + n"] k len show "bit (allocation_map m' ! k) n = bit (allocation_map m ! k) n"
      by (simp add: get_bit_alt)
  qed
  with len have "allocation_map m' = allocation_map m"
    by (simp add: nth_equalityI)
  with rng show ?thesis by simp
qed

section \<open>First fit\<close>

text \<open>
  Well-formed: the bitmap is no longer than the source's array and covers the whole range,
  its last frame included (the loops of the source test that frame too).
\<close>

definition bmm_wf :: "bmm \<Rightarrow> bool" where
  "bmm_wf m \<longleftrightarrow> length (allocation_map m) \<le> required_frames div bits_per_mapline
     \<and> range_end m < 64 * length (allocation_map m)"

text \<open>The reference notion: a run of \<open>n\<close> frames from \<open>s\<close> that is in range and free.\<close>

definition fits :: "bmm \<Rightarrow> nat \<Rightarrow> nat \<Rightarrow> bool" where
  "fits m n s \<longleftrightarrow> (\<forall>k < n. s + k \<le> range_end m \<and> get_bit m (s + k) = Some False)"

lemma alloc_scan_spec:
  assumes "bmm_wf m"
  shows "case alloc_scan m s n i of
      None \<Rightarrow> False
    | Some ScanNoMemory \<Rightarrow> \<exists>j. i \<le> j \<and> j < n \<and> s + j > range_end m
    | Some (ScanUsed j) \<Rightarrow> i \<le> j \<and> j < n \<and> get_bit m (s + j) = Some True
    | Some ScanFree \<Rightarrow> \<forall>k. i \<le> k \<and> k < n \<longrightarrow> s + k \<le> range_end m \<and> get_bit m (s + k) = Some False"
  using assms
proof (induction m s n i rule: alloc_scan.induct)
  case (1 m s n i)
  show ?case
  proof (cases "i < n \<and> s + i \<le> range_end m")
    case True
    then obtain b where b: "get_bit m (s + i) = Some b"
      using get_bit_defined [of "s + i" m] "1.prems" by (auto simp: bmm_wf_def)
    show ?thesis
    proof (cases b)
      case True
      with b \<open>i < n \<and> s + i \<le> range_end m\<close> show ?thesis by (subst alloc_scan.simps) simp
    next
      case False
      have eq: "alloc_scan m s n i = alloc_scan m s n (Suc i)"
        using b False True by (subst alloc_scan.simps) simp
      have "case alloc_scan m s n (Suc i) of
          None \<Rightarrow> False
        | Some ScanNoMemory \<Rightarrow> \<exists>j. Suc i \<le> j \<and> j < n \<and> s + j > range_end m
        | Some (ScanUsed j) \<Rightarrow> Suc i \<le> j \<and> j < n \<and> get_bit m (s + j) = Some True
        | Some ScanFree \<Rightarrow> \<forall>k. Suc i \<le> k \<and> k < n \<longrightarrow> s + k \<le> range_end m \<and> get_bit m (s + k) = Some False"
        using "1.IH" [of b] True b False "1.prems" by simp
      then show ?thesis
        unfolding eq using b False True
        by (simp split: option.splits scan_result.splits) (metis Suc_leI le_neq_implies_less Suc_leD)+
    qed
  next
    case False
    then show ?thesis by (subst alloc_scan.simps) auto
  qed
qed

text \<open>What one call of the search establishes, from any starting frame.\<close>

definition first_fit_from :: "bmm \<Rightarrow> nat \<Rightarrow> nat \<Rightarrow> (smart_frame_id result \<times> bmm) option \<Rightarrow> bool" where
  "first_fit_from m n b out \<longleftrightarrow>
     (case out of
        None \<Rightarrow> False
      | Some (Inl e, m') \<Rightarrow> e = NoEnoughMemory \<and> m' = m \<and> (\<forall>s \<ge> b. \<not> fits m n s)
      | Some (Inr fr, m') \<Rightarrow>
          sf_frames fr = n \<and> b \<le> sf_id fr \<and> fits m n (sf_id fr)
          \<and> (\<forall>s. b \<le> s \<and> s < sf_id fr \<longrightarrow> \<not> fits m n s)
          \<and> set_bits m (sf_id fr) n True = Some m')"

lemma alloc_loop_first_fit:
  assumes "bmm_wf m"
  shows "first_fit_from m n b (alloc_loop m b n)"
  using assms
proof (induction m b n rule: alloc_loop.induct)
  case (1 m b n)
  note spec = alloc_scan_spec [OF "1.prems", where s = b and n = n and i = 0]
  show ?case
  proof (cases "alloc_scan m b n 0")
    case None
    with spec show ?thesis by simp
  next
    case (Some r)
    show ?thesis
    proof (cases r)
      case ScanNoMemory
      with Some spec obtain j where j: "j < n" "b + j > range_end m" by auto
      have "\<not> fits m n s" if "s \<ge> b" for s
        using j that unfolding fits_def by (meson add_le_mono1 leD le_trans)
      with Some ScanNoMemory show ?thesis
        by (subst alloc_loop.simps) (simp add: first_fit_from_def)
    next
      case (ScanUsed j)
      with Some spec have j: "j < n" "get_bit m (b + j) = Some True" by auto
      have skip: "\<not> fits m n s" if s: "b \<le> s" "s < b + j + 1" for s
      proof
        assume "fits m n s"
        moreover have "s + (b + j - s) = b + j" "b + j - s < n" using s j by auto
        ultimately have "get_bit m (b + j) = Some False" unfolding fits_def by metis
        with j show False by simp
      qed
      have split: "b \<le> s \<Longrightarrow> s < b + j + 1 \<or> b + j + 1 \<le> s" for s by linarith
      have "first_fit_from m n (b + j + 1) (alloc_loop m (b + j + 1) n)"
        using "1.IH" Some ScanUsed "1.prems" by simp
      then have "first_fit_from m n b (alloc_loop m (b + j + 1) n)"
        using skip split
        by (auto simp: first_fit_from_def split: option.splits sum.splits prod.splits) blast+
      with Some ScanUsed show ?thesis by (subst alloc_loop.simps) simp
    next
      case ScanFree
      with Some spec have free: "fits m n b" by (simp add: fits_def)
      have "b + n \<le> 64 * length (allocation_map m) \<or> n = 0"
      proof (cases n)
        case (Suc k)
        with free have "get_bit m (b + k) = Some False" by (simp add: fits_def)
        with Suc show ?thesis using get_bit_Some_bound by fastforce
      qed simp
      then obtain m' where "set_bits m b n True = Some m'"
        by (metis set_bits_defined set_bits.simps(1))
      with Some ScanFree free show ?thesis
        by (subst alloc_loop.simps) (auto simp: first_fit_from_def)
    qed
  qed
qed


lemma alloc_single_loop_spec:
  assumes "bmm_wf m"
  shows "case alloc_single_loop m i of
      None \<Rightarrow> False
    | Some (Inl e, m') \<Rightarrow> e = NoEnoughMemory \<and> m' = m
        \<and> (\<forall>f. i \<le> f \<and> f \<le> range_end m \<longrightarrow> get_bit m f = Some True)
    | Some (Inr f, m') \<Rightarrow> i \<le> f \<and> f \<le> range_end m \<and> get_bit m f = Some False
        \<and> (\<forall>g. i \<le> g \<and> g < f \<longrightarrow> get_bit m g = Some True) \<and> set_bit_bmm m f True = Some m'"
  using assms
proof (induction m i rule: alloc_single_loop.induct)
  case (1 m i)
  show ?case
  proof (cases "i \<le> range_end m")
    case True
    then have lt: "i < 64 * length (allocation_map m)" using "1.prems" by (simp add: bmm_wf_def)
    then obtain b where b: "get_bit m i = Some b" using get_bit_defined by blast
    show ?thesis
    proof (cases b)
      case True
      have eq: "alloc_single_loop m i = alloc_single_loop m (Suc i)"
        using b True \<open>i \<le> range_end m\<close> by (subst alloc_single_loop.simps) simp
      have "case alloc_single_loop m (Suc i) of
          None \<Rightarrow> False
        | Some (Inl e, m') \<Rightarrow> e = NoEnoughMemory \<and> m' = m
            \<and> (\<forall>f. Suc i \<le> f \<and> f \<le> range_end m \<longrightarrow> get_bit m f = Some True)
        | Some (Inr f, m') \<Rightarrow> Suc i \<le> f \<and> f \<le> range_end m \<and> get_bit m f = Some False
            \<and> (\<forall>g. Suc i \<le> g \<and> g < f \<longrightarrow> get_bit m g = Some True) \<and> set_bit_bmm m f True = Some m'"
        using "1.IH" [of b] \<open>i \<le> range_end m\<close> b True "1.prems" by simp
      then show ?thesis
        unfolding eq using b True
        by (simp split: option.splits sum.splits prod.splits)
          (metis Suc_leI le_neq_implies_less Suc_leD)+
    next
      case False
      obtain m' where "set_bit_bmm m i True = Some m'" using set_bit_bmm_defined [OF lt] by blast
      with b False \<open>i \<le> range_end m\<close> show ?thesis by (subst alloc_single_loop.simps) auto
    qed
  next
    case False
    then show ?thesis by (subst alloc_single_loop.simps) auto
  qed
qed

lemma alloc_wf:
  "length (allocation_map m') = length (allocation_map m) \<Longrightarrow> range_end m' = range_end m
     \<Longrightarrow> bmm_wf m \<Longrightarrow> bmm_wf m'"
  by (simp add: bmm_wf_def)

lemma set_bits_wf: "set_bits m b n flag = Some m' \<Longrightarrow> bmm_wf m \<Longrightarrow> bmm_wf m'"
  using set_bits_frame by (blast intro: alloc_wf)

lemma set_bits_range:
  "set_bits m b n flag = Some m' \<Longrightarrow> range_begin m' = range_begin m"
  "set_bits m b n flag = Some m' \<Longrightarrow> range_end m' = range_end m"
  using set_bits_frame by blast+

section \<open>The contract of single-frame allocation\<close>

text \<open>
  What the page cache and the ELF loader rely on: allocation always returns (a frame that was
  not in use, which is the only one whose use changes, or \<open>NoEnoughMemory\<close> with nothing
  changed), and it keeps the allocator well-formed.
\<close>

locale frame_source =
  fixes alloc_one :: "'s \<Rightarrow> (nat result \<times> 's) option"
    and in_use :: "'s \<Rightarrow> nat \<Rightarrow> bool"
    and ok :: "'s \<Rightarrow> bool"
  assumes returns: "ok s \<Longrightarrow> \<exists>r s'. alloc_one s = Some (r, s')"
    and keeps_ok: "ok s \<Longrightarrow> alloc_one s = Some (r, s') \<Longrightarrow> ok s'"
    and fresh: "ok s \<Longrightarrow> alloc_one s = Some (Inr f, s') \<Longrightarrow> \<not> in_use s f"
    and takes: "ok s \<Longrightarrow> alloc_one s = Some (Inr f, s') \<Longrightarrow> in_use s' g = (in_use s g \<or> g = f)"
    and fails: "ok s \<Longrightarrow> alloc_one s = Some (Inl e, s') \<Longrightarrow> e = NoEnoughMemory \<and> s' = s"
begin

fun alloc_many :: "nat \<Rightarrow> 's \<Rightarrow> (nat list result \<times> 's) option" where
  "alloc_many 0 s = Some (Inr [], s)"
| "alloc_many (Suc n) s =
     (case alloc_one s of
        None \<Rightarrow> None
      | Some (Inl e, s') \<Rightarrow> Some (Inl e, s')
      | Some (Inr f, s') \<Rightarrow>
          (case alloc_many n s' of
             None \<Rightarrow> None
           | Some (Inl e, s'') \<Rightarrow> Some (Inl e, s'')
           | Some (Inr fs, s'') \<Rightarrow> Some (Inr (f # fs), s'')))"

lemma alloc_many_returns: "ok s \<Longrightarrow> \<exists>r s'. alloc_many n s = Some (r, s') \<and> ok s'"
proof (induction n arbitrary: s)
  case (Suc n)
  from Suc.prems obtain r s' where a: "alloc_one s = Some (r, s')" using returns by blast
  then have "ok s'" using Suc.prems keeps_ok by blast
  then obtain r2 s2 where "alloc_many n s' = Some (r2, s2)" "ok s2" using Suc.IH by blast
  with a \<open>ok s'\<close> show ?case by (cases r; cases r2) auto
qed simp

lemma alloc_many_fresh:
  "ok s \<Longrightarrow> alloc_many n s = Some (Inr fs, s')
    \<Longrightarrow> length fs = n \<and> distinct fs \<and> (\<forall>f \<in> set fs. \<not> in_use s f)
      \<and> (\<forall>g. in_use s' g = (in_use s g \<or> g \<in> set fs))"
proof (induction n arbitrary: s fs)
  case (Suc n)
  from Suc.prems(2) obtain f s1 fs1 where a: "alloc_one s = Some (Inr f, s1)"
    and r: "alloc_many n s1 = Some (Inr fs1, s')" and fs: "fs = f # fs1"
    by (auto split: option.splits sum.splits)
  note t = takes [OF Suc.prems(1) a] and fr = fresh [OF Suc.prems(1) a]
  have ih: "length fs1 = n \<and> distinct fs1 \<and> (\<forall>f \<in> set fs1. \<not> in_use s1 f)
      \<and> (\<forall>g. in_use s' g = (in_use s1 g \<or> g \<in> set fs1))"
    using Suc.IH [OF keeps_ok [OF Suc.prems(1) a] r] .
  then have "f \<notin> set fs1" using t by blast
  with ih t fr fs show ?case by auto
qed simp

end

definition frame_in_use :: "bmm \<Rightarrow> nat \<Rightarrow> bool" where
  "frame_in_use m f \<longleftrightarrow> get_bit m f = Some True"

interpretation fa: frame_source allocate_single frame_in_use bmm_wf
proof unfold_locales
  fix s r s' f e g assume wf: "bmm_wf s"
  note spec = alloc_single_loop_spec [OF wf, of "range_begin s"]
  show "\<exists>r s'. allocate_single s = Some (r, s')"
    using spec by (auto simp: allocate_single_def split: option.splits)
  show "bmm_wf s'" if a: "allocate_single s = Some (r, s')"
    using spec a wf
    by (auto simp: allocate_single_def dest: set_bit_frame intro!: alloc_wf [of s' s] split: sum.splits)
  show "\<not> frame_in_use s f" if a: "allocate_single s = Some (Inr f, s')"
    using spec a by (simp add: allocate_single_def frame_in_use_def)
  show "frame_in_use s' g = (frame_in_use s g \<or> g = f)" if a: "allocate_single s = Some (Inr f, s')"
    using spec a by (auto simp: allocate_single_def frame_in_use_def get_bit_set_bit)
  show "e = NoEnoughMemory \<and> s' = s" if a: "allocate_single s = Some (Inl e, s')"
    using spec a by (simp add: allocate_single_def)
qed


section \<open>Properties of the allocator\<close>

text \<open>
  C8: the frame allocator is a first-fit allocator. From a well-formed bitmap, \<open>allocate\<close>
  always returns without touching memory outside the bitmap. If it returns frames, they are
  the lowest run of the requested length that was free and inside the range, that run is
  afterwards marked, every other bit is as before, and the range is unchanged. If it reports
  \<open>NoEnoughMemory\<close>, the state is unchanged and no such run exists anywhere in the range.
\<close>

theorem allocate_first_fit:
  assumes "bmm_wf m"
  shows "case allocate m n of
      None \<Rightarrow> False
    | Some (Inl e, m') \<Rightarrow> e = NoEnoughMemory \<and> m' = m \<and> (\<forall>s \<ge> range_begin m. \<not> fits m n s)
    | Some (Inr fr, m') \<Rightarrow>
        sf_frames fr = n \<and> range_begin m \<le> sf_id fr \<and> fits m n (sf_id fr)
        \<and> (\<forall>s. range_begin m \<le> s \<and> s < sf_id fr \<longrightarrow> \<not> fits m n s)
        \<and> (\<forall>f. get_bit m' f = (if sf_id fr \<le> f \<and> f < sf_id fr + n then Some True else get_bit m f))
        \<and> range_begin m' = range_begin m \<and> range_end m' = range_end m \<and> bmm_wf m'"
proof -
  have "first_fit_from m n (range_begin m) (allocate m n)"
    unfolding allocate_def using assms by (rule alloc_loop_first_fit)
  then show ?thesis
    using assms
    by (auto simp: first_fit_from_def get_bit_set_bits set_bits_range
        intro: set_bits_wf split: option.splits sum.splits prod.splits)
qed

theorem allocate_first_fit_witness:
  "bmm_wf \<lparr>allocation_map = [0b10110], range_begin = 1, range_end = 20\<rparr>
   \<and> map_option fst (allocate \<lparr>allocation_map = [0b10110], range_begin = 1, range_end = 20\<rparr> 3)
     = Some (Inr \<lparr>sf_id = 5, sf_frames = 3\<rparr>)
   \<and> \<not> fits \<lparr>allocation_map = [0b10110], range_begin = 1, range_end = 20\<rparr> 3 3"
proof -
  let ?m = "\<lparr>allocation_map = [0b10110], range_begin = 1, range_end = 20\<rparr> :: bmm"
  have wf: "bmm_wf ?m"
    by (simp add: bmm_wf_def required_frames_def bytes_per_frame_def bits_per_mapline_def)
  have ev: "map_option fst (allocate ?m 3) = Some (Inr \<lparr>sf_id = 5, sf_frames = 3\<rparr>)"
    by code_simp
  then show ?thesis
    using allocate_first_fit [OF wf, of 3] wf by (auto split: option.splits)
qed

text \<open>
  C9: releasing what was allocated restores the allocator exactly. Freeing the owner returned
  by \<open>allocate\<close> gives back the very bitmap allocation started from, leaves the owner holding
  the null frame, and freeing it a second time changes nothing.
\<close>

theorem allocate_free_roundtrip:
  assumes "bmm_wf m" and "0 < n" and "allocate m n = Some (Inr fr, m')"
  shows "smart_free fr m' = Some (fr\<lparr>sf_id := nullframe\<rparr>, m)
    \<and> smart_free (fr\<lparr>sf_id := nullframe\<rparr>) m = Some (fr\<lparr>sf_id := nullframe\<rparr>, m)"
proof -
  have ff: "first_fit_from m n (range_begin m) (Some (Inr fr, m'))"
    using alloc_loop_first_fit [OF assms(1), of n "range_begin m"] assms(3) by (simp add: allocate_def)
  then have fr: "sf_frames fr = n" "fits m n (sf_id fr)" and set: "set_bits m (sf_id fr) n True = Some m'"
    by (simp_all add: first_fit_from_def)
  have last: "get_bit m (sf_id fr + (n - 1)) = Some False"
    using fr(2) assms(2) unfolding fits_def by (metis diff_less zero_less_one)
  have bound: "sf_id fr + n \<le> 64 * length (allocation_map m)"
    using get_bit_Some_bound [OF last] assms(2) by linarith
  also have "\<dots> \<le> required_frames"
    using assms(1) by (simp add: bmm_wf_def required_frames_def bytes_per_frame_def bits_per_mapline_def)
  finally have nn: "sf_id fr \<noteq> nullframe"
    using assms(2) by (simp add: required_frames_def nullframe_def bytes_per_frame_def)
  note fm = set_bits_frame [OF set]
  from bound fm obtain m2 where m2: "set_bits m' (sf_id fr) n False = Some m2"
    using set_bits_defined [of "sf_id fr" n m' False] by auto
  have "m2 = m"
  proof (rule bmm_eqI)
    fix f
    have "get_bit m f = Some False" if "sf_id fr \<le> f" "f < sf_id fr + n"
      using fr(2) that unfolding fits_def by (metis le_add_diff_inverse nat_add_left_cancel_less)
    then show "get_bit m2 f = get_bit m f"
      by (auto simp: get_bit_set_bits [OF m2] get_bit_set_bits [OF set])
  qed (use fm set_bits_frame [OF m2] in auto)
  with m2 nn fr(1) show ?thesis
    by (simp add: smart_free_def deallocate_def)
qed

theorem allocate_free_roundtrip_witness:
  "\<exists>fr m'. allocate \<lparr>allocation_map = [0b10110], range_begin = 1, range_end = 20\<rparr> 2 = Some (Inr fr, m')
    \<and> smart_free fr m' = Some (fr\<lparr>sf_id := nullframe\<rparr>,
        \<lparr>allocation_map = [0b10110], range_begin = 1, range_end = 20\<rparr>)"
proof -
  let ?m = "\<lparr>allocation_map = [0b10110], range_begin = 1, range_end = 20\<rparr> :: bmm"
  have wf: "bmm_wf ?m"
    by (simp add: bmm_wf_def required_frames_def bytes_per_frame_def bits_per_mapline_def)
  have ev: "allocate ?m 2 = Some (Inr \<lparr>sf_id = 5, sf_frames = 2\<rparr>,
      \<lparr>allocation_map = [0b1110110], range_begin = 1, range_end = 20\<rparr>)"
    by code_simp
  show ?thesis
    using allocate_free_roundtrip [OF wf _ ev] ev by auto
qed


section \<open>The bitmap a memory map gives\<close>

definition desc_end :: "memory_descriptor \<Rightarrow> nat" where
  "desc_end d = physical_start d + number_of_pages d * 4096"

text \<open>A firmware memory map in ascending order: aligned, disjoint descriptors below \<open>lim\<close>.\<close>

fun mem_map_ok :: "nat \<Rightarrow> nat \<Rightarrow> memory_descriptor list \<Rightarrow> bool" where
  "mem_map_ok e lim [] \<longleftrightarrow> True"
| "mem_map_ok e lim (d # ds) \<longleftrightarrow>
     e \<le> physical_start d \<and> 4096 dvd physical_start d \<and> desc_end d \<le> lim \<and> mem_map_ok (desc_end d) lim ds"

definition in_available :: "memory_descriptor list \<Rightarrow> nat \<Rightarrow> bool" where
  "in_available ds f \<longleftrightarrow>
     (\<exists>d \<in> set ds. is_available_memory_type (md_type d) \<and> physical_start d \<le> f * 4096 \<and> f * 4096 < desc_end d)"

text \<open>The invariant of the constructor's loop after the descriptors \<open>done\<close>, the last of which
  ended at \<open>e\<close>.\<close>

definition init_inv :: "nat \<Rightarrow> memory_descriptor list \<Rightarrow> nat \<Rightarrow> bmm \<Rightarrow> nat \<Rightarrow> bool" where
  "init_inv len seen e m a \<longleftrightarrow>
     length (allocation_map m) = len \<and> a \<le> e \<and> 4096 dvd a
     \<and> (\<forall>d \<in> set seen. desc_end d \<le> e)
     \<and> (\<forall>f. f * 4096 < a \<longrightarrow> get_bit m f = Some (\<not> in_available seen f))
     \<and> (\<forall>f. a \<le> f * 4096 \<longrightarrow> \<not> in_available seen f)
     \<and> (\<forall>f. e \<le> f * 4096 \<and> f < 64 * len \<longrightarrow> get_bit m f = Some False)"

lemma in_available_snoc:
  "in_available (ds @ [d]) f \<longleftrightarrow> in_available ds f \<or>
     is_available_memory_type (md_type d) \<and> physical_start d \<le> f * 4096 \<and> f * 4096 < desc_end d"
  by (auto simp: in_available_def)

lemma mult_4096_less_iff: "4096 dvd (a :: nat) \<Longrightarrow> f * 4096 < a \<longleftrightarrow> f < a div 4096"
  by (metis dvd_div_mult_self mult_less_cancel2 zero_less_numeral)

lemma mult_4096_le_iff: "4096 dvd (a :: nat) \<Longrightarrow> a \<le> f * 4096 \<longleftrightarrow> a div 4096 \<le> f"
  by (meson linorder_not_less mult_4096_less_iff)

lemma desc_end_dvd: "4096 dvd physical_start d \<Longrightarrow> 4096 dvd desc_end d"
  by (simp add: desc_end_def)

text \<open>The first half of the loop body marks the gap before the descriptor.\<close>

lemma init_gap:
  assumes inv: "init_inv len seen e m a" and "e \<le> physical_start d" and al: "4096 dvd physical_start d"
    and lim: "physical_start d \<le> 64 * len * 4096"
  shows "\<exists>m1. (if a < physical_start d
      then set_bits m (a div bytes_per_frame) ((physical_start d - a) div bytes_per_frame) True
      else Some m) = Some m1 \<and> length (allocation_map m1) = len
    \<and> (\<forall>f. f * 4096 < physical_start d \<longrightarrow> get_bit m1 f = Some (\<not> in_available seen f))
    \<and> (\<forall>f. physical_start d \<le> f * 4096 \<and> f < 64 * len \<longrightarrow> get_bit m1 f = Some False)"
proof (cases "a < physical_start d")
  case True
  let ?b = "a div 4096" and ?n = "(physical_start d - a) div 4096"
  have a: "4096 dvd a" "length (allocation_map m) = len" using inv by (auto simp: init_inv_def)
  have bn: "?b + ?n = physical_start d div 4096"
    using True al a(1) by (simp add: div_plus_div_distrib_dvd_left [symmetric])
  then have "?b + ?n \<le> 64 * length (allocation_map m)"
    using lim a(2) by (simp add: div_le_mono [of _ "64 * len * 4096" 4096, simplified])
  then obtain m1 where m1: "set_bits m ?b ?n True = Some m1" using set_bits_defined by blast
  have g: "get_bit m1 f = (if a \<le> f * 4096 \<and> f * 4096 < physical_start d then Some True else get_bit m f)" for f
    by (simp add: get_bit_set_bits [OF m1] bn mult_4096_le_iff [OF a(1)] mult_4096_less_iff [OF al])
  show ?thesis
    using True m1 inv assms(2) set_bits_frame [OF m1]
    by (auto simp: bytes_per_frame_def g init_inv_def)
next
  case False
  with inv assms(2) have "a = physical_start d" "e = physical_start d" by (auto simp: init_inv_def)
  with inv False show ?thesis by (auto simp: init_inv_def)
qed

lemma init_loop_inv:
  assumes "init_inv len seen e m a" and "mem_map_ok e (64 * len * 4096) ds" and "64 * len * 4096 < 2 ^ 64"
  shows "\<exists>m' a' e'. bmm_init_loop m a ds = Some (m', a') \<and> init_inv len (seen @ ds) e' m' a'"
  using assms
proof (induction ds arbitrary: seen e m a)
  case (Cons d ds)
  have d: "e \<le> physical_start d" "4096 dvd physical_start d" "desc_end d \<le> 64 * len * 4096"
    "mem_map_ok (desc_end d) (64 * len * 4096) ds"
    using Cons.prems(2) by auto
  have ps: "physical_start d \<le> desc_end d" by (simp add: desc_end_def)
  obtain m1 where m1: "(if a < physical_start d
      then set_bits m (a div bytes_per_frame) ((physical_start d - a) div bytes_per_frame) True
      else Some m) = Some m1" "length (allocation_map m1) = len"
    "\<And>f. f * 4096 < physical_start d \<Longrightarrow> get_bit m1 f = Some (\<not> in_available seen f)"
    "\<And>f. physical_start d \<le> f * 4096 \<Longrightarrow> f < 64 * len \<Longrightarrow> get_bit m1 f = Some False"
    using init_gap [OF Cons.prems(1) d(1,2)] d(3) ps by auto
  have seen: "\<And>f. physical_start d \<le> f * 4096 \<Longrightarrow> \<not> in_available seen f"
    "\<And>x. x \<in> set seen \<Longrightarrow> desc_end x \<le> desc_end d" "a \<le> e" "4096 dvd a"
    "\<And>f. a \<le> f * 4096 \<Longrightarrow> \<not> in_available seen f"
    using Cons.prems(1) d(1) ps by (auto simp: init_inv_def)
  have lt: "f < 64 * len" if "f * 4096 < desc_end d" for f
    using that d(3) by linarith
  have wrap: "(physical_start d + number_of_pages d * uefi_page_size) mod 2 ^ 64 = desc_end d"
    using d(3) Cons.prems(3) by (simp add: desc_end_def uefi_page_size_def)
  show ?case
  proof (cases "is_available_memory_type (md_type d)")
    case True
    have "get_bit m1 f = Some (\<not> in_available (seen @ [d]) f)" if "f * 4096 < desc_end d" for f
      using that m1(3,4) [of f] lt [OF that] seen(1) [of f] True
      by (cases "f * 4096 < physical_start d") (auto simp: in_available_snoc)
    moreover have "\<not> in_available (seen @ [d]) f" if "desc_end d \<le> f * 4096" for f
      using that seen(1) [of f] ps by (simp add: in_available_snoc)
    ultimately have "init_inv len (seen @ [d]) (desc_end d) m1 (desc_end d)"
      using m1(2) m1(4) seen(2) desc_end_dvd [OF d(2)] ps by (simp add: init_inv_def)
    from Cons.IH [OF this d(4) Cons.prems(3)] True show ?thesis
      by (simp add: m1(1) wrap [simplified] Let_def)
  next
    case False
    let ?b = "physical_start d div 4096"
    have pages: "number_of_pages d * uefi_page_size mod 2 ^ 64 div 4096 = number_of_pages d"
      using d(3) Cons.prems(3) by (simp add: desc_end_def uefi_page_size_def)
    have e: "?b + number_of_pages d = desc_end d div 4096"
      using d(2) by (auto simp: desc_end_def)
    then have "?b + number_of_pages d \<le> 64 * length (allocation_map m1)"
      using d(3) m1(2) by linarith
    then obtain m2 where m2: "set_bits m1 ?b (number_of_pages d) True = Some m2"
      using set_bits_defined by blast
    have g: "get_bit m2 f = (if physical_start d \<le> f * 4096 \<and> f * 4096 < desc_end d then Some True
        else get_bit m1 f)" for f
      by (simp add: get_bit_set_bits [OF m2] e mult_4096_le_iff [OF d(2)]
          mult_4096_less_iff [OF desc_end_dvd [OF d(2)]])
    have "init_inv len (seen @ [d]) (desc_end d) m2 a"
      using m1 seen False g lt d(1) ps set_bits_frame [OF m2]
      by (auto simp: init_inv_def in_available_snoc)
    from Cons.IH [OF this d(4) Cons.prems(3)] False m2 pages show ?thesis
      by (simp add: m1(1) Let_def bytes_per_frame_def)
  qed
qed auto


lemma construct_inv:
  assumes "mem_map_ok 0 (64 * len * 4096) ds" and "64 * len * 4096 < (2 ^ 64 :: nat)"
  shows "\<exists>m a e. bmm_construct (replicate len 0) ds = Some (set_range m 1 (a div 4096)) \<and> init_inv len ds e m a"
proof -
  let ?m = "\<lparr>allocation_map = replicate len 0, range_begin = 0, range_end = required_frames\<rparr> :: bmm"
  have "init_inv len [] 0 ?m 0"
    by (auto simp: init_inv_def get_bit_alt in_available_def)
  from init_loop_inv [OF this assms] obtain m a e
    where "bmm_init_loop ?m 0 ds = Some (m, a)" "init_inv len ds e m a" by auto
  then show ?thesis
    by (intro exI [of _ m] exI [of _ a] exI [of _ e]) (simp add: bmm_construct_def bytes_per_frame_def)
qed

lemma get_bit_set_range [simp]: "get_bit (set_range m b e) f = get_bit m f"
  by (simp add: set_range_def get_bit_alt)

text \<open>
  C10: the constructor marks exactly the unusable frames. For a memory map in ascending order
  whose descriptors are page-aligned, disjoint and inside the bitmap, construction from a
  cleared bitmap succeeds; below the end of the range a frame is free exactly when a
  descriptor of an available memory type covers it, and from there on no frame is available.
  The range starts at frame 1.
\<close>

theorem bmm_construct_marks:
  assumes "mem_map_ok 0 (64 * len * 4096) ds" and "64 * len * 4096 < (2 ^ 64 :: nat)"
  shows "\<exists>m. bmm_construct (replicate len 0) ds = Some m \<and> range_begin m = 1
    \<and> (\<forall>f < range_end m. get_bit m f = Some (\<not> in_available ds f))
    \<and> (\<forall>f \<ge> range_end m. \<not> in_available ds f)"
proof -
  obtain m a e where c: "bmm_construct (replicate len 0) ds = Some (set_range m 1 (a div 4096))"
    and inv: "init_inv len ds e m a"
    using construct_inv [OF assms] by blast
  have a: "4096 dvd a" using inv by (simp add: init_inv_def)
  show ?thesis
    using inv unfolding init_inv_def mult_4096_less_iff [OF a] mult_4096_le_iff [OF a]
    by (intro exI [of _ "set_range m 1 (a div 4096)"]) (auto simp: c, simp_all add: set_range_def)
qed

text \<open>A three-descriptor map: two available pages, one reserved page, then three available.\<close>

definition sample_map :: "memory_descriptor list" where
  "sample_map =
     [\<lparr>md_type = 7, physical_start = 0, number_of_pages = 2\<rparr>,
      \<lparr>md_type = 0, physical_start = 8192, number_of_pages = 1\<rparr>,
      \<lparr>md_type = 4, physical_start = 16384, number_of_pages = 3\<rparr>]"

lemma sample_map_ok: "mem_map_ok 0 (64 * 1 * 4096) sample_map"
  by (simp add: sample_map_def desc_end_def)

lemma set_bits_numeral:
  "set_bits m b (numeral k) flag =
     (case set_bit_bmm m b flag of None \<Rightarrow> None | Some m' \<Rightarrow> set_bits m' (Suc b) (pred_numeral k) flag)"
  by (simp add: numeral_eq_Suc)

lemma sample_construct:
  "bmm_construct (replicate 1 0) sample_map
     = Some \<lparr>allocation_map = [0b1100], range_begin = 1, range_end = 7\<rparr>"
  by (simp add: sample_map_def bmm_construct_def is_available_memory_type_def EfiBootServicesCode_def
      EfiBootServicesData_def EfiConventionalMemory_def bytes_per_frame_def uefi_page_size_def
      bits_per_mapline_def set_bit_bmm_def set_bits_numeral set_range_def Let_def)

theorem bmm_construct_marks_witness:
  "bmm_construct (replicate 1 0) sample_map
     = Some \<lparr>allocation_map = [0b1100], range_begin = 1, range_end = 7\<rparr>
   \<and> get_bit \<lparr>allocation_map = [0b1100], range_begin = 1, range_end = 7\<rparr> 3
         = Some (\<not> in_available sample_map 3)
   \<and> get_bit \<lparr>allocation_map = [0b1100], range_begin = 1, range_end = 7\<rparr> 5
         = Some (\<not> in_available sample_map 5)"
  using bmm_construct_marks [OF sample_map_ok] sample_construct by auto

lemma construct_end_unavailable:
  assumes "mem_map_ok 0 (64 * len * 4096) ds" and "64 * len * 4096 < (2 ^ 64 :: nat)"
    and "bmm_construct (replicate len 0) ds = Some m"
  shows "\<not> in_available ds (range_end m)"
proof -
  obtain m1 a e where c: "bmm_construct (replicate len 0) ds = Some (set_range m1 1 (a div 4096))"
    and inv: "init_inv len ds e m1 a"
    using construct_inv [OF assms(1,2)] by blast
  have "4096 dvd a" using inv by (simp add: init_inv_def)
  with inv c assms(3) show ?thesis by (simp add: init_inv_def set_range_def)
qed

text \<open>
  C41: the end of the range is treated as inside it. The constructor sets \<open>range_end\<close> to the
  first frame past the last available descriptor, but both allocation loops test
  \<open>i \<le> range_end\<close>: once the frames below it are used, \<open>allocate_single\<close> hands out that frame
  although no available descriptor covers it.
\<close>

theorem allocate_single_past_available:
  assumes "mem_map_ok 0 (64 * len * 4096) ds" and "64 * len * 4096 < (2 ^ 64 :: nat)"
    and c: "bmm_construct (replicate len 0) ds = Some m0"
    and wf: "bmm_wf m" and rng: "range_begin m = range_begin m0" "range_end m = range_end m0"
    and used: "\<forall>f. range_begin m \<le> f \<and> f < range_end m \<longrightarrow> get_bit m f = Some True"
    and free: "range_begin m \<le> range_end m" "get_bit m (range_end m) = Some False"
  shows "(\<exists>m'. allocate_single m = Some (Inr (range_end m), m')) \<and> \<not> in_available ds (range_end m)"
proof
  note spec = alloc_single_loop_spec [OF wf, of "range_begin m"]
  show "\<exists>m'. allocate_single m = Some (Inr (range_end m), m')"
  proof (cases "alloc_single_loop m (range_begin m)")
    case None
    with spec show ?thesis by simp
  next
    case (Some p)
    obtain r m' where p: "p = (r, m')" by (cases p)
    show ?thesis
    proof (cases r)
      case (Inl e)
      with Some p spec free show ?thesis by auto
    next
      case (Inr f)
      with Some p spec used have "f = range_end m" by (force dest: le_neq_implies_less)
      with Some p Inr show ?thesis by (simp add: allocate_single_def)
    qed
  qed
  show "\<not> in_available ds (range_end m)"
    using construct_end_unavailable [OF assms(1,2) c] rng by simp
qed

theorem allocate_single_past_available_witness:
  "bmm_construct (replicate 1 0) sample_map
     = Some \<lparr>allocation_map = [0b1100], range_begin = 1, range_end = 7\<rparr>
   \<and> (\<exists>m'. allocate_single \<lparr>allocation_map = [0b1111110], range_begin = 1, range_end = 7\<rparr> = Some (Inr 7, m'))
   \<and> \<not> in_available sample_map 7"
proof -
  let ?m = "\<lparr>allocation_map = [0b1111110], range_begin = 1, range_end = 7\<rparr> :: bmm"
  have wf: "bmm_wf ?m"
    by (simp add: bmm_wf_def required_frames_def bytes_per_frame_def bits_per_mapline_def)
  have used: "\<forall>f. 1 \<le> f \<and> f < 7 \<longrightarrow> get_bit ?m f = Some True"
  proof (intro allI impI)
    fix f :: nat assume "1 \<le> f \<and> f < 7"
    then have "f \<in> {1, 2, 3, 4, 5, 6}" by auto
    then show "get_bit ?m f = Some True" by (auto simp: get_bit_def bits_per_mapline_def)
  qed
  have free: "get_bit ?m 7 = Some False" by (simp add: get_bit_def bits_per_mapline_def)
  show ?thesis
    using allocate_single_past_available [OF sample_map_ok _ sample_construct wf] sample_construct used free by simp
qed

end
