(* ===== verification/Thread_Context.thy ===== *)
theory Thread_Context
  imports Klee_Prelude
begin

text \<open>
  Processor state of a thread: \<^verbatim>\<open>ThreadContext\<close> and \<^verbatim>\<open>Thread::init_context\<close> of
  \<^verbatim>\<open>src/process/process.hpp\<close>, and the assembly \<^verbatim>\<open>switch_context\<close>/\<^verbatim>\<open>restore_context\<close> of
  \<^verbatim>\<open>src/process/process.asm\<close>. The record has the struct's fields; \<open>context_layout\<close> is the byte
  layout of the packed struct, \<open>asm_offsets\<close> the displacements the assembly uses. Memory is a
  function from addresses to quadwords, of which the save only reads the return address.
\<close>

unbundle bit_operations_syntax

record thread_context =
  x_cr3 :: u64
  x_rip :: u64
  x_rflags :: u64
  x_reserved1 :: u64
  x_cs :: u64
  x_ss :: u64
  x_fs :: u64
  x_gs :: u64
  x_rax :: u64
  x_rbx :: u64
  x_rcx :: u64
  x_rdx :: u64
  x_rdi :: u64
  x_rsi :: u64
  x_rsp :: u64
  x_rbp :: u64
  x_r8 :: u64
  x_r9 :: u64
  x_r10 :: u64
  x_r11 :: u64
  x_r12 :: u64
  x_r13 :: u64
  x_r14 :: u64
  x_r15 :: u64
  x_fxsave_area :: "u8 list"

text \<open>The registers of a processor; the segment registers are 16 bits wide.\<close>

record cpu_state =
  c_cr3 :: u64
  c_rip :: u64
  c_rflags :: u64
  c_cs :: u16
  c_ss :: u16
  c_fs :: u16
  c_gs :: u16
  c_gpr :: "u64 list"   \<comment> \<open>rax rbx rcx rdx rdi rsi rbp r8 .. r15\<close>
  c_rsp :: u64
  c_fx :: "u8 list"

definition context_fields :: "(string \<times> nat) list" where
  "context_fields = [
     (''cr3'', 8), (''rip'', 8), (''rflags'', 8), (''reserved1'', 8),
     (''cs'', 8), (''ss'', 8), (''fs'', 8), (''gs'', 8),
     (''rax'', 8), (''rbx'', 8), (''rcx'', 8), (''rdx'', 8),
     (''rdi'', 8), (''rsi'', 8), (''rsp'', 8), (''rbp'', 8),
     (''r8'', 8), (''r9'', 8), (''r10'', 8), (''r11'', 8),
     (''r12'', 8), (''r13'', 8), (''r14'', 8), (''r15'', 8), (''fxsave_area'', 512)]"

text \<open>Offsets in a packed struct: the sum of the sizes before the field.\<close>

fun layout_from :: "nat \<Rightarrow> (string \<times> nat) list \<Rightarrow> (string \<times> nat) list" where
  "layout_from off [] = []"
| "layout_from off ((f, sz) # rest) = (f, off) # layout_from (off + sz) rest"

definition context_layout :: "(string \<times> nat) list" where
  "context_layout = layout_from 0 context_fields"

definition save_offsets :: "(string \<times> nat) list" where
  "save_offsets = [
     (''rax'', 0x40), (''rbx'', 0x48), (''rcx'', 0x50), (''rdx'', 0x58), (''rdi'', 0x60), (''rsi'', 0x68),
     (''rsp'', 0x70), (''rbp'', 0x78),
     (''r8'', 0x80), (''r9'', 0x88), (''r10'', 0x90), (''r11'', 0x98),
     (''r12'', 0xa0), (''r13'', 0xa8), (''r14'', 0xb0), (''r15'', 0xb8),
     (''cr3'', 0x00), (''rip'', 0x08), (''rflags'', 0x10),
     (''cs'', 0x20), (''ss'', 0x28), (''fs'', 0x30), (''gs'', 0x38), (''fxsave_area'', 0xc0)]"

definition restore_offsets :: "(string \<times> nat) list" where
  "restore_offsets = [
     (''ss'', 0x28), (''rsp'', 0x70), (''rflags'', 0x10), (''cs'', 0x20), (''rip'', 0x08),
     (''fxsave_area'', 0xc0), (''cr3'', 0x00), (''fs'', 0x30), (''gs'', 0x38),
     (''rax'', 0x40), (''rbx'', 0x48), (''rcx'', 0x50), (''rdx'', 0x58), (''rsi'', 0x68), (''rbp'', 0x78),
     (''r8'', 0x80), (''r9'', 0x88), (''r10'', 0x90), (''r11'', 0x98),
     (''r12'', 0xa0), (''r13'', 0xa8), (''r14'', 0xb0), (''r15'', 0xb8), (''rdi'', 0x60)]"

text \<open>A store of a segment register to memory writes its 16 bits and leaves the other bytes.\<close>

definition store_segment :: "u64 \<Rightarrow> u16 \<Rightarrow> u64" where
  "store_segment old seg = (old AND NOT 0xFFFF) OR ucast seg"

text \<open>The first half of \<open>switch_context\<close>: the caller's state as it will be after the call returns,
  the return address being the quadword on top of the stack.\<close>

definition save_context :: "(u64 \<Rightarrow> u64) \<Rightarrow> cpu_state \<Rightarrow> thread_context \<Rightarrow> thread_context" where
  "save_context mem c ctx = ctx\<lparr>
     x_rax := c_gpr c ! 0, x_rbx := c_gpr c ! 1, x_rcx := c_gpr c ! 2, x_rdx := c_gpr c ! 3,
     x_rdi := c_gpr c ! 4, x_rsi := c_gpr c ! 5, x_rsp := c_rsp c + 8, x_rbp := c_gpr c ! 6,
     x_r8 := c_gpr c ! 7, x_r9 := c_gpr c ! 8, x_r10 := c_gpr c ! 9, x_r11 := c_gpr c ! 10,
     x_r12 := c_gpr c ! 11, x_r13 := c_gpr c ! 12, x_r14 := c_gpr c ! 13, x_r15 := c_gpr c ! 14,
     x_cr3 := c_cr3 c, x_rip := mem (c_rsp c), x_rflags := c_rflags c,
     x_cs := store_segment (x_cs ctx) (c_cs c), x_ss := store_segment (x_ss ctx) (c_ss c),
     x_fs := store_segment (x_fs ctx) (c_fs c), x_gs := store_segment (x_gs ctx) (c_gs c),
     x_fxsave_area := c_fx c\<rparr>"

text \<open>\<open>restore_context\<close>: every register from the context, \<open>rip\<close>, \<open>cs\<close>, \<open>rflags\<close>, \<open>rsp\<close> and \<open>ss\<close> through
  the frame of \<^verbatim>\<open>iretq\<close>.\<close>

definition restore_context :: "thread_context \<Rightarrow> cpu_state" where
  "restore_context ctx = \<lparr>
     c_cr3 = x_cr3 ctx, c_rip = x_rip ctx, c_rflags = x_rflags ctx,
     c_cs = ucast (x_cs ctx), c_ss = ucast (x_ss ctx), c_fs = ucast (x_fs ctx), c_gs = ucast (x_gs ctx),
     c_gpr = [x_rax ctx, x_rbx ctx, x_rcx ctx, x_rdx ctx, x_rdi ctx, x_rsi ctx, x_rbp ctx, x_r8 ctx, x_r9 ctx,
              x_r10 ctx, x_r11 ctx, x_r12 ctx, x_r13 ctx, x_r14 ctx, x_r15 ctx],
     c_rsp = x_rsp ctx, c_fx = x_fxsave_area ctx\<rparr>"

text \<open>\<open>memset(&context, 0, sizeof(context))\<close>.\<close>

definition zero_context :: thread_context where
  "zero_context = \<lparr> x_cr3 = 0, x_rip = 0, x_rflags = 0, x_reserved1 = 0, x_cs = 0, x_ss = 0, x_fs = 0, x_gs = 0,
     x_rax = 0, x_rbx = 0, x_rcx = 0, x_rdx = 0, x_rdi = 0, x_rsi = 0, x_rsp = 0, x_rbp = 0,
     x_r8 = 0, x_r9 = 0, x_r10 = 0, x_r11 = 0, x_r12 = 0, x_r13 = 0, x_r14 = 0, x_r15 = 0,
     x_fxsave_area = replicate 512 0 \<rparr>"

text \<open>A little-endian 32-bit store into the byte array.\<close>

definition store32 :: "u8 list \<Rightarrow> nat \<Rightarrow> u32 \<Rightarrow> u8 list" where
  "store32 bs i v = bs[i := ucast v, i + 1 := ucast (drop_bit 8 v),
                       i + 2 := ucast (drop_bit 16 v), i + 3 := ucast (drop_bit 24 v)]"

definition load32 :: "u8 list \<Rightarrow> nat \<Rightarrow> u32" where
  "load32 bs i = ucast (bs ! i) OR push_bit 8 (ucast (bs ! (i + 1)))
                 OR push_bit 16 (ucast (bs ! (i + 2))) OR push_bit 24 (ucast (bs ! (i + 3)))"

definition kernel_cs :: u64 where
  "kernel_cs = push_bit 3 1"

definition kernel_ss :: u64 where
  "kernel_ss = push_bit 3 2"

text \<open>\<open>Thread::init_context\<close>. \<open>stack\<close> is the address of the vector \<open>stack.resize\<close> allocates,
  \<open>pml4\<close> the address of the process's top-level page table.\<close>

definition default_stack_bytes :: u64 where
  "default_stack_bytes = 4096"

definition init_context :: "u64 \<Rightarrow> u64 \<Rightarrow> u64 \<Rightarrow> u64 \<Rightarrow> u64 \<Rightarrow> thread_context" where
  "init_context tid func data pml4 stack =
     (let stack_end = stack + default_stack_bytes in
      zero_context\<lparr>
        x_rip := func, x_rdi := tid, x_rsi := data,
        x_cr3 := pml4, x_rflags := 0x202, x_cs := kernel_cs, x_ss := kernel_ss,
        x_rsp := (stack_end AND NOT 0xF) - 8,
        x_fxsave_area := store32 (x_fxsave_area zero_context) 24 0x1f80\<rparr>)"

subsection \<open>The layout\<close>

lemma context_layout_asm_aux:
  "list_all (\<lambda>fo. map_of context_layout (fst fo) = Some (snd fo)) save_offsets"
  "list_all (\<lambda>fo. map_of context_layout (fst fo) = Some (snd fo)) restore_offsets"
  by (simp_all add: context_layout_def context_fields_def save_offsets_def restore_offsets_def)

text \<open>The displacements of the assembly agree with the packed C++ struct: every field that
  \<open>switch_context\<close> stores and \<open>restore_context\<close> loads is at the offset the struct gives it, both halves
  touch the same fields, all of them but the reserved quadword, and the \<^verbatim>\<open>fxsave\<close> area is 16-byte
  aligned.\<close>

theorem context_layout_matches_assembly:
  "list_all (\<lambda>(f, off). map_of context_layout f = Some off) (save_offsets @ restore_offsets)
   \<and> set (map fst save_offsets) = set (map fst restore_offsets)
   \<and> set (map fst context_layout) = insert ''reserved1'' (set (map fst save_offsets))
   \<and> map_of context_layout ''fxsave_area'' = Some (16 * 12)"
proof -
  have a: "list_all (\<lambda>(f, off). map_of context_layout f = Some off) (save_offsets @ restore_offsets)"
    using context_layout_asm_aux by (simp add: case_prod_unfold)
  have b: "set (map fst save_offsets) = set (map fst restore_offsets)"
    by code_simp
  have c: "set (map fst context_layout) = insert ''reserved1'' (set (map fst save_offsets))"
    by code_simp
  have d: "map_of context_layout ''fxsave_area'' = Some (16 * 12)"
    by (simp add: context_layout_def context_fields_def)
  from a b c d show ?thesis by blast
qed

subsection \<open>Switching\<close>

lemma ucast_store_segment [simp]: "ucast (store_segment old seg) = seg"
proof -
  have m: "(0xFFFF :: u64) = mask 16" by (simp add: mask_eq_exp_minus_1)
  show ?thesis unfolding store_segment_def m
    by (rule bit_word_eqI) (auto simp: bit_ucast_iff bit_or_iff bit_and_iff bit_not_iff bit_mask_iff)
qed

lemma length_15_eq:
  assumes "length xs = 15"
  shows "[xs ! 0, xs ! 1, xs ! 2, xs ! 3, xs ! 4, xs ! 5, xs ! 6, xs ! 7, xs ! 8, xs ! 9, xs ! 10,
          xs ! 11, xs ! 12, xs ! 13, xs ! 14] = xs"
  using assms by (auto simp: numeral_eq_Suc length_Suc_conv)

lemma restore_save:
  assumes "length (c_gpr c) = 15"
  shows "restore_context (save_context mem c ctx) = c\<lparr>c_rip := mem (c_rsp c), c_rsp := c_rsp c + 8\<rparr>"
  using length_15_eq [OF assms] by (simp add: restore_context_def save_context_def)

text \<open>C31. Context switch round trip: when a thread that called \<open>switch_context\<close> is later restored from
  the context saved then, every register is as it was, with the instruction pointer at the return
  address of the call and the return address popped.\<close>

theorem switch_context_resumes:
  assumes "length (c_gpr c) = 15"
  shows "restore_context (save_context mem c ctx) = c\<lparr>c_rip := mem (c_rsp c), c_rsp := c_rsp c + 8\<rparr>"
  using assms by (rule restore_save)

definition sample_cpu :: cpu_state where
  "sample_cpu = \<lparr> c_cr3 = 0x1000, c_rip = 0x42, c_rflags = 0x202, c_cs = 8, c_ss = 16, c_fs = 0, c_gs = 0,
     c_gpr = [0, 1, 2, 3, 4, 5, 6, 7, 8, 9, 10, 11, 12, 13, 14], c_rsp = 0x8000, c_fx = [] \<rparr>"

theorem switch_context_resumes_witness:
  "restore_context (save_context (\<lambda>a. a + 1) sample_cpu zero_context)
   = sample_cpu\<lparr>c_rip := 0x8001, c_rsp := 0x8008\<rparr>"
proof -
  have "length (c_gpr sample_cpu) = 15" by (simp add: sample_cpu_def)
  from switch_context_resumes [OF this, of "\<lambda>a. a + 1" zero_context]
  show ?thesis by (simp only: sample_cpu_def cpu_state.simps) simp
qed

subsection \<open>The first context of a thread\<close>

lemma load32_store32:
  assumes "i + 3 < length bs"
  shows "load32 (store32 bs i v) i = v"
proof (rule bit_word_eqI)
  fix n assume n: "n < LENGTH(32)"
  then consider "n < 8" | "8 \<le> n" "n < 16" | "16 \<le> n" "n < 24" | "24 \<le> n" "n < 32"
    by (cases "n < 8"; cases "n < 16"; cases "n < 24") auto
  then show "bit (load32 (store32 bs i v) i) n = bit v n"
    by cases (use assms in \<open>auto simp: load32_def store32_def bit_or_iff bit_push_bit_iff
        bit_ucast_iff bit_drop_bit_eq nth_list_update\<close>)
qed

lemma and_not_15_unat: "unat (w AND NOT 0xF :: u64) = unat w - unat w mod 16"
proof -
  have m: "(0xF :: u64) = mask 4" by (simp add: mask_eq_exp_minus_1)
  have "NOT w AND (w AND mask 4) = 0"
    by (rule bit_word_eqI) (auto simp only: bit_and_iff bit_not_iff bit_0_eq bot_fun_def bot_bool_def)
  then have "w - (w AND mask 4) = w AND NOT (w AND mask 4)"
    by (rule disjunctive_diff_eq_and_not)
  also have "\<dots> = w AND NOT 0xF"
    unfolding m by (rule bit_word_eqI)
      (auto simp only: bit_and_iff bit_not_iff possible_bit_def exp_eq_0_imp_not_bit)
  finally have "w AND NOT 0xF = w - take_bit 4 w" by (simp only: take_bit_eq_mask)
  moreover have t: "unat (take_bit 4 w) = unat w mod 16"
    by (simp only: unsigned_take_bit_eq) (simp add: take_bit_eq_mod)
  moreover have "take_bit 4 w \<le> w"
    by (simp only: word_le_nat_alt t mod_less_eq_dividend)
  ultimately show ?thesis by (simp add: unat_sub)
qed

lemma init_context_fields:
  "x_rip (init_context tid func data pml4 stack) = func"
  "x_rdi (init_context tid func data pml4 stack) = tid"
  "x_rsi (init_context tid func data pml4 stack) = data"
  "x_cr3 (init_context tid func data pml4 stack) = pml4"
  "x_rflags (init_context tid func data pml4 stack) = 0x202"
  "x_cs (init_context tid func data pml4 stack) = kernel_cs"
  "x_ss (init_context tid func data pml4 stack) = kernel_ss"
  "x_rsp (init_context tid func data pml4 stack) = ((stack + default_stack_bytes) AND NOT 0xF) - 8"
  "x_fxsave_area (init_context tid func data pml4 stack) = store32 (replicate 512 0) 24 0x1f80"
  unfolding init_context_def Let_def
  by (simp_all add: zero_context_def)

lemma init_context_rsp:
  assumes "unat stack + 4096 < 2 ^ 64"
  shows "unat (x_rsp (init_context tid func data pml4 stack))
         = unat stack + 4096 - (unat stack mod 16) - 8"
proof -
  have e: "unat (stack + default_stack_bytes) = unat stack + 4096"
    using assms by (simp add: default_stack_bytes_def unat_plus_if_size word_size)
  have m: "(unat stack + 4096) mod 16 = unat stack mod 16"
    using mod_mult_self1 [of "unat stack" 256 16] by simp
  have a: "unat ((stack + default_stack_bytes) AND NOT 0xF) = unat stack + 4096 - unat stack mod 16"
    by (simp only: and_not_15_unat e m)
  have "unat stack mod 16 < 16" by simp
  then have "unat (8 :: u64) \<le> unat ((stack + default_stack_bytes) AND NOT 0xF)"
    unfolding a by simp
  then have "(8 :: u64) \<le> (stack + default_stack_bytes) AND NOT 0xF"
    by (simp only: word_le_nat_alt)
  then show ?thesis
    by (simp only: init_context_fields unat_sub a) simp
qed

text \<open>The first context of a thread: restoring it starts the processor at the thread's entry
  function with the thread id and the data as its two arguments, in kernel segments, on the address
  space of its process, with interrupts enabled; the stack pointer lies in the last 24 bytes of the
  4096-byte stack and is 8 modulo 16, as the calling convention wants at a function's entry, and the
  SSE control word masks every exception.\<close>

theorem init_context_entry:
  assumes "unat stack + 4096 < 2 ^ 64"
    and c_def: "c = restore_context (init_context tid func data pml4 stack)"
  shows "c_rip c = func \<and> c_gpr c ! 4 = tid \<and> c_gpr c ! 5 = data \<and> c_cr3 c = pml4
     \<and> c_cs c = 8 \<and> c_ss c = 16 \<and> bit (c_rflags c) 9
     \<and> unat (c_rsp c) mod 16 = 8
     \<and> unat stack + 4096 - 24 < unat (c_rsp c) \<and> unat (c_rsp c) + 8 \<le> unat stack + 4096
     \<and> load32 (c_fx c) 24 = 0x1f80"
proof -
  have r: "unat (c_rsp c) = unat stack + 4096 - (unat stack mod 16) - 8"
    using init_context_rsp [OF assms(1)] by (simp only: c_def restore_context_def cpu_state.simps)
  have "unat stack mod 16 < 16" "unat stack mod 16 \<le> unat stack" by simp_all
  then have b: "unat stack + 4096 - 24 < unat (c_rsp c)" "unat (c_rsp c) + 8 \<le> unat stack + 4096"
    using r by arith+
  have "\<And>n. (n + 4096 - n mod 16 - 8) mod 16 = (8 :: nat)"
  proof -
    fix n :: nat
    have "n + 4096 - n mod 16 - 8 = 16 * (n div 16) + 4088" by (simp add: minus_mod_eq_mult_div [symmetric])
    then show "(n + 4096 - n mod 16 - 8) mod 16 = 8" by simp
  qed
  then have a: "unat (c_rsp c) mod 16 = 8" by (simp only: r)
  have fx: "load32 (c_fx c) 24 = 0x1f80"
    unfolding c_def restore_context_def cpu_state.simps init_context_fields
    by (rule load32_store32) simp
  have s: "ucast kernel_cs = (8 :: u16)" "ucast kernel_ss = (16 :: u16)" "bit (0x202 :: u64) 9"
    by (simp_all add: kernel_cs_def kernel_ss_def)
  have "c_rip c = func" "c_gpr c ! 4 = tid" "c_gpr c ! 5 = data" "c_cr3 c = pml4"
    "c_cs c = 8" "c_ss c = 16" "bit (c_rflags c) 9"
    unfolding c_def restore_context_def cpu_state.simps init_context_fields
    using s by simp_all
  with a b fx show ?thesis by blast
qed

theorem init_context_entry_witness:
  "c_rip (restore_context (init_context 1 0x1234 7 0x9000 0x20008)) = 0x1234
   \<and> unat (c_rsp (restore_context (init_context 1 0x1234 7 0x9000 0x20008))) mod 16 = 8"
  using init_context_entry [where stack = "0x20008", OF _ refl, of 1 "0x1234" 7 "0x9000"] by simp

end
