(* ===== verification/Run_Queue.thy ===== *)
theory Run_Queue
  imports Thread_Context
begin

text \<open>
  Threads and the per-processor scheduler: \<^verbatim>\<open>struct Thread\<close> of \<^verbatim>\<open>src/process/process.hpp\<close> and
  \<^verbatim>\<open>class ProcessorLocal\<close> of \<^verbatim>\<open>src/process/manager.hpp\<close>. Threads live in a heap from pointers to
  records, because run queues, wait lists and the processor all hold raw \<^verbatim>\<open>Thread*\<close>; a pointer that
  is not in the heap is a dangling one and reading through it makes an operation return \<open>None\<close>, as do
  a null pointer, an index out of the \<^verbatim>\<open>std::array\<close> and \<^verbatim>\<open>fatal_error\<close>. The processor number
  \<^verbatim>\<open>invalid_processor_number\<close> is \<open>None\<close> of the field \<open>running_on\<close>.
\<close>

type_synonym tptr = nat

record thread =
  t_id :: nat
  t_process :: nat
  t_context :: thread_context
  running_on :: "nat option"
  t_events :: "nat list"
  nice :: int
  suspend_from :: u64
  suspend_for :: u64
  zombie :: bool
  movable :: bool

type_synonym heap = "tptr \<Rightarrow> thread option"

record processor_local =
  this_thread :: "tptr option"
  run_queue :: "tptr list list"
  lapic_id :: u8

definition new_thread :: "nat \<Rightarrow> nat \<Rightarrow> thread_context \<Rightarrow> thread" where
  "new_thread tid pid ctx = \<lparr> t_id = tid, t_process = pid, t_context = ctx, running_on = None,
     t_events = [], nice = 0, suspend_from = 0, suspend_for = 0, zombie = False, movable = True \<rparr>"

definition max_nice :: int where
  "max_nice = 2"

definition invalid_nice :: int where
  "invalid_nice = 2147483647"

text \<open>The conversion to \<^verbatim>\<open>size_t\<close> wraps a negative sum.\<close>

definition nice_to_index :: "int \<Rightarrow> nat" where
  "nice_to_index n = unat (of_int (n + max_nice) :: u64)"

definition is_valid_nice :: "int \<Rightarrow> bool" where
  "is_valid_nice n \<longleftrightarrow> - max_nice \<le> n \<and> n \<le> max_nice"

definition new_local :: processor_local where
  "new_local = \<lparr> this_thread = None, run_queue = replicate (nat (max_nice * 2 + 1)) [], lapic_id = 0 \<rparr>"

definition should_skip :: "thread \<Rightarrow> u64 \<Rightarrow> bool" where
  "should_skip t tick =
     (if suspend_from t = 0 then False
      else (let elapsed = tick - suspend_from t in elapsed < suspend_for t))"

text \<open>Access to \<^verbatim>\<open>run_queue[nice_to_index(nice)]\<close>.\<close>

definition queue_update ::
  "int \<Rightarrow> (tptr list \<Rightarrow> tptr list) \<Rightarrow> processor_local \<Rightarrow> processor_local option" where
  "queue_update n f l =
     (let j = nice_to_index n in
      if j < length (run_queue l)
      then Some (l\<lparr>run_queue := (run_queue l)[j := f (run_queue l ! j)]\<rparr>) else None)"

definition push_to_run_queue :: "heap \<Rightarrow> tptr \<Rightarrow> processor_local \<Rightarrow> processor_local option" where
  "push_to_run_queue h p l = do { t \<leftarrow> h p; queue_update (nice t) (\<lambda>q. q @ [p]) l }"

definition erase_from_run_queue :: "heap \<Rightarrow> tptr \<Rightarrow> processor_local \<Rightarrow> processor_local option" where
  "erase_from_run_queue h p l = do { t \<leftarrow> h p; queue_update (nice t) (\<lambda>q. erase_all q p) l }"

text \<open>The nested scan of \<open>update_this_thread\<close>: the queues in the order of their index, which is the order
  of the nice values, each from its front. The outer \<open>None\<close> is a dangling pointer, the inner one an
  exhausted scan.\<close>

fun scan_queue :: "heap \<Rightarrow> u64 \<Rightarrow> tptr list \<Rightarrow> tptr option option" where
  "scan_queue h tick [] = Some None"
| "scan_queue h tick (p # ps) =
     (case h p of None \<Rightarrow> None
      | Some t \<Rightarrow> if \<not> should_skip t tick then Some (Some p) else scan_queue h tick ps)"

fun scan_queues :: "heap \<Rightarrow> u64 \<Rightarrow> tptr list list \<Rightarrow> tptr option option" where
  "scan_queues h tick [] = Some None"
| "scan_queues h tick (q # qs) =
     (case scan_queue h tick q of None \<Rightarrow> None
      | Some (Some p) \<Rightarrow> Some (Some p)
      | Some None \<Rightarrow> scan_queues h tick qs)"

definition update_this_thread ::
  "u64 \<Rightarrow> heap \<Rightarrow> processor_local \<Rightarrow> (heap \<times> processor_local) option" where
  "update_this_thread tick h l = do {
     p \<leftarrow> this_thread l;
     t \<leftarrow> h p;
     l \<leftarrow> queue_update (nice t)
            (\<lambda>q. erase_all q p @ (if running_on t \<noteq> None then [p] else [])) l;
     r \<leftarrow> scan_queues h tick (run_queue l);
     q \<leftarrow> r;
     u \<leftarrow> h q;
     Some (h(q \<mapsto> u\<lparr>suspend_from := 0\<rparr>), l\<lparr>this_thread := Some q\<rparr>) }"

definition move_between_run_queue ::
  "heap \<Rightarrow> tptr \<Rightarrow> int \<Rightarrow> processor_local \<Rightarrow> (error_code \<times> heap \<times> processor_local) option" where
  "move_between_run_queue h p n l =
     (if \<not> is_valid_nice n then Some (InvalidNice, h, l)
      else do {
        t \<leftarrow> h p;
        if nice t = n then Some (Success, h, l)
        else do {
          l \<leftarrow> erase_from_run_queue h p l;
          let h = h(p \<mapsto> t\<lparr>nice := n\<rparr>);
          l \<leftarrow> push_to_run_queue h p l;
          Some (Success, h, l) } })"

subsection \<open>Nice values and queues\<close>

lemma valid_nice_cases: "is_valid_nice n \<Longrightarrow> n = -2 \<or> n = -1 \<or> n = 0 \<or> n = 1 \<or> n = 2"
  by (auto simp: is_valid_nice_def max_nice_def)

lemma nice_to_index_valid: "is_valid_nice n \<Longrightarrow> nice_to_index n = nat (n + 2)"
  by (drule valid_nice_cases) (auto simp: nice_to_index_def max_nice_def)

lemma nice_to_index_less: "is_valid_nice n \<Longrightarrow> nice_to_index n < 5"
  by (frule valid_nice_cases) (auto simp: nice_to_index_valid)

lemma nice_to_index_mono:
  "is_valid_nice m \<Longrightarrow> is_valid_nice n \<Longrightarrow> nice_to_index m < nice_to_index n \<longleftrightarrow> m < n"
  using nice_to_index_valid [of m] nice_to_index_valid [of n]
  by (auto simp: is_valid_nice_def max_nice_def)

text \<open>The scan picks the first thread, in the order of the queues, that is not to be skipped.\<close>

lemma scan_queue_spec:
  assumes "\<forall>p\<in>set ps. h p \<noteq> None"
  shows "scan_queue h tick ps = Some (List.find (\<lambda>p. \<not> should_skip (the (h p)) tick) ps)"
  using assms by (induction ps) (auto split: option.splits)

lemma scan_queues_spec:
  assumes "\<forall>q\<in>set qs. \<forall>p\<in>set q. h p \<noteq> None"
  shows "scan_queues h tick qs = Some (List.find (\<lambda>p. \<not> should_skip (the (h p)) tick) (concat qs))"
proof -
  have fa: "List.find P (xs @ ys) = (case List.find P xs of None \<Rightarrow> List.find P ys | Some x \<Rightarrow> Some x)"
    for P and xs ys :: "tptr list"
    by (induction xs) auto
  show ?thesis using assms
    by (induction qs) (auto simp: scan_queue_spec fa split: option.splits)
qed

lemma queue_update_length:
  "queue_update n f l = Some l' \<Longrightarrow> length (run_queue l') = length (run_queue l)"
  by (auto simp: queue_update_def Let_def split: if_splits)

lemma queue_update_Some:
  "nice_to_index n < length (run_queue l) \<Longrightarrow>
   queue_update n f l = Some (l\<lparr>run_queue := (run_queue l)[nice_to_index n :=
       f (run_queue l ! nice_to_index n)]\<rparr>)"
  by (simp add: queue_update_def Let_def)

text \<open>What \<open>update_this_thread\<close> needs of a processor: five queues of live threads and a current thread
  of valid nice value.\<close>

definition local_ok :: "heap \<Rightarrow> processor_local \<Rightarrow> bool" where
  "local_ok h l \<longleftrightarrow> length (run_queue l) = 5
     \<and> list_all (list_all (\<lambda>p. h p \<noteq> None)) (run_queue l)
     \<and> (case this_thread l of None \<Rightarrow> False
        | Some p \<Rightarrow> (case h p of None \<Rightarrow> False | Some t \<Rightarrow> is_valid_nice (nice t)))"

text \<open>The queues after the current thread was moved to the end of its queue, or removed from it when
  it no longer runs.\<close>

definition requeued :: "heap \<Rightarrow> processor_local \<Rightarrow> tptr list list" where
  "requeued h l =
     (let p = the (this_thread l); t = the (h p); j = nice_to_index (nice t)
      in (run_queue l)[j := erase_all (run_queue l ! j) p @ (if running_on t \<noteq> None then [p] else [])])"

lemma update_this_thread_eq:
  assumes "local_ok h l"
  shows "update_this_thread tick h l =
    (case List.find (\<lambda>p. \<not> should_skip (the (h p)) tick) (concat (requeued h l)) of
       None \<Rightarrow> None
     | Some q \<Rightarrow> Some (h(q \<mapsto> (the (h q))\<lparr>suspend_from := 0\<rparr>),
                      l\<lparr>run_queue := requeued h l, this_thread := Some q\<rparr>))"
proof -
  from assms obtain p t where p: "this_thread l = Some p" "h p = Some t" "is_valid_nice (nice t)"
    and len: "length (run_queue l) = 5"
    and live: "\<forall>q\<in>set (run_queue l). \<forall>x\<in>set q. h x \<noteq> None"
    unfolding local_ok_def list_all_iff by (auto split: option.splits)
  let ?j = "nice_to_index (nice t)"
  have j: "?j < length (run_queue l)" using nice_to_index_less [OF p(3)] len by simp
  have live': "\<forall>q\<in>set (requeued h l). \<forall>x\<in>set q. h x \<noteq> None"
  proof (intro ballI)
    fix q x assume q: "q \<in> set (requeued h l)" and x: "x \<in> set q"
    from q have "q \<in> set (run_queue l) \<or> q = erase_all (run_queue l ! ?j) p @ (if running_on t \<noteq> None then [p] else [])"
      using set_update_subset_insert by (fastforce simp: requeued_def p Let_def)
    then show "h x \<noteq> None"
    proof
      assume "q \<in> set (run_queue l)" with x live show ?thesis by blast
    next
      assume "q = erase_all (run_queue l ! ?j) p @ (if running_on t \<noteq> None then [p] else [])"
      with x have "x \<in> set (run_queue l ! ?j) \<or> x = p" by (auto split: if_splits)
      with live nth_mem [OF j] p(2) show ?thesis by blast
    qed
  qed
  have found: "h q \<noteq> None"
    if "List.find (\<lambda>p. \<not> should_skip (the (h p)) tick) (concat (requeued h l)) = Some q" for q
  proof -
    from that have "q \<in> set (concat (requeued h l))"
      by (auto simp only: find_Some_iff intro: nth_mem)
    then obtain qs where "qs \<in> set (requeued h l)" "q \<in> set qs" by auto
    with live' show ?thesis by blast
  qed
  have qu: "queue_update (nice t) (\<lambda>q. erase_all q p @ (if running_on t \<noteq> None then [p] else [])) l
      = Some (l\<lparr>run_queue := requeued h l\<rparr>)"
    using queue_update_Some [OF j] p by (simp add: requeued_def Let_def)
  have upd: "update_this_thread tick h l = scan_queues h tick (requeued h l) \<bind> (\<lambda>r. r \<bind> (\<lambda>q. h q \<bind>
      (\<lambda>u. Some (h(q \<mapsto> u\<lparr>suspend_from := 0\<rparr>), l\<lparr>run_queue := requeued h l, this_thread := Some q\<rparr>))))"
    by (simp only: update_this_thread_def p(1,2) Option.bind.simps qu) simp
  show ?thesis
  proof (cases "List.find (\<lambda>p. \<not> should_skip (the (h p)) tick) (concat (requeued h l))")
    case None
    then show ?thesis by (simp add: upd scan_queues_spec [OF live'])
  next
    case (Some q)
    with found obtain u where "h q = Some u" by blast
    with Some show ?thesis by (simp add: upd scan_queues_spec [OF live'])
  qed
qed

text \<open>C16. The scheduler's choice: on a processor whose queues hold live threads, the switch panics
  exactly when every queued thread is to be skipped; otherwise it selects the thread that comes first
  by nice value and then by queue position among those not to be skipped, with the outgoing thread
  already moved to the back of its queue, and clears the suspension of the chosen thread only.\<close>

theorem update_this_thread_selects:
  assumes "local_ok h l"
  shows "(update_this_thread tick h l = None \<longleftrightarrow>
            (\<forall>q\<in>set (requeued h l). \<forall>p\<in>set q. should_skip (the (h p)) tick))
       \<and> (\<forall>h' l'. update_this_thread tick h l = Some (h', l') \<longrightarrow>
            (\<exists>q before after. this_thread l' = Some q
               \<and> run_queue l' = requeued h l \<and> concat (requeued h l) = before @ q # after
               \<and> (\<forall>p\<in>set before. should_skip (the (h p)) tick)
               \<and> \<not> should_skip (the (h q)) tick
               \<and> h' = h(q \<mapsto> (the (h q))\<lparr>suspend_from := 0\<rparr>)))"
proof (rule conjI)
  show "update_this_thread tick h l = None \<longleftrightarrow>
            (\<forall>q\<in>set (requeued h l). \<forall>p\<in>set q. should_skip (the (h p)) tick)"
  proof -
    have "update_this_thread tick h l = None \<longleftrightarrow>
        List.find (\<lambda>p. \<not> should_skip (the (h p)) tick) (concat (requeued h l)) = None"
      by (simp add: update_this_thread_eq [OF assms] split: option.split)
    then show ?thesis by (simp add: find_None_iff) blast
  qed
next
  show "\<forall>h' l'. update_this_thread tick h l = Some (h', l') \<longrightarrow>
            (\<exists>q before after. this_thread l' = Some q
               \<and> run_queue l' = requeued h l \<and> concat (requeued h l) = before @ q # after
               \<and> (\<forall>p\<in>set before. should_skip (the (h p)) tick)
               \<and> \<not> should_skip (the (h q)) tick
               \<and> h' = h(q \<mapsto> (the (h q))\<lparr>suspend_from := 0\<rparr>))"
  proof (intro allI impI)
    fix h' l' assume u: "update_this_thread tick h l = Some (h', l')"
    then obtain q where f: "List.find (\<lambda>p. \<not> should_skip (the (h p)) tick) (concat (requeued h l)) = Some q"
      and r: "h' = h(q \<mapsto> (the (h q))\<lparr>suspend_from := 0\<rparr>)"
        "l' = l\<lparr>run_queue := requeued h l, this_thread := Some q\<rparr>"
      by (auto simp: update_this_thread_eq [OF assms] split: option.splits)
    from f obtain i where i: "i < length (concat (requeued h l))" "q = concat (requeued h l) ! i"
      "\<not> should_skip (the (h q)) tick" "\<forall>j<i. should_skip (the (h (concat (requeued h l) ! j))) tick"
      by (auto simp: find_Some_iff)
    have "concat (requeued h l) = take i (concat (requeued h l)) @ q # drop (Suc i) (concat (requeued h l))"
      using i(1,2) by (simp add: id_take_nth_drop)
    moreover have "\<forall>p\<in>set (take i (concat (requeued h l))). should_skip (the (h p)) tick"
      using i(1,4) by (auto simp: in_set_conv_nth)
    ultimately show "\<exists>q before after. this_thread l' = Some q
               \<and> run_queue l' = requeued h l \<and> concat (requeued h l) = before @ q # after
               \<and> (\<forall>p\<in>set before. should_skip (the (h p)) tick)
               \<and> \<not> should_skip (the (h q)) tick
               \<and> h' = h(q \<mapsto> (the (h q))\<lparr>suspend_from := 0\<rparr>)"
      using i(3) r by (intro exI conjI) (assumption | simp)+
  qed
qed

definition sample_heap :: heap where
  "sample_heap = [1 \<mapsto> (new_thread 0 0 zero_context)\<lparr>running_on := Some 0\<rparr>,
                  2 \<mapsto> (new_thread 1 0 zero_context)\<lparr>running_on := Some 0\<rparr>,
                  3 \<mapsto> (new_thread 2 0 zero_context)\<lparr>running_on := Some 0\<rparr>]"

definition sample_local :: processor_local where
  "sample_local = \<lparr> this_thread = Some 1, run_queue = [[], [], [1, 2, 3], [], []], lapic_id = 0 \<rparr>"

lemma sample_local_ok: "local_ok sample_heap sample_local"
  by (simp add: local_ok_def sample_heap_def sample_local_def new_thread_def is_valid_nice_def max_nice_def)

lemma sample_requeued: "requeued sample_heap sample_local = [[], [], [2, 3, 1], [], []]"
  by (simp add: requeued_def sample_heap_def sample_local_def new_thread_def nice_to_index_def
      max_nice_def Let_def)

theorem update_this_thread_selects_witness:
  "update_this_thread 5 sample_heap sample_local \<noteq> None"
proof -
  have "\<not> should_skip (the (sample_heap 2)) 5"
    by (simp add: sample_heap_def new_thread_def should_skip_def)
  then have "\<not> (\<forall>q\<in>set (requeued sample_heap sample_local). \<forall>p\<in>set q. should_skip (the (sample_heap p)) 5)"
    by (simp add: sample_requeued)
  with conjunct1 [OF update_this_thread_selects [OF sample_local_ok, of 5]] show ?thesis by blast
qed

subsection \<open>Round robin\<close>

text \<open>A run of context switches on one processor, at the given ticks.\<close>

fun switches :: "u64 list \<Rightarrow> heap \<Rightarrow> processor_local \<Rightarrow> (heap \<times> processor_local) option" where
  "switches [] h l = Some (h, l)"
| "switches (tick # ticks) h l = do {
     (h, l) \<leftarrow> update_this_thread tick h l;
     switches ticks h l }"

text \<open>A processor on which queue \<open>j\<close> is the lowest that is not empty, its front is the current thread and
  nobody in it is suspended.\<close>

definition rr_state :: "heap \<Rightarrow> nat \<Rightarrow> tptr list \<Rightarrow> processor_local \<Rightarrow> bool" where
  "rr_state h j q l \<longleftrightarrow> local_ok h l \<and> j < 5 \<and> q \<noteq> [] \<and> distinct q
     \<and> run_queue l ! j = q \<and> (\<forall>i<j. run_queue l ! i = [])
     \<and> this_thread l = Some (hd q)
     \<and> (\<forall>p\<in>set q. \<exists>t. h p = Some t \<and> nice_to_index (nice t) = j \<and> is_valid_nice (nice t)
           \<and> running_on t \<noteq> None \<and> suspend_from t = 0)"

lemma concat_first_nonempty:
  "j < length qs \<Longrightarrow> \<forall>i<j. qs ! i = [] \<Longrightarrow> concat qs = qs ! j @ concat (drop (Suc j) qs)"
proof (induction qs arbitrary: j)
  case (Cons a qs)
  show ?case
  proof (cases j)
    case (Suc k)
    with Cons.prems have "a = []" "k < length qs" "\<forall>i<k. qs ! i = []" by fastforce+
    with Cons.IH Suc show ?thesis by simp
  qed simp
qed simp

lemma erase_all_hd: "distinct q \<Longrightarrow> q \<noteq> [] \<Longrightarrow> erase_all q (hd q) @ [hd q] = rotate1 q"
  by (cases q) auto

lemma rr_step:
  assumes "rr_state h j q l"
  shows "\<exists>l'. update_this_thread tick h l = Some (h, l') \<and> rr_state h j (rotate1 q) l'"
proof -
  from assms have ok: "local_ok h l" and j: "j < 5" and q: "q \<noteq> []" "distinct q"
    and qj: "run_queue l ! j = q" and low: "\<forall>i<j. run_queue l ! i = []"
    and cur: "this_thread l = Some (hd q)"
    and th: "\<And>p. p \<in> set q \<Longrightarrow> \<exists>t. h p = Some t \<and> nice_to_index (nice t) = j \<and> is_valid_nice (nice t)
           \<and> running_on t \<noteq> None \<and> suspend_from t = 0"
    unfolding rr_state_def by blast+
  from ok have len: "length (run_queue l) = 5" by (simp add: local_ok_def)
  have "hd q \<in> set q" using q by simp
  from th [OF this] obtain t where t: "h (hd q) = Some t" "nice_to_index (nice t) = j" "running_on t \<noteq> None"
    by blast
  have rq: "requeued h l = (run_queue l)[j := rotate1 q]"
    using t erase_all_hd [OF q(2,1)] by (simp add: requeued_def cur qj Let_def)
  let ?f = "\<lambda>p. \<not> should_skip (the (h p)) tick"
  define q' where "q' = rotate1 q"
  have q': "q' \<noteq> []" "set q' = set q" "distinct q'" using q by (simp_all add: q'_def)
  have cc: "concat (requeued h l) = q' @ concat (drop (Suc j) (requeued h l))"
    using concat_first_nonempty [of j "requeued h l"] low len j by (simp add: rq q'_def)
  have hq: "hd q' \<in> set q" using q' by (metis hd_in_set)
  from th [OF this] obtain u where u: "h (hd q') = Some u" "nice_to_index (nice u) = j"
    "is_valid_nice (nice u)" "suspend_from u = 0" by blast
  have uu: "u\<lparr>suspend_from := 0\<rparr> = u" using u(4) by simp
  have "List.find ?f (concat (requeued h l)) = Some (hd q')"
    unfolding cc using q'(1) u by (cases q') (auto simp: should_skip_def)
  with u uu have upd: "update_this_thread tick h l
      = Some (h, l\<lparr>run_queue := requeued h l, this_thread := Some (hd q')\<rparr>)" (is "_ = Some (h, ?l)")
    by (simp add: update_this_thread_eq [OF ok] map_upd_triv)
  have "local_ok h ?l"
  proof -
    have "list_all (list_all (\<lambda>p. h p \<noteq> None)) (run_queue l)" using ok by (simp add: local_ok_def)
    moreover have "list_all (\<lambda>p. h p \<noteq> None) q'"
      unfolding list_all_iff q' using th by blast
    ultimately have "list_all (list_all (\<lambda>p. h p \<noteq> None)) ((run_queue l)[j := q'])"
      unfolding list_all_iff using set_update_subset_insert [of "run_queue l" j q'] by blast
    then show ?thesis using u len by (simp add: local_ok_def rq flip: q'_def)
  qed
  moreover have "\<forall>i<j. run_queue ?l ! i = []" using low by (simp add: rq)
  moreover have "run_queue ?l ! j = q'" using len j by (simp add: rq q'_def)
  ultimately have "rr_state h j q' ?l"
    unfolding rr_state_def using j q' th by simp
  with upd show ?thesis unfolding q'_def by blast
qed

lemma rr_run:
  assumes "rr_state h j q l"
  shows "\<exists>l'. switches ticks h l = Some (h, l') \<and> rr_state h j (rotate (length ticks) q) l'"
  using assms
proof (induction ticks arbitrary: q l)
  case (Cons tick ticks)
  from rr_step [OF Cons.prems, of tick] obtain l1 where l1:
    "update_this_thread tick h l = Some (h, l1)" "rr_state h j (rotate1 q) l1" by blast
  from Cons.IH [OF l1(2)] show ?case using l1(1) by (simp add: rotate1_rotate_swap)
qed simp

text \<open>C17. Round robin: on a processor whose lowest non-empty queue \<open>q\<close> starts with the current thread
  and holds no suspended thread, the \<open>k\<close>-th context switch (at whatever ticks) selects the thread at
  position \<open>k\<close> modulo the length of \<open>q\<close>: no switch panics, and every thread of the queue gets the
  processor once in any \<open>length q\<close> consecutive switches.\<close>

theorem round_robin:
  assumes "rr_state h j q l"
  shows "\<exists>l'. switches ticks h l = Some (h, l')
     \<and> this_thread l' = Some (q ! (length ticks mod length q))
     \<and> run_queue l' ! j = rotate (length ticks) q"
proof -
  from rr_run [OF assms] obtain l' where l': "switches ticks h l = Some (h, l')"
    "rr_state h j (rotate (length ticks) q) l'" by blast
  have "q \<noteq> []" using assms by (simp add: rr_state_def)
  then have "hd (rotate (length ticks) q) = q ! (length ticks mod length q)"
    by (rule hd_rotate_conv_nth)
  with l' show ?thesis by (auto simp: rr_state_def)
qed

lemma sample_rr: "rr_state sample_heap 2 [1, 2, 3] sample_local"
proof -
  have "\<forall>i<2. run_queue sample_local ! i = []"
    by (auto simp: sample_local_def numeral_2_eq_2 less_Suc_eq)
  with sample_local_ok show ?thesis
    by (simp add: rr_state_def sample_heap_def sample_local_def new_thread_def nice_to_index_def
        max_nice_def is_valid_nice_def)
qed

theorem round_robin_witness:
  "\<exists>l'. switches [7, 8, 9, 10] sample_heap sample_local = Some (sample_heap, l')
     \<and> this_thread l' = Some 2 \<and> run_queue l' ! 2 = [2, 3, 1]"
  using round_robin [OF sample_rr, of "[7, 8, 9, 10]"] by (simp add: rotate_def)

end
