(* ===== verification/Dense_Map.thy ===== *)
theory Dense_Map
  imports Klee_Prelude
begin

text \<open>
  The slot map \<^verbatim>\<open>DenseMap\<close> of \<^verbatim>\<open>src/util/dense-map.hpp\<close>, which hands out process, thread and
  event identifiers: a vector of slots, a slot being empty when its \<^verbatim>\<open>unique_ptr\<close> or
  \<^verbatim>\<open>optional\<close> is. The locale \<open>slot_map\<close> states what the process manager relies on; the
  interpretation \<open>dm\<close> discharges it for the vector.
\<close>

type_synonym 'v dense_map = "'v option list"

text \<open>The loop of \<open>find_empty_slot\<close>: the first invalid slot from \<open>i\<close> on, or the length.\<close>

fun find_slot_from :: "nat \<Rightarrow> 'v dense_map \<Rightarrow> nat" where
  "find_slot_from i [] = i"
| "find_slot_from i (d # ds) = (if d = None then i else find_slot_from (Suc i) ds)"

definition find_empty_slot :: "'v dense_map \<Rightarrow> nat \<times> 'v dense_map" where
  "find_empty_slot data =
     (let limit = length data; i = find_slot_from 0 data
      in if i < limit then (i, data) else (limit, data @ [None]))"

definition dm_contains :: "'v dense_map \<Rightarrow> nat \<Rightarrow> bool" where
  "dm_contains data key \<longleftrightarrow> key < length data \<and> data ! key \<noteq> None"

definition dm_empty :: "'v dense_map \<Rightarrow> bool" where
  "dm_empty data \<longleftrightarrow> list_all (\<lambda>d. d = None) data"

text \<open>\<^verbatim>\<open>operator[]\<close> read and written through: an out-of-range key is undefined behaviour in the
  source; here it reads as an empty slot and a write to it has no effect.\<close>

definition dm_get :: "'v dense_map \<Rightarrow> nat \<Rightarrow> 'v option" where
  "dm_get data key = (if key < length data then data ! key else None)"

definition dm_store :: "'v dense_map \<Rightarrow> nat \<Rightarrow> 'v \<Rightarrow> 'v dense_map" where
  "dm_store data key v = data[key := Some v]"

definition dm_reset :: "'v dense_map \<Rightarrow> nat \<Rightarrow> 'v dense_map" where
  "dm_reset data key = data[key := None]"

lemma find_slot_from_spec:
  "i \<le> find_slot_from i ds \<and> find_slot_from i ds \<le> i + length ds
   \<and> (find_slot_from i ds < i + length ds \<longrightarrow> ds ! (find_slot_from i ds - i) = None)
   \<and> (\<forall>k < find_slot_from i ds - i. ds ! k \<noteq> None)"
proof (induction i ds rule: find_slot_from.induct)
  case (2 i d ds)
  show ?case
  proof (cases d)
    case (Some v)
    with 2 have ih: "Suc i \<le> find_slot_from (Suc i) ds"
      "find_slot_from (Suc i) ds \<le> Suc i + length ds"
      "find_slot_from (Suc i) ds < Suc i + length ds \<longrightarrow> ds ! (find_slot_from (Suc i) ds - Suc i) = None"
      "\<forall>k < find_slot_from (Suc i) ds - Suc i. ds ! k \<noteq> None"
      by auto
    from ih(1) have sh: "find_slot_from (Suc i) ds - i = Suc (find_slot_from (Suc i) ds - Suc i)"
      by simp
    have "(d # ds) ! k \<noteq> None" if "k < find_slot_from (Suc i) ds - i" for k
      using that ih(4) Some sh by (cases k) auto
    with Some ih sh show ?thesis by auto
  qed simp
qed simp

text \<open>The contract the process manager uses.\<close>

locale slot_map =
  fixes find_slot :: "'m \<Rightarrow> nat \<times> 'm"
    and lookup :: "'m \<Rightarrow> nat \<Rightarrow> 'v option"
    and store :: "'m \<Rightarrow> nat \<Rightarrow> 'v \<Rightarrow> 'm"
    and reset :: "'m \<Rightarrow> nat \<Rightarrow> 'm"
  assumes slot_free: "find_slot m = (k, m') \<Longrightarrow> lookup m k = None"
    and slot_least: "find_slot m = (k, m') \<Longrightarrow> j < k \<Longrightarrow> lookup m j \<noteq> None"
    and slot_keeps: "find_slot m = (k, m') \<Longrightarrow> lookup m' = lookup m"
    and slot_store: "find_slot m = (k, m') \<Longrightarrow> lookup (store m' k v) = (lookup m)(k \<mapsto> v)"
    and lookup_reset: "lookup (reset m k) = (lookup m)(k := None)"
    and lookup_store: "lookup m k = Some w \<Longrightarrow> lookup (store m k v) = (lookup m)(k \<mapsto> v)"
begin

text \<open>Inserting at the slot found adds exactly one key, the least one not in use.\<close>

lemma insert_fresh:
  assumes "find_slot m = (k, m')"
  shows "dom (lookup (store m' k v)) = insert k (dom (lookup m))"
    and "k \<notin> dom (lookup m)" and "k = (LEAST j. j \<notin> dom (lookup m))"
proof -
  show "dom (lookup (store m' k v)) = insert k (dom (lookup m))"
    using slot_store [OF assms, of v] by simp
  show k: "k \<notin> dom (lookup m)"
    using slot_free [OF assms] by auto
  show "k = (LEAST j. j \<notin> dom (lookup m))"
  proof (rule sym, rule Least_equality)
    show "k \<notin> dom (lookup m)" by (rule k)
  next
    fix j assume j: "j \<notin> dom (lookup m)"
    show "k \<le> j"
    proof (rule ccontr)
      assume "\<not> k \<le> j"
      then have "lookup m j \<noteq> None" using slot_least [OF assms] by simp
      with j show False by auto
    qed
  qed
qed

lemma insert_reset:
  assumes "find_slot m = (k, m')"
  shows "lookup (reset (store m' k v) k) = lookup m"
  using slot_store [OF assms, of v] slot_free [OF assms] lookup_reset [of "store m' k v" k]
  by (auto simp: fun_eq_iff)

end

interpretation dm: slot_map find_empty_slot dm_get dm_store dm_reset
proof unfold_locales
  fix m m' :: "'v dense_map" and k j v w
  note spec = find_slot_from_spec [of 0 m]
  show "dm_get m k = None" if "find_empty_slot m = (k, m')"
    using that spec by (auto simp: find_empty_slot_def dm_get_def Let_def split: if_splits)
  show "dm_get m j \<noteq> None" if "find_empty_slot m = (k, m')" "j < k"
    using that spec by (auto simp: find_empty_slot_def dm_get_def Let_def split: if_splits)
  show eq: "dm_get m' = dm_get m" if "find_empty_slot m = (k, m')"
    using that by (auto simp: find_empty_slot_def dm_get_def Let_def fun_eq_iff nth_append split: if_splits)
  show "dm_get (dm_store m' k v) = (dm_get m)(k \<mapsto> v)" if s: "find_empty_slot m = (k, m')"
  proof -
    have "k < length m'" using s by (auto simp: find_empty_slot_def Let_def split: if_splits)
    then have "dm_get (dm_store m' k v) = (dm_get m')(k \<mapsto> v)"
      by (auto simp: dm_get_def dm_store_def fun_eq_iff nth_list_update)
    then show ?thesis using eq [OF s] by simp
  qed
  show "dm_get (dm_reset m k) = (dm_get m)(k := None)"
    by (auto simp: dm_get_def dm_reset_def fun_eq_iff nth_list_update)
  show "dm_get (dm_store m k v) = (dm_get m)(k \<mapsto> v)" if "dm_get m k = Some w"
    using that by (auto simp: dm_get_def dm_store_def fun_eq_iff nth_list_update split: if_splits)
qed

lemma dm_contains_iff: "dm_contains m k \<longleftrightarrow> dm_get m k \<noteq> None"
  by (auto simp: dm_contains_def dm_get_def)

lemma dm_empty_iff: "dm_empty m \<longleftrightarrow> dom (dm_get m) = {}"
  by (auto simp: dm_empty_def dm_get_def list_all_length dom_def split: if_splits)

end
