(* ===== verification/Process_Manager.thy ===== *)
theory Process_Manager
  imports Run_Queue Dense_Map
begin

text \<open>
  \<^verbatim>\<open>class process::Manager\<close> of \<^verbatim>\<open>src/process/manager.hpp\<close> with \<^verbatim>\<open>struct Process\<close> of
  \<^verbatim>\<open>src/process/process.hpp\<close>. The record \<open>manager\<close> has the class's members, the heap of threads,
  the registers of the processors (which a context switch changes) and the kernel message queue.
  Every operation takes the number of the processor that executes it and runs to its end, as the code
  does under the manager's locks; \<open>None\<close> is a panic or an access the source leaves undefined. An
  operation that blocks ends with the context switch; what the caller does after it is woken is the
  next operation (for \<open>wait_thread\<close> and \<open>wait_process\<close>: the next pass of their loop). Identifiers are
  natural numbers: the 32-bit counters of the source do not wrap here.
\<close>

datatype message = XHCIInterrupt | AHCIInterrupt | VirtIOGPUNewDevice | VirtIOGPUControl
  | VirtIOGPUCursor | DeviceFinderDone

record process =
  p_id :: nat
  p_pml4 :: u64
  p_mutexes :: "nat list"
  p_threads :: "tptr dense_map"

record manager =
  m_tick :: u64
  processes :: "process dense_map"
  locals :: "processor_local list"
  events :: "tptr list dense_map"
  thread_joined_event :: nat
  process_joined_event :: nat
  kernel_pid :: nat
  event_processor :: "tptr option"
  m_heap :: heap
  next_ptr :: tptr
  cpus :: "nat \<Rightarrow> cpu_state"
  m_mem :: "u64 \<Rightarrow> u64"
  messages :: "message list"

abbreviation put_thread :: "tptr \<Rightarrow> thread \<Rightarrow> manager \<Rightarrow> manager" where
  "put_thread p t m \<equiv> m\<lparr>m_heap := (m_heap m)(p \<mapsto> t)\<rparr>"

definition get_local :: "manager \<Rightarrow> nat \<Rightarrow> processor_local option" where
  "get_local m c = (if c < length (locals m) then Some (locals m ! c) else None)"

definition set_local :: "nat \<Rightarrow> processor_local \<Rightarrow> manager \<Rightarrow> manager" where
  "set_local c l m = m\<lparr>locals := (locals m)[c := l]\<rparr>"

subsection \<open>Context switches\<close>

definition switch_thread :: "nat \<Rightarrow> manager \<Rightarrow> manager option" where
  "switch_thread c m = do {
     l \<leftarrow> get_local m c;
     current_thread \<leftarrow> this_thread l;
     (h, l) \<leftarrow> update_this_thread (m_tick m) (m_heap m) l;
     next_thread \<leftarrow> this_thread l;
     let m = (set_local c l m)\<lparr>m_heap := h\<rparr>;
     if current_thread = next_thread then Some m
     else do {
       n \<leftarrow> h next_thread;
       t \<leftarrow> h current_thread;
       Some ((put_thread current_thread (t\<lparr>t_context := save_context (m_mem m) (cpus m c) (t_context t)\<rparr>) m)
               \<lparr>cpus := (cpus m)(c := restore_context (t_context n))\<rparr>) } }"

text \<open>The target of the timer interrupt that is passed on to the next processor.\<close>

definition next_processor_lapic_id :: "nat \<Rightarrow> manager \<Rightarrow> u8 option" where
  "next_processor_lapic_id c m = map_option lapic_id (get_local m (c + 1))"

text \<open>The variant for the timer interrupt, which has the interrupted context in hand and may pass the
  interrupt on; the second component is the \<^verbatim>\<open>lapic_id\<close> the interrupt is sent to, if any.\<close>

definition switch_thread_context ::
  "nat \<Rightarrow> thread_context \<Rightarrow> bool \<Rightarrow> manager \<Rightarrow> (manager \<times> u8 option) option" where
  "switch_thread_context c current_context continue_to_next m = do {
     l \<leftarrow> get_local m c;
     current_thread \<leftarrow> this_thread l;
     (h, l) \<leftarrow> update_this_thread (m_tick m) (m_heap m) l;
     next_thread \<leftarrow> this_thread l;
     let m = (set_local c l m)\<lparr>m_heap := h\<rparr>;
     ipi \<leftarrow> (if continue_to_next then map_option Some (next_processor_lapic_id c m) else Some None);
     if current_thread = next_thread then Some (m, ipi)
     else do {
       t \<leftarrow> h current_thread;
       n \<leftarrow> h next_thread;
       Some ((put_thread current_thread (t\<lparr>t_context := current_context\<rparr>) m)
               \<lparr>cpus := (cpus m)(c := restore_context (t_context n))\<rparr>, ipi) } }"

subsection \<open>Threads\<close>

definition find_thread :: "nat \<Rightarrow> nat \<Rightarrow> manager \<Rightarrow> tptr result" where
  "find_thread pid tid m =
     (case dm_get (processes m) pid of
        None \<Rightarrow> Inl NoSuchProcess
      | Some process \<Rightarrow>
          (case dm_get (p_threads process) tid of
             None \<Rightarrow> Inl NoSuchThread
           | Some p \<Rightarrow> Inr p))"

definition find_alive_thread :: "nat \<Rightarrow> nat \<Rightarrow> manager \<Rightarrow> tptr result option" where
  "find_alive_thread pid tid m =
     (case find_thread pid tid m of
        Inl e \<Rightarrow> Some (Inl e)
      | Inr p \<Rightarrow> do { t \<leftarrow> m_heap m p; Some (if zombie t then Inl DeadThread else Inr p) })"

text \<open>\<open>create_thread(lock, pid)\<close>: \<open>ctx\<close> is the uninitialised context of the new thread.\<close>

definition create_thread_ptr :: "nat \<Rightarrow> thread_context \<Rightarrow> manager \<Rightarrow> tptr result \<times> manager" where
  "create_thread_ptr pid ctx m =
     (case dm_get (processes m) pid of
        None \<Rightarrow> (Inl NoSuchProcess, m)
      | Some process \<Rightarrow>
          (let (tid, threads) = find_empty_slot (p_threads process);
               p = next_ptr m;
               process = process\<lparr>p_threads := dm_store threads tid p\<rparr>
           in (Inr p, m\<lparr>processes := dm_store (processes m) pid process,
                        m_heap := (m_heap m)(p \<mapsto> new_thread tid pid ctx),
                        next_ptr := Suc p\<rparr>)))"

definition create_thread :: "nat \<Rightarrow> thread_context \<Rightarrow> manager \<Rightarrow> (nat result \<times> manager) option" where
  "create_thread pid ctx m =
     (case create_thread_ptr pid ctx m of
        (Inl e, m) \<Rightarrow> Some (Inl e, m)
      | (Inr p, m) \<Rightarrow> do { t \<leftarrow> m_heap m p; Some (Inr (t_id t), m) })"

text \<open>\<open>stack\<close> is the address of the stack allocated for the thread.\<close>

definition create_thread_with_context ::
  "nat \<Rightarrow> thread_context \<Rightarrow> u64 \<Rightarrow> u64 \<Rightarrow> u64 \<Rightarrow> manager \<Rightarrow> (nat result \<times> manager) option" where
  "create_thread_with_context pid ctx func data stack m =
     (case create_thread_ptr pid ctx m of
        (Inl e, m) \<Rightarrow> Some (Inl e, m)
      | (Inr p, m) \<Rightarrow> do {
          t \<leftarrow> m_heap m p;
          process \<leftarrow> dm_get (processes m) (t_process t);
          let t = t\<lparr>t_context := init_context (of_nat (t_id t)) func data (p_pml4 process) stack\<rparr>;
          Some (Inr (t_id t), put_thread p t m) })"

definition wakeup_thread_ptr :: "nat \<Rightarrow> tptr \<Rightarrow> int \<Rightarrow> manager \<Rightarrow> (error_code \<times> manager) option" where
  "wakeup_thread_ptr c p n m = do {
     l \<leftarrow> get_local m c;
     t \<leftarrow> m_heap m p;
     if running_on t \<noteq> None then
       (if n = invalid_nice then Some (Success, m)
        else do {
          (e, h, l) \<leftarrow> move_between_run_queue (m_heap m) p n l;
          Some (e, (set_local c l m)\<lparr>m_heap := h\<rparr>) })
     else if n \<noteq> invalid_nice \<and> \<not> is_valid_nice n then Some (InvalidNice, m)
     else do {
       let t = (if n \<noteq> invalid_nice then t\<lparr>nice := n\<rparr> else t);
       let t = t\<lparr>running_on := Some c\<rparr>;
       let m = put_thread p t m;
       l \<leftarrow> push_to_run_queue (m_heap m) p l;
       Some (Success, set_local c l m) } }"

text \<open>The public \<open>wakeup_thread\<close> does not pass its \<open>nice\<close> argument on.\<close>

definition wakeup_thread :: "nat \<Rightarrow> nat \<Rightarrow> nat \<Rightarrow> int \<Rightarrow> manager \<Rightarrow> (error_code \<times> manager) option" where
  "wakeup_thread c pid tid n m = do {
     r \<leftarrow> find_alive_thread pid tid m;
     case r of Inl e \<Rightarrow> Some (e, m) | Inr p \<Rightarrow> wakeup_thread_ptr c p invalid_nice m }"

definition sleep_thread_ptr :: "nat \<Rightarrow> tptr \<Rightarrow> manager \<Rightarrow> manager option" where
  "sleep_thread_ptr c p m = do {
     t \<leftarrow> m_heap m p;
     case running_on t of
       None \<Rightarrow> Some m
     | Some r \<Rightarrow> do {
         l \<leftarrow> get_local m c;
         let m = put_thread p (t\<lparr>running_on := None\<rparr>) m;
         if this_thread l = Some p then switch_thread c m
         else do {
           l \<leftarrow> get_local m r;
           l \<leftarrow> erase_from_run_queue (m_heap m) p l;
           Some (set_local r l m) } } }"

definition sleep_thread :: "nat \<Rightarrow> nat \<Rightarrow> nat \<Rightarrow> manager \<Rightarrow> (error_code \<times> manager) option" where
  "sleep_thread c pid tid m =
     (case find_thread pid tid m of
        Inl e \<Rightarrow> Some (e, m)
      | Inr p \<Rightarrow> map_option (Pair Success) (sleep_thread_ptr c p m))"

definition sleep_this_thread :: "nat \<Rightarrow> manager \<Rightarrow> manager option" where
  "sleep_this_thread c m = do { l \<leftarrow> get_local m c; p \<leftarrow> this_thread l; sleep_thread_ptr c p m }"

definition suspend_thread_for_tick :: "nat \<Rightarrow> tptr \<Rightarrow> u64 \<Rightarrow> manager \<Rightarrow> manager option" where
  "suspend_thread_for_tick c p wait_tick m =
     (if wait_tick = 0 then Some m
      else do {
        t \<leftarrow> m_heap m p;
        let t = t\<lparr>suspend_from := (if m_tick m = 0 then 1 else m_tick m),
                  suspend_for := (if m_tick m = 0 then wait_tick - 1 else wait_tick)\<rparr>;
        let m = put_thread p t m;
        l \<leftarrow> get_local m c;
        if this_thread l = Some p then switch_thread c m else Some m })"

definition context_switch_frequency :: u64 where
  "context_switch_frequency = 100"

definition ms_to_tick :: "u64 \<Rightarrow> u64" where
  "ms_to_tick ms = ms * context_switch_frequency div 1000"

definition suspend_thread_for_ms :: "nat \<Rightarrow> nat \<Rightarrow> nat \<Rightarrow> u64 \<Rightarrow> manager \<Rightarrow> (error_code \<times> manager) option" where
  "suspend_thread_for_ms c pid tid ms m = do {
     r \<leftarrow> find_alive_thread pid tid m;
     case r of Inl e \<Rightarrow> Some (e, m)
     | Inr p \<Rightarrow> map_option (Pair Success) (suspend_thread_for_tick c p (ms_to_tick ms) m) }"

definition suspend_this_thread_for_ms :: "nat \<Rightarrow> u64 \<Rightarrow> manager \<Rightarrow> manager option" where
  "suspend_this_thread_for_ms c ms m = do {
     l \<leftarrow> get_local m c; p \<leftarrow> this_thread l; suspend_thread_for_tick c p (ms_to_tick ms) m }"

subsection \<open>Events\<close>

definition push_thread_to_events :: "nat \<Rightarrow> tptr \<Rightarrow> manager \<Rightarrow> (error_code \<times> manager) option" where
  "push_thread_to_events e p m =
     (case dm_get (events m) e of
        None \<Rightarrow> Some (NoSuchEvent, m)
      | Some ws \<Rightarrow> do {
          t \<leftarrow> m_heap m p;
          Some (Success, (put_thread p (t\<lparr>t_events := t_events t @ [e]\<rparr>) m)
                           \<lparr>events := dm_store (events m) e (ws @ [p])\<rparr>) })"

definition create_event :: "manager \<Rightarrow> nat \<times> manager" where
  "create_event m = (let (e, evs) = find_empty_slot (events m)
                     in (e, m\<lparr>events := dm_store evs e []\<rparr>))"

definition delete_event :: "nat \<Rightarrow> manager \<Rightarrow> error_code \<times> manager" where
  "delete_event e m =
     (case dm_get (events m) e of
        None \<Rightarrow> (NoSuchEvent, m)
      | Some ws \<Rightarrow> if ws \<noteq> [] then (UnFinishedEvent, m)
                    else (Success, m\<lparr>events := dm_reset (events m) e\<rparr>))"

text \<open>\<open>wait_event(lock, id)\<close> and \<open>wait_events\<close>.\<close>

definition wait_event :: "nat \<Rightarrow> nat \<Rightarrow> manager \<Rightarrow> (error_code \<times> manager) option" where
  "wait_event c e m = do {
     l \<leftarrow> get_local m c;
     p \<leftarrow> this_thread l;
     (r, m) \<leftarrow> push_thread_to_events e p m;
     if r \<noteq> Success then Some (r, m)
     else map_option (Pair Success) (sleep_thread_ptr c p m) }"

fun push_all_events :: "nat list \<Rightarrow> tptr \<Rightarrow> manager \<Rightarrow> (error_code \<times> manager) option" where
  "push_all_events [] p m = Some (Success, m)"
| "push_all_events (e # es) p m = do {
     (r, m) \<leftarrow> push_thread_to_events e p m;
     if r \<noteq> Success then Some (r, m) else push_all_events es p m }"

definition wait_events :: "nat \<Rightarrow> nat list \<Rightarrow> manager \<Rightarrow> (error_code \<times> manager) option" where
  "wait_events c es m = do {
     l \<leftarrow> get_local m c;
     p \<leftarrow> this_thread l;
     (r, m) \<leftarrow> push_all_events es p m;
     if r \<noteq> Success then Some (r, m)
     else map_option (Pair Success) (sleep_thread_ptr c p m) }"

definition unwait_event :: "nat \<Rightarrow> nat \<Rightarrow> manager \<Rightarrow> (error_code \<times> manager) option" where
  "unwait_event c e m = do {
     l \<leftarrow> get_local m c;
     case dm_get (events m) e of
       None \<Rightarrow> Some (NoSuchEvent, m)
     | Some ws \<Rightarrow> do {
         p \<leftarrow> this_thread l;
         t \<leftarrow> m_heap m p;
         Some (Success, (put_thread p (t\<lparr>t_events := erase_all (t_events t) e\<rparr>) m)
                          \<lparr>events := dm_store (events m) e (erase_all ws p)\<rparr>) } }"

fun unwait_events :: "nat \<Rightarrow> nat list \<Rightarrow> manager \<Rightarrow> (error_code \<times> manager) option" where
  "unwait_events c [] m = Some (Success, m)"
| "unwait_events c (e # es) m = do {
     (r, m) \<leftarrow> unwait_event c e m;
     if r \<noteq> Success then Some (r, m) else unwait_events c es m }"

text \<open>The loop of \<open>notify_event\<close> over the waiters it has taken off the list.\<close>

fun wakeup_waiters :: "nat \<Rightarrow> nat \<Rightarrow> tptr list \<Rightarrow> manager \<Rightarrow> (error_code \<times> manager) option" where
  "wakeup_waiters c e [] m = Some (Success, m)"
| "wakeup_waiters c e (p # ps) m = do {
     t \<leftarrow> m_heap m p;
     let m = put_thread p (t\<lparr>t_events := erase_all (t_events t) e\<rparr>) m;
     (r, m) \<leftarrow> wakeup_thread_ptr c p invalid_nice m;
     if r \<noteq> Success then Some (r, m) else wakeup_waiters c e ps m }"

definition notify_event :: "nat \<Rightarrow> nat \<Rightarrow> manager \<Rightarrow> (error_code \<times> manager) option" where
  "notify_event c e m =
     (case dm_get (events m) e of
        None \<Rightarrow> Some (NoSuchEvent, m)
      | Some to_wakeup \<Rightarrow> wakeup_waiters c e to_wakeup (m\<lparr>events := dm_store (events m) e []\<rparr>))"

text \<open>\<open>cancel_events_of_thread\<close>: the assertion that the event exists is the \<open>None\<close> of \<open>dm_get\<close>.\<close>

fun cancel_events :: "nat list \<Rightarrow> tptr \<Rightarrow> manager \<Rightarrow> manager option" where
  "cancel_events [] p m = Some m"
| "cancel_events (e # es) p m = do {
     ws \<leftarrow> dm_get (events m) e;
     cancel_events es p (m\<lparr>events := dm_store (events m) e (erase_all ws p)\<rparr>) }"

definition exit_thread_ptr :: "nat \<Rightarrow> tptr \<Rightarrow> manager \<Rightarrow> manager option" where
  "exit_thread_ptr c p m = do {
     t \<leftarrow> m_heap m p;
     let m = put_thread p (t\<lparr>zombie := True\<rparr>) m;
     m \<leftarrow> cancel_events (t_events t) p m;
     (e, m) \<leftarrow> notify_event c (thread_joined_event m) m;
     sleep_thread_ptr c p m }"

definition exit_thread :: "nat \<Rightarrow> nat \<Rightarrow> nat \<Rightarrow> manager \<Rightarrow> (error_code \<times> manager) option" where
  "exit_thread c pid tid m = do {
     r \<leftarrow> find_alive_thread pid tid m;
     case r of Inl e \<Rightarrow> Some (e, m) | Inr p \<Rightarrow> map_option (Pair Success) (exit_thread_ptr c p m) }"

definition exit_this_thread :: "nat \<Rightarrow> manager \<Rightarrow> manager option" where
  "exit_this_thread c m = do { l \<leftarrow> get_local m c; p \<leftarrow> this_thread l; exit_thread_ptr c p m }"

subsection \<open>Joining\<close>

text \<open>One pass of the loops of \<open>wait_thread\<close> and \<open>wait_process\<close>: they return, or the caller sleeps on
  \<open>thread_joined_event\<close> and starts over when it runs again.\<close>

datatype wait_outcome = Returns error_code | Loops

definition wait_thread_pass :: "nat \<Rightarrow> nat \<Rightarrow> nat \<Rightarrow> manager \<Rightarrow> (wait_outcome \<times> manager) option" where
  "wait_thread_pass c pid tid m =
     (case find_thread pid tid m of
        Inl e \<Rightarrow> Some (Returns e, m)
      | Inr p \<Rightarrow> do {
          t \<leftarrow> m_heap m p;
          if \<not> zombie t then do {
            (e, m) \<leftarrow> wait_event c (thread_joined_event m) m;
            Some (if e \<noteq> Success then Returns e else Loops, m) }
          else do {
            process \<leftarrow> dm_get (processes m) (t_process t);
            Some (Returns Success,
              m\<lparr>processes := dm_store (processes m) (t_process t)
                  (process\<lparr>p_threads := dm_reset (p_threads process) (t_id t)\<rparr>),
                m_heap := (m_heap m)(p := None)\<rparr>) } })"

text \<open>The destructor of a process destroys the two mutexes of its \<open>ProcessDetail\<close>, which delete their
  events; failures are only logged.\<close>

definition wait_process_pass :: "nat \<Rightarrow> nat \<Rightarrow> manager \<Rightarrow> (wait_outcome \<times> manager) option" where
  "wait_process_pass c pid m =
     (case dm_get (processes m) pid of
        None \<Rightarrow> Some (Returns NoSuchProcess, m)
      | Some process \<Rightarrow>
          if \<not> dm_empty (p_threads process) then do {
            (e, m) \<leftarrow> wait_event c (thread_joined_event m) m;
            Some (if e \<noteq> Success then Returns e else Loops, m) }
          else Some (Returns Success,
                 fold (\<lambda>e m. snd (delete_event e m)) (p_mutexes process)
                   (m\<lparr>processes := dm_reset (processes m) pid\<rparr>)))"

subsection \<open>Processes, processors and interrupts\<close>

text \<open>\<open>create_process\<close>: the constructor of \<open>Process\<close> creates the two mutexes of its \<open>ProcessDetail\<close>,
  each with an event of its own. \<open>pml4\<close> is the address of the new top-level page table.\<close>

definition new_process :: "nat list \<Rightarrow> u64 \<Rightarrow> manager \<Rightarrow> nat \<times> manager" where
  "new_process mutexes pml4 m =
     (let (pid, ps) = find_empty_slot (processes m)
      in (pid, m\<lparr>processes := dm_store ps pid
            \<lparr> p_id = pid, p_pml4 = pml4, p_mutexes = mutexes, p_threads = [] \<rparr>\<rparr>))"

definition create_process :: "u64 \<Rightarrow> manager \<Rightarrow> nat \<times> manager" where
  "create_process pml4 m =
     (let (e1, m) = create_event m; (e2, m) = create_event m in new_process [e1, e2] pml4 m)"

definition get_this_thread :: "nat \<Rightarrow> manager \<Rightarrow> tptr option" where
  "get_this_thread c m = do { l \<leftarrow> get_local m c; this_thread l }"

text \<open>\<open>locals.resize(new_size)\<close>.\<close>

definition expand_locals :: "nat \<Rightarrow> manager \<Rightarrow> manager" where
  "expand_locals n m = m\<lparr>locals := take n (locals m) @ replicate (n - length (locals m)) new_local\<rparr>"

text \<open>\<open>capture_context\<close>: registers the running code as a thread of the kernel process and creates the
  idle thread. Its assertions are the \<open>None\<close> branches.\<close>

definition pin_thread :: "nat \<Rightarrow> nat \<Rightarrow> manager \<Rightarrow> (tptr \<times> manager) option" where
  "pin_thread pid tid m = do {
     r \<leftarrow> find_alive_thread pid tid m;
     case r of Inl e \<Rightarrow> None
     | Inr p \<Rightarrow> do { t \<leftarrow> m_heap m p; Some (p, put_thread p (t\<lparr>movable := False\<rparr>) m) } }"

definition capture_this_context :: "nat \<Rightarrow> thread_context \<Rightarrow> manager \<Rightarrow> manager option" where
  "capture_this_context c ctx m = do {
     (r, m) \<leftarrow> create_thread (kernel_pid m) ctx m;
     tid \<leftarrow> (case r of Inl e \<Rightarrow> None | Inr tid \<Rightarrow> Some tid);
     (e, m) \<leftarrow> wakeup_thread c (kernel_pid m) tid (- max_nice) m;
     if e \<noteq> Success then None else do {
     (p, m) \<leftarrow> pin_thread (kernel_pid m) tid m;
     l \<leftarrow> get_local m c;
     Some (set_local c (l\<lparr>this_thread := Some p\<rparr>) m) } }"

definition create_idle_thread :: "nat \<Rightarrow> thread_context \<Rightarrow> u64 \<Rightarrow> u64 \<Rightarrow> manager \<Rightarrow> manager option" where
  "create_idle_thread c ctx idle_main stack m = do {
     (r, m) \<leftarrow> create_thread_with_context (kernel_pid m) ctx idle_main 0 stack m;
     tid \<leftarrow> (case r of Inl e \<Rightarrow> None | Inr tid \<Rightarrow> Some tid);
     (e, m) \<leftarrow> wakeup_thread c (kernel_pid m) tid max_nice m;
     if e \<noteq> Success then None else do {
     (p, m) \<leftarrow> pin_thread (kernel_pid m) tid m;
     Some m } }"

definition capture_context ::
  "nat \<Rightarrow> u8 \<Rightarrow> thread_context \<Rightarrow> thread_context \<Rightarrow> u64 \<Rightarrow> u64 \<Rightarrow> manager \<Rightarrow> manager option" where
  "capture_context c lapic ctx1 ctx2 idle_main stack m = do {
     l \<leftarrow> get_local m c;
     m \<leftarrow> capture_this_context c ctx1 (set_local c (l\<lparr>lapic_id := lapic\<rparr>) m);
     create_idle_thread c ctx2 idle_main stack m }"

definition check_message_queue_and_wakeup_kernel :: "nat \<Rightarrow> manager \<Rightarrow> manager option" where
  "check_message_queue_and_wakeup_kernel c m =
     (if messages m = [] then Some m
      else do {
        p \<leftarrow> event_processor m;
        (e, m) \<leftarrow> wakeup_thread_ptr c p invalid_nice m;
        if e = Success then Some m else None })"

text \<open>\<open>got_lock\<close> is the outcome of \<open>try_aquire\<close>.\<close>

definition post_kernel_message :: "nat \<Rightarrow> message \<Rightarrow> bool \<Rightarrow> manager \<Rightarrow> manager option" where
  "post_kernel_message c msg got_lock m = do {
     let m = m\<lparr>messages := messages m @ [msg]\<rparr>;
     if \<not> got_lock then Some m
     else do {
       p \<leftarrow> event_processor m;
       (e, m) \<leftarrow> wakeup_thread_ptr c p invalid_nice m;
       if e = Success then Some m else None } }"

text \<open>\<open>Manager()\<close>. The mutexes of the kernel process are created through the global pointer, which is
  not set yet; \<open>ids\<close> stands for the event identifiers they get.\<close>

definition empty_manager :: "(nat \<Rightarrow> cpu_state) \<Rightarrow> (u64 \<Rightarrow> u64) \<Rightarrow> manager" where
  "empty_manager regs mem = \<lparr> m_tick = 0, processes = [], locals = [], events = [],
     thread_joined_event = 0, process_joined_event = 0, kernel_pid = 0, event_processor = None,
     m_heap = Map.empty, next_ptr = 0, cpus = regs, m_mem = mem, messages = [] \<rparr>"

definition manager_init ::
  "(nat \<Rightarrow> cpu_state) \<Rightarrow> (u64 \<Rightarrow> u64) \<Rightarrow> nat list \<Rightarrow> u64 \<Rightarrow> u8 \<Rightarrow> thread_context \<Rightarrow> thread_context
    \<Rightarrow> u64 \<Rightarrow> u64 \<Rightarrow> manager option" where
  "manager_init regs mem ids pml4 lapic ctx1 ctx2 idle_main stack = do {
     let m = empty_manager regs mem;
     let (e, m) = create_event m;
     let m = m\<lparr>thread_joined_event := e\<rparr>;
     let (e, m) = create_event m;
     let m = m\<lparr>process_joined_event := e\<rparr>;
     let m = expand_locals 1 m;
     let (pid, m) = new_process ids pml4 m;
     let m = m\<lparr>kernel_pid := pid\<rparr>;
     m \<leftarrow> capture_context 0 lapic ctx1 ctx2 idle_main stack m;
     l \<leftarrow> get_local m 0;
     Some (m\<lparr>event_processor := this_thread l\<rparr>) }"

end
