(* ===== verification/Process_Invariant.thy ===== *)
theory Process_Invariant
  imports Process_Manager
begin

text \<open>
  The consistency of the process manager's data structures and its preservation by every operation.
  The invariant has five parts: the run queues (\<open>queue_inv\<close>), the current threads (\<open>current_inv\<close>),
  the wait lists (\<open>event_inv\<close>), dead threads (\<open>zombie_inv\<close>) and the ownership of threads by processes
  (\<open>owner_inv\<close>). Each part depends on a few fields of the threads only, so each has a lemma for heap
  updates that leave those fields alone.
\<close>

definition queue_inv :: "heap \<Rightarrow> processor_local list \<Rightarrow> bool" where
  "queue_inv h ls \<longleftrightarrow>
     (\<forall>c<length ls. length (run_queue (ls ! c)) = 5)
   \<and> (\<forall>c<length ls. \<forall>j<5. distinct (run_queue (ls ! c) ! j))
   \<and> (\<forall>c<length ls. \<forall>j<5. \<forall>p. p \<in> set (run_queue (ls ! c) ! j) \<longleftrightarrow>
        (\<exists>t. h p = Some t \<and> running_on t = Some c \<and> nice_to_index (nice t) = j))
   \<and> (\<forall>p t. h p = Some t \<longrightarrow> is_valid_nice (nice t))
   \<and> (\<forall>p t c. h p = Some t \<longrightarrow> running_on t = Some c \<longrightarrow> c < length ls)"

definition current_inv :: "heap \<Rightarrow> processor_local list \<Rightarrow> bool" where
  "current_inv h ls \<longleftrightarrow> (\<forall>c<length ls. \<forall>p. this_thread (ls ! c) = Some p \<longrightarrow>
     (\<exists>t. h p = Some t \<and> running_on t = Some c))"

text \<open>\<open>p\<close> is on the wait list of \<open>e\<close>; the live thread \<open>p\<close> records that it waits for \<open>e\<close>.\<close>

definition waits :: "tptr list dense_map \<Rightarrow> nat \<Rightarrow> tptr \<Rightarrow> bool" where
  "waits evs e p \<longleftrightarrow> (\<exists>ws. dm_get evs e = Some ws \<and> p \<in> set ws)"

definition wants :: "heap \<Rightarrow> nat \<Rightarrow> tptr \<Rightarrow> bool" where
  "wants h e p \<longleftrightarrow> (\<exists>t. h p = Some t \<and> \<not> zombie t \<and> e \<in> set (t_events t))"

definition event_inv :: "heap \<Rightarrow> tptr list dense_map \<Rightarrow> bool" where
  "event_inv h evs \<longleftrightarrow> (\<forall>e p. waits evs e p = wants h e p)"

text \<open>Threads of \<open>X\<close> are excepted: a thread that is exiting is marked dead before it is descheduled.\<close>

definition zombie_inv :: "tptr set \<Rightarrow> heap \<Rightarrow> tptr option \<Rightarrow> bool" where
  "zombie_inv X h ep \<longleftrightarrow>
     (\<forall>p t. h p = Some t \<longrightarrow> zombie t \<longrightarrow> p \<notin> X \<longrightarrow> running_on t = None)
   \<and> (\<forall>p. ep = Some p \<longrightarrow> (\<exists>t. h p = Some t \<and> \<not> zombie t))"

text \<open>Slot \<open>tid\<close> of process \<open>pid\<close> holds \<open>p\<close>; the thread \<open>p\<close> has these identifiers.\<close>

definition owns :: "process dense_map \<Rightarrow> nat \<Rightarrow> nat \<Rightarrow> tptr \<Rightarrow> bool" where
  "owns ps pid tid p \<longleftrightarrow> (\<exists>pr. dm_get ps pid = Some pr \<and> dm_get (p_threads pr) tid = Some p)"

definition named :: "heap \<Rightarrow> nat \<Rightarrow> nat \<Rightarrow> tptr \<Rightarrow> bool" where
  "named h pid tid p \<longleftrightarrow> (\<exists>t. h p = Some t \<and> t_process t = pid \<and> t_id t = tid)"

definition owner_inv :: "heap \<Rightarrow> process dense_map \<Rightarrow> tptr \<Rightarrow> bool" where
  "owner_inv h ps np \<longleftrightarrow> (\<forall>pid tid p. owns ps pid tid p = named h pid tid p) \<and> (\<forall>p. h p \<noteq> None \<longrightarrow> p < np)"

definition manager_core :: "tptr set \<Rightarrow> manager \<Rightarrow> bool" where
  "manager_core X m \<longleftrightarrow> queue_inv (m_heap m) (locals m) \<and> current_inv (m_heap m) (locals m)
     \<and> zombie_inv X (m_heap m) (event_processor m) \<and> owner_inv (m_heap m) (processes m) (next_ptr m)"

definition manager_inv_except :: "tptr set \<Rightarrow> manager \<Rightarrow> bool" where
  "manager_inv_except X m \<longleftrightarrow> manager_core X m \<and> event_inv (m_heap m) (events m)"

abbreviation manager_inv :: "manager \<Rightarrow> bool" where
  "manager_inv \<equiv> manager_inv_except {}"

lemmas manager_inv_def = manager_inv_except_def manager_core_def

named_theorems frame_upd \<open>heap updates that a part of the invariant does not see\<close>

lemma queue_inv_upd [frame_upd]:
  "h p = Some t \<Longrightarrow> running_on t' = running_on t \<Longrightarrow> nice t' = nice t \<Longrightarrow>
   queue_inv h ls \<Longrightarrow> queue_inv (h(p \<mapsto> t')) ls"
  unfolding queue_inv_def by auto

lemma current_inv_upd [frame_upd]:
  "h p = Some t \<Longrightarrow> running_on t' = running_on t \<Longrightarrow> current_inv h ls \<Longrightarrow> current_inv (h(p \<mapsto> t')) ls"
  unfolding current_inv_def by auto

lemma wants_upd:
  "wants (h(p \<mapsto> t')) e x = (if x = p then \<not> zombie t' \<and> e \<in> set (t_events t') else wants h e x)"
  by (auto simp: wants_def)

lemma event_inv_upd [frame_upd]:
  assumes "h p = Some t" "zombie t' = zombie t" "set (t_events t') = set (t_events t)" "event_inv h evs"
  shows "event_inv (h(p \<mapsto> t')) evs"
  using assms by (auto simp: event_inv_def wants_upd) (simp_all add: wants_def)

lemma zombie_inv_upd [frame_upd]:
  "h p = Some t \<Longrightarrow> zombie t' = zombie t \<Longrightarrow> (running_on t' = running_on t \<or> \<not> zombie t \<or> running_on t' = None)
   \<Longrightarrow> zombie_inv X h ep \<Longrightarrow> zombie_inv X (h(p \<mapsto> t')) ep"
  unfolding zombie_inv_def by auto

lemma named_upd:
  "named (h(p \<mapsto> t')) pid tid x = (if x = p then t_process t' = pid \<and> t_id t' = tid else named h pid tid x)"
  by (auto simp: named_def)

lemma owner_inv_upd [frame_upd]:
  assumes "h p = Some t" "t_process t' = t_process t" "t_id t' = t_id t" "owner_inv h ps np"
  shows "owner_inv (h(p \<mapsto> t')) ps np"
  using assms by (auto simp: owner_inv_def named_upd) (simp_all add: named_def)

subsection \<open>Run queues\<close>

lemma queue_invD:
  assumes "queue_inv h ls" "c < length ls"
  shows "length (run_queue (ls ! c)) = 5"
    and "j < 5 \<Longrightarrow> distinct (run_queue (ls ! c) ! j)"
    and "j < 5 \<Longrightarrow> p \<in> set (run_queue (ls ! c) ! j) \<longleftrightarrow>
           (\<exists>t. h p = Some t \<and> running_on t = Some c \<and> nice_to_index (nice t) = j)"
  using assms unfolding queue_inv_def by auto

lemma queue_inv_nice: "queue_inv h ls \<Longrightarrow> h p = Some t \<Longrightarrow> is_valid_nice (nice t)"
  unfolding queue_inv_def by blast

lemma queue_inv_cpu: "queue_inv h ls \<Longrightarrow> h p = Some t \<Longrightarrow> running_on t = Some c \<Longrightarrow> c < length ls"
  unfolding queue_inv_def by blast

text \<open>One queue of one processor replaced, one thread changed: the general form of putting a thread into
  a queue, taking it out and moving it to the back.\<close>

lemma queue_inv_change:
  assumes inv: "queue_inv h ls" and p: "h p = Some t" and c: "c < length ls"
    and nice: "nice t' = nice t"
    and was: "running_on t = None \<or> running_on t = Some c"
    and now: "running_on t' = None \<or> running_on t' = Some c"
    and j: "j = nice_to_index (nice t)"
    and q: "distinct q"
      "set q = (if running_on t' = None then set (run_queue (ls ! c) ! j) - {p}
                else insert p (set (run_queue (ls ! c) ! j)))"
    and rq: "run_queue l = (run_queue (ls ! c))[j := q]"
  shows "queue_inv (h(p \<mapsto> t')) (ls[c := l])"
proof -
  have j5: "j < 5" using nice_to_index_less [OF queue_inv_nice [OF inv p]] j by simp
  note D = queue_invD [OF inv]
  show ?thesis unfolding queue_inv_def
  proof (intro conjI allI impI)
    fix c' assume c': "c' < length (ls[c := l])"
    show "length (run_queue (ls[c := l] ! c')) = 5"
      using D(1) c' c rq by (cases "c' = c") auto
  next
    fix c' k assume c': "c' < length (ls[c := l])" and k: "k < (5 :: nat)"
    show "distinct (run_queue (ls[c := l] ! c') ! k)"
      using D(1,2) c' c rq q(1) k by (cases "c' = c"; cases "k = j") auto
  next
    fix c' k x assume c': "c' < length (ls[c := l])" and k: "k < (5 :: nat)"
    have mem: "x \<in> set (run_queue (ls ! c') ! k) \<longleftrightarrow>
        (\<exists>t. h x = Some t \<and> running_on t = Some c' \<and> nice_to_index (nice t) = k)"
      using D(3) [of c' k x] c' k by simp
    show "x \<in> set (run_queue (ls[c := l] ! c') ! k) \<longleftrightarrow>
        (\<exists>u. (h(p \<mapsto> t')) x = Some u \<and> running_on u = Some c' \<and> nice_to_index (nice u) = k)"
    proof (cases "c' = c \<and> k = j")
      case True
      then have "run_queue (ls[c := l] ! c') ! k = q" using rq D(1) c j5 by simp
      then show ?thesis using True mem q(2) now nice j p by (cases "x = p") auto
    next
      case False
      then have "run_queue (ls[c := l] ! c') ! k = run_queue (ls ! c') ! k"
        using rq c by (cases "c' = c") auto
      then show ?thesis using False mem was now nice j p by (cases "x = p") auto
    qed
  next
    fix x u assume "(h(p \<mapsto> t')) x = Some u"
    then show "is_valid_nice (nice u)"
      using queue_inv_nice [OF inv] nice p by (auto split: if_splits)
  next
    fix x u d assume "(h(p \<mapsto> t')) x = Some u" "running_on u = Some d"
    then show "d < length (ls[c := l])"
      using queue_inv_cpu [OF inv] now c by (auto split: if_splits)
  qed
qed

lemma queue_inv_local_ok:
  assumes "queue_inv h ls" "c < length ls" "this_thread (ls ! c) = Some p" "h p = Some t"
  shows "local_ok h (ls ! c)"
proof -
  have "h x \<noteq> None" if "q \<in> set (run_queue (ls ! c))" "x \<in> set q" for q x
  proof -
    from that(1) obtain j where "j < 5" "q = run_queue (ls ! c) ! j"
      using queue_invD(1) [OF assms(1,2)] by (auto simp: in_set_conv_nth)
    then show ?thesis using queue_invD(3) [OF assms(1,2), of j x] that(2) by auto
  qed
  then show ?thesis
    using assms queue_invD [OF assms(1,2)] queue_inv_nice [OF assms(1)]
    by (auto simp: local_ok_def list_all_iff)
qed

subsection \<open>Context switches\<close>

text \<open>The state in which a switch starts: the current thread \<open>p\<close> of processor \<open>c\<close> is still queued there,
  whether it keeps running or has just been put to sleep.\<close>

definition switch_ready :: "nat \<Rightarrow> tptr \<Rightarrow> heap \<Rightarrow> processor_local list \<Rightarrow> bool" where
  "switch_ready c p h ls \<longleftrightarrow> c < length ls \<and> this_thread (ls ! c) = Some p
     \<and> (\<exists>t. h p = Some t \<and> (running_on t = None \<or> running_on t = Some c)
          \<and> queue_inv (h(p \<mapsto> t\<lparr>running_on := Some c\<rparr>)) ls)
     \<and> (\<forall>d<length ls. d \<noteq> c \<longrightarrow> (\<forall>x. this_thread (ls ! d) = Some x \<longrightarrow>
           (\<exists>u. h x = Some u \<and> running_on u = Some d)))"

lemma switch_ready_local_ok:
  assumes "switch_ready c p h ls"
  shows "local_ok h (ls ! c)"
proof -
  from assms obtain t where c: "c < length ls" "this_thread (ls ! c) = Some p" "h p = Some t"
    and q: "queue_inv (h(p \<mapsto> t\<lparr>running_on := Some c\<rparr>)) ls" unfolding switch_ready_def by blast
  have l: "local_ok (h(p \<mapsto> t\<lparr>running_on := Some c\<rparr>)) (ls ! c)"
    using queue_inv_local_ok [OF q c(1,2)] by simp
  have "list_all (\<lambda>x. h x \<noteq> None) q" if "list_all (\<lambda>x. (h(p \<mapsto> t\<lparr>running_on := Some c\<rparr>)) x \<noteq> None) q" for q
    using that c(3) unfolding list_all_iff by (auto split: if_splits)
  with l c show ?thesis unfolding local_ok_def by (auto simp: list_all_iff)
qed

lemma update_this_thread_inv:
  assumes ready: "switch_ready c p h ls" and upd: "update_this_thread tick h (ls ! c) = Some (h', l')"
  obtains q u where "this_thread l' = Some q" "h q = Some u" "running_on u = Some c"
    "h' = h(q \<mapsto> u\<lparr>suspend_from := 0\<rparr>)" "queue_inv h' (ls[c := l'])" "current_inv h' (ls[c := l'])"
proof -
  from ready obtain t where c: "c < length ls" "this_thread (ls ! c) = Some p" and t: "h p = Some t"
    "running_on t = None \<or> running_on t = Some c"
    and q0: "queue_inv (h(p \<mapsto> t\<lparr>running_on := Some c\<rparr>)) ls" (is "queue_inv ?h ls")
    and others: "\<And>d x. d < length ls \<Longrightarrow> d \<noteq> c \<Longrightarrow> this_thread (ls ! d) = Some x \<Longrightarrow>
           \<exists>u. h x = Some u \<and> running_on u = Some d"
    unfolding switch_ready_def by blast
  let ?j = "nice_to_index (nice t)" and ?rq = "requeued h (ls ! c)"
  have j5: "?j < 5" using nice_to_index_less [OF queue_inv_nice [OF q0, of p]] by simp
  have pin: "p \<in> set (run_queue (ls ! c) ! ?j)"
    using queue_invD(3) [OF q0 c(1) j5, of p] by simp
  have rq: "?rq = (run_queue (ls ! c))[?j := erase_all (run_queue (ls ! c) ! ?j) p @
      (if running_on t \<noteq> None then [p] else [])]"
    by (simp add: requeued_def c t Let_def)
  from upd obtain q where f: "List.find (\<lambda>p. \<not> should_skip (the (h p)) tick) (concat ?rq) = Some q"
    and h': "h' = h(q \<mapsto> (the (h q))\<lparr>suspend_from := 0\<rparr>)"
    and l': "l' = (ls ! c)\<lparr>run_queue := ?rq, this_thread := Some q\<rparr>"
    by (auto simp: update_this_thread_eq [OF switch_ready_local_ok [OF ready]] split: option.splits)
  have "queue_inv (?h(p \<mapsto> t)) (ls[c := l'])"
    by (rule queue_inv_change [OF q0, where t = "t\<lparr>running_on := Some c\<rparr>" and j = ?j and
          q = "erase_all (run_queue (ls ! c) ! ?j) p @ (if running_on t \<noteq> None then [p] else [])"])
      (use t(2) c queue_invD(2) [OF q0 c(1) j5] pin in \<open>auto simp: l' rq\<close>)
  then have qi: "queue_inv h (ls[c := l'])" using t(1) by (simp add: map_upd_triv)
  from f have "q \<in> set (concat ?rq)" by (auto simp only: find_Some_iff intro: nth_mem)
  then obtain qq where "qq \<in> set ?rq" "q \<in> set qq" by auto
  then obtain k where k: "k < length ?rq" "q \<in> set (?rq ! k)" by (metis in_set_conv_nth)
  have k5: "k < 5" using k(1) queue_invD(1) [OF q0 c(1)] by (simp add: rq)
  have lk: "run_queue (ls[c := l'] ! c) ! k = ?rq ! k" using c by (simp add: l')
  from queue_invD(3) [OF qi _ k5, of c q] k(2) obtain u where u: "h q = Some u" "running_on u = Some c"
    unfolding lk using c by auto
  have hu: "h' = h(q \<mapsto> u\<lparr>suspend_from := 0\<rparr>)" using h' u by simp
  have cur: "current_inv h (ls[c := l'])" unfolding current_inv_def
  proof (intro allI impI)
    fix d x assume "d < length (ls[c := l'])" "this_thread (ls[c := l'] ! d) = Some x"
    then show "\<exists>t. h x = Some t \<and> running_on t = Some d"
      using others u c by (cases "d = c") (auto simp: l')
  qed
  show thesis
    by (rule that [of q u]) (use hu u l' qi cur in \<open>auto intro!: queue_inv_upd current_inv_upd\<close>)
qed

lemma get_local_Some: "get_local m c = Some l \<longleftrightarrow> c < length (locals m) \<and> l = locals m ! c"
  by (auto simp: get_local_def)

lemmas op_defs = set_local_def get_local_Some Let_def

text \<open>Saving a context changes nothing that the invariant sees.\<close>

lemma frame_context:
  assumes "h p = Some t"
  shows "queue_inv h ls \<Longrightarrow> queue_inv (h(p \<mapsto> t\<lparr>t_context := x\<rparr>)) ls"
    and "current_inv h ls \<Longrightarrow> current_inv (h(p \<mapsto> t\<lparr>t_context := x\<rparr>)) ls"
    and "event_inv h evs \<Longrightarrow> event_inv (h(p \<mapsto> t\<lparr>t_context := x\<rparr>)) evs"
    and "zombie_inv X h ep \<Longrightarrow> zombie_inv X (h(p \<mapsto> t\<lparr>t_context := x\<rparr>)) ep"
    and "owner_inv h ps np \<Longrightarrow> owner_inv (h(p \<mapsto> t\<lparr>t_context := x\<rparr>)) ps np"
  using assms by (auto intro: frame_upd)

lemma switch_common:
  assumes ready: "switch_ready c p (m_heap m) (locals m)"
    and ev: "event_inv (m_heap m) (events m)" and zo: "zombie_inv {} (m_heap m) (event_processor m)"
    and ow: "owner_inv (m_heap m) (processes m) (next_ptr m)"
    and upd: "update_this_thread tick (m_heap m) (locals m ! c) = Some (h, l)"
  shows "manager_inv ((set_local c l m)\<lparr>m_heap := h\<rparr>)"
    and "h p = Some t \<Longrightarrow> manager_inv ((set_local c l m)\<lparr>m_heap := h(p \<mapsto> t\<lparr>t_context := x\<rparr>), cpus := y\<rparr>)"
proof -
  obtain q u where q: "m_heap m q = Some u" "h = (m_heap m)(q \<mapsto> u\<lparr>suspend_from := 0\<rparr>)"
    "queue_inv h ((locals m)[c := l])" "current_inv h ((locals m)[c := l])"
    using update_this_thread_inv [OF ready upd] by metis
  have *: "event_inv h (events m)" "zombie_inv {} h (event_processor m)" "owner_inv h (processes m) (next_ptr m)"
    using ev zo ow q(1,2) by (auto intro: frame_upd)
  with q show "manager_inv ((set_local c l m)\<lparr>m_heap := h\<rparr>)"
    by (simp add: manager_inv_def set_local_def)
  assume "h p = Some t"
  with q * show "manager_inv ((set_local c l m)\<lparr>m_heap := h(p \<mapsto> t\<lparr>t_context := x\<rparr>), cpus := y\<rparr>)"
    by (simp add: manager_inv_def set_local_def frame_context)
qed

lemma switch_thread_inv:
  assumes "switch_ready c p (m_heap m) (locals m)"
    and "event_inv (m_heap m) (events m)" and "zombie_inv {} (m_heap m) (event_processor m)"
    and "owner_inv (m_heap m) (processes m) (next_ptr m)"
    and sw: "switch_thread c m = Some m'"
  shows "manager_inv m'"
proof -
  have p: "this_thread (locals m ! c) = Some p" using assms(1) by (simp add: switch_ready_def)
  note sc = switch_common [OF assms(1-4), of "m_tick m"]
  from sw p show ?thesis unfolding switch_thread_def
    by (auto simp: get_local_Some Let_def split: Option.bind_split_asm prod.split_asm if_split_asm intro!: sc)
qed

lemma switch_thread_context_inv:
  assumes "switch_ready c p (m_heap m) (locals m)"
    and "event_inv (m_heap m) (events m)" and "zombie_inv {} (m_heap m) (event_processor m)"
    and "owner_inv (m_heap m) (processes m) (next_ptr m)"
    and sw: "switch_thread_context c ctx cont m = Some (m', ipi)"
  shows "manager_inv m'"
proof -
  have p: "this_thread (locals m ! c) = Some p" using assms(1) by (simp add: switch_ready_def)
  note sc = switch_common [OF assms(1-4), of "m_tick m"]
  from sw p show ?thesis unfolding switch_thread_context_def
    by (auto simp: get_local_Some Let_def split: Option.bind_split_asm prod.split_asm if_split_asm intro!: sc)
qed

lemma manager_inv_switch_ready:
  assumes "manager_inv m" "c < length (locals m)" "this_thread (locals m ! c) = Some p"
  shows "switch_ready c p (m_heap m) (locals m)"
proof -
  from assms have q: "queue_inv (m_heap m) (locals m)" and cu: "current_inv (m_heap m) (locals m)"
    by (simp_all add: manager_inv_def)
  from cu assms obtain t where t: "m_heap m p = Some t" "running_on t = Some c"
    unfolding current_inv_def by blast
  then have "(m_heap m)(p \<mapsto> t\<lparr>running_on := Some c\<rparr>) = m_heap m" by (auto simp: map_upd_triv)
  with t q cu assms show ?thesis unfolding switch_ready_def current_inv_def by auto
qed

subsection \<open>Waking and sleeping\<close>

lemma wakeup_thread_ptr_eq:
  assumes q: "queue_inv (m_heap m) (locals m)" and c: "c < length (locals m)" and t: "m_heap m p = Some t"
  defines "rq \<equiv> run_queue (locals m ! c)" and "j \<equiv> nice_to_index (nice t)"
  shows "wakeup_thread_ptr c p invalid_nice m = Some (Success,
     if running_on t \<noteq> None then m
     else set_local c ((locals m ! c)\<lparr>run_queue := rq[j := rq ! j @ [p]]\<rparr>)
            (put_thread p (t\<lparr>running_on := Some c\<rparr>) m))"
proof -
  have "j < length rq"
    using nice_to_index_less [OF queue_inv_nice [OF q t]] queue_invD(1) [OF q c] by (simp add: j_def rq_def)
  then show ?thesis using c t
    by (simp add: wakeup_thread_ptr_def get_local_def push_to_run_queue_def queue_update_Some j_def rq_def)
qed

lemma queue_inv_enqueue:
  assumes q: "queue_inv h ls" and c: "c < length ls" and t: "h p = Some t" "running_on t = None"
    and rq: "run_queue l = (run_queue (ls ! c))[nice_to_index (nice t) :=
        run_queue (ls ! c) ! nice_to_index (nice t) @ [p]]"
  shows "queue_inv (h(p \<mapsto> t\<lparr>running_on := Some c\<rparr>)) (ls[c := l])"
proof -
  have j5: "nice_to_index (nice t) < 5" using nice_to_index_less [OF queue_inv_nice [OF q t(1)]] .
  have "p \<notin> set (run_queue (ls ! c) ! nice_to_index (nice t))"
    using queue_invD(3) [OF q c j5, of p] t by simp
  then show ?thesis
    by (intro queue_inv_change [OF q t(1) c, where j = "nice_to_index (nice t)" and
          q = "run_queue (ls ! c) ! nice_to_index (nice t) @ [p]"])
      (use t queue_invD(2) [OF q c j5] rq in auto)
qed

lemma queue_inv_dequeue:
  assumes q: "queue_inv h ls" and t: "h p = Some t" "running_on t = Some r"
    and rq: "run_queue l = (run_queue (ls ! r))[nice_to_index (nice t) :=
        erase_all (run_queue (ls ! r) ! nice_to_index (nice t)) p]"
  shows "queue_inv (h(p \<mapsto> t\<lparr>running_on := None\<rparr>)) (ls[r := l])"
proof -
  have r: "r < length ls" using queue_inv_cpu [OF q t] .
  have j5: "nice_to_index (nice t) < 5" using nice_to_index_less [OF queue_inv_nice [OF q t(1)]] .
  show ?thesis
    by (intro queue_inv_change [OF q t(1) r, where j = "nice_to_index (nice t)" and
          q = "erase_all (run_queue (ls ! r) ! nice_to_index (nice t)) p"])
      (use t queue_invD(2) [OF q r j5] rq in auto)
qed

lemma current_inv_local:
  assumes "current_inv h ls" "this_thread l = this_thread (ls ! c)"
  shows "current_inv h (ls[c := l])"
  unfolding current_inv_def
proof (intro allI impI)
  fix d x assume "d < length (ls[c := l])" "this_thread (ls[c := l] ! d) = Some x"
  with assms show "\<exists>t. h x = Some t \<and> running_on t = Some d"
    unfolding current_inv_def by (cases "d = c") auto
qed

lemma current_inv_wake:
  assumes "current_inv h ls" "h p = Some t" "running_on t = None"
  shows "current_inv (h(p \<mapsto> t')) ls"
  using assms unfolding current_inv_def by auto

text \<open>Only the threads and the run queues differ, and the current threads are the same.\<close>

definition only_threads :: "manager \<Rightarrow> manager \<Rightarrow> bool" where
  "only_threads m m' \<longleftrightarrow> (\<exists>h ls. m' = m\<lparr>m_heap := h, locals := ls\<rparr> \<and> map this_thread ls = map this_thread (locals m))"

lemma only_threads_refl: "only_threads m m"
  unfolding only_threads_def by (intro exI [of _ "m_heap m"] exI [of _ "locals m"]) simp

lemma only_threadsD:
  assumes "only_threads m m'"
  shows "events m' = events m" "processes m' = processes m" "event_processor m' = event_processor m"
    "next_ptr m' = next_ptr m" "m_tick m' = m_tick m" "thread_joined_event m' = thread_joined_event m"
    "messages m' = messages m" "length (locals m') = length (locals m)"
    "c < length (locals m) \<Longrightarrow> this_thread (locals m' ! c) = this_thread (locals m ! c)"
proof -
  from assms obtain h ls where r: "m' = m\<lparr>m_heap := h, locals := ls\<rparr>"
    and l: "map this_thread ls = map this_thread (locals m)" by (auto simp: only_threads_def)
  show "events m' = events m" "processes m' = processes m" "event_processor m' = event_processor m"
    "next_ptr m' = next_ptr m" "m_tick m' = m_tick m" "thread_joined_event m' = thread_joined_event m"
    "messages m' = messages m"
    by (simp_all add: r)
  show n: "length (locals m') = length (locals m)" using l by (simp add: r) (metis length_map)
  show "this_thread (locals m' ! c) = this_thread (locals m ! c)" if "c < length (locals m)"
    using that n l by (simp add: r) (metis nth_map)
qed

lemma only_threads_trans: "only_threads m m1 \<Longrightarrow> only_threads m1 m2 \<Longrightarrow> only_threads m m2"
  unfolding only_threads_def by fastforce

text \<open>The part of the invariant without the wait lists, which are in disorder while \<open>notify_event\<close>
  wakes the waiters one by one.\<close>

lemma wakeup_thread_ptr_core:
  assumes inv: "manager_core X m" and t: "m_heap m p = Some t" "\<not> zombie t" and c: "c < length (locals m)"
  obtains m' where "wakeup_thread_ptr c p invalid_nice m = Some (Success, m')" "manager_core X m'"
    "only_threads m m'"
    "m_heap m' = (m_heap m)(p \<mapsto> t\<lparr>running_on := Some (case running_on t of None \<Rightarrow> c | Some r \<Rightarrow> r)\<rparr>)"
proof -
  from inv have q: "queue_inv (m_heap m) (locals m)" by (simp add: manager_core_def)
  note eq = wakeup_thread_ptr_eq [OF q c t(1)]
  show thesis
  proof (cases "running_on t")
    case None
    let ?j = "nice_to_index (nice t)" and ?rq = "run_queue (locals m ! c)"
    let ?l = "(locals m ! c)\<lparr>run_queue := ?rq[?j := ?rq ! ?j @ [p]]\<rparr>"
    let ?m = "set_local c ?l (put_thread p (t\<lparr>running_on := Some c\<rparr>) m)"
    have "queue_inv (m_heap ?m) (locals ?m)"
      using queue_inv_enqueue [OF q c t(1) None] by (auto simp: set_local_def)
    moreover have "current_inv (m_heap ?m) (locals ?m)"
      using None inv t(1) by (auto simp: set_local_def manager_core_def intro!: current_inv_wake current_inv_local)
    moreover have "zombie_inv X (m_heap ?m) (event_processor ?m)"
      "owner_inv (m_heap ?m) (processes ?m) (next_ptr ?m)"
      using None inv t(2) by (auto simp: set_local_def manager_core_def
          intro!: zombie_inv_upd [where h = "m_heap m", OF t(1)] owner_inv_upd [where h = "m_heap m", OF t(1)])
    ultimately have "manager_core X ?m" by (simp add: manager_core_def)
    moreover have "map this_thread (locals ?m) = map this_thread (locals m)"
      using c by (auto simp: set_local_def list_eq_iff_nth_eq nth_list_update)
    ultimately show thesis
      using eq None by (intro that [of ?m]) (auto simp: set_local_def only_threads_def)
  next
    case (Some r)
    then have "t\<lparr>running_on := Some r\<rparr> = t" by simp
    with eq Some inv t show thesis by (intro that [of m]) (simp_all add: map_upd_triv only_threads_refl)
  qed
qed

lemma wakeup_thread_ptr_inv:
  assumes inv: "manager_inv_except X m" and t: "m_heap m p = Some t" "\<not> zombie t"
    and w: "wakeup_thread_ptr c p invalid_nice m = Some (e, m')"
  shows "manager_inv_except X m'" and "e = Success" and "c < length (locals m)"
proof -
  show c: "c < length (locals m)"
    using w by (auto simp: wakeup_thread_ptr_def get_local_Some split: Option.bind_split_asm)
  from inv have core: "manager_core X m" and ev: "event_inv (m_heap m) (events m)"
    by (simp_all add: manager_inv_except_def)
  obtain m1 where m1: "wakeup_thread_ptr c p invalid_nice m = Some (Success, m1)" "manager_core X m1"
    "only_threads m m1"
    "m_heap m1 = (m_heap m)(p \<mapsto> t\<lparr>running_on := Some (case running_on t of None \<Rightarrow> c | Some r \<Rightarrow> r)\<rparr>)"
    using wakeup_thread_ptr_core [OF core t c] by metis
  note e1 = only_threadsD(1) [OF m1(3)]
  from m1(1) w show "e = Success" by simp
  have "event_inv (m_heap m1) (events m1)"
    unfolding e1 m1(4) by (rule event_inv_upd [where h = "m_heap m", OF t(1)]) (simp_all add: ev)
  with m1 w show "manager_inv_except X m'" by (simp add: manager_inv_except_def)
qed

text \<open>\<open>p\<close> is the current thread of a processor other than \<open>c\<close>.\<close>

definition runs_elsewhere :: "nat \<Rightarrow> tptr \<Rightarrow> manager \<Rightarrow> bool" where
  "runs_elsewhere c p m \<longleftrightarrow> (\<exists>d<length (locals m). d \<noteq> c \<and> this_thread (locals m ! d) = Some p)"

lemma sleep_thread_ptr_inv:
  assumes inv: "manager_inv_except {p} m" and elsewhere: "\<not> runs_elsewhere c p m"
    and s: "sleep_thread_ptr c p m = Some m'"
  shows "manager_inv m'"
proof -
  from s obtain t where t: "m_heap m p = Some t" by (auto simp: sleep_thread_ptr_def split: Option.bind_split_asm)
  from inv have q: "queue_inv (m_heap m) (locals m)" and cu: "current_inv (m_heap m) (locals m)"
    and z: "zombie_inv {p} (m_heap m) (event_processor m)"
    by (simp_all add: manager_inv_def)
  let ?h = "(m_heap m)(p \<mapsto> t\<lparr>running_on := None\<rparr>)"
  have rest: "event_inv ?h (events m)" "owner_inv ?h (processes m) (next_ptr m)"
    using inv t by (auto simp: manager_inv_def intro: frame_upd)
  have z': "zombie_inv {} ?h (event_processor m)"
    using z t by (auto simp: zombie_inv_def)
  show ?thesis
  proof (cases "running_on t")
    case None
    have "zombie_inv {} (m_heap m) (event_processor m)"
      unfolding zombie_inv_def
    proof (intro conjI allI impI)
      fix x u assume "m_heap m x = Some u" "zombie u"
      with z t None show "running_on u = None" by (cases "x = p") (auto simp: zombie_inv_def)
    qed (use z in \<open>simp add: zombie_inv_def\<close>)
    then show ?thesis using s inv t None by (auto simp: sleep_thread_ptr_def manager_inv_def)
  next
    case (Some r)
    show ?thesis
    proof (cases "c < length (locals m) \<and> this_thread (locals m ! c) = Some p")
      case True
      from cu True t Some have "r = c" by (auto simp: current_inv_def)
      then have "switch_ready c p ?h (locals m)"
        using True Some q cu t elsewhere
        unfolding switch_ready_def current_inv_def runs_elsewhere_def
        by (auto simp: map_upd_triv)
      moreover have "switch_thread c (put_thread p (t\<lparr>running_on := None\<rparr>) m) = Some m'"
        using s t Some True by (simp add: sleep_thread_ptr_def get_local_def)
      ultimately show ?thesis
        using switch_thread_inv [of c p "put_thread p (t\<lparr>running_on := None\<rparr>) m" m'] rest z' by simp
    next
      case False
      have r: "r < length (locals m)" using queue_inv_cpu [OF q t Some] .
      have c: "c < length (locals m)" "this_thread (locals m ! c) \<noteq> Some p"
        using s t Some False by (auto simp: sleep_thread_ptr_def get_local_def split: Option.bind_split_asm if_splits)
      have j: "nice_to_index (nice t) < length (run_queue (locals m ! r))"
        using nice_to_index_less [OF queue_inv_nice [OF q t]] queue_invD(1) [OF q r] by simp
      let ?l = "(locals m ! r)\<lparr>run_queue := (run_queue (locals m ! r))[nice_to_index (nice t) :=
        erase_all (run_queue (locals m ! r) ! nice_to_index (nice t)) p]\<rparr>"
      have m': "m' = set_local r ?l (put_thread p (t\<lparr>running_on := None\<rparr>) m)"
        using s t Some c r j by (simp add: sleep_thread_ptr_def get_local_def erase_from_run_queue_def queue_update_Some)
      have "queue_inv ?h ((locals m)[r := ?l])" using queue_inv_dequeue [OF q t Some] by simp
      moreover have "current_inv ?h ((locals m)[r := ?l])"
      proof (rule current_inv_local)
        show "current_inv ?h (locals m)" unfolding current_inv_def
        proof (intro allI impI)
          fix d x assume d: "d < length (locals m)" "this_thread (locals m ! d) = Some x"
          with c elsewhere have "x \<noteq> p" by (cases "d = c") (auto simp: runs_elsewhere_def)
          with cu d show "\<exists>t. ?h x = Some t \<and> running_on t = Some d" by (auto simp: current_inv_def)
        qed
      qed simp
      ultimately show ?thesis using rest z' m' by (simp add: manager_inv_def set_local_def)
    qed
  qed
qed

subsection \<open>Events\<close>

lemma waits_store:
  "dm_get evs e = Some ws \<Longrightarrow>
   waits (dm_store evs e vs) d x = (if d = e then x \<in> set vs else waits evs d x)"
  by (auto simp: waits_def dm.lookup_store)

lemma push_thread_to_events_inv:
  assumes inv: "manager_inv_except X m" and t: "m_heap m p = Some t" "\<not> zombie t"
    and s: "push_thread_to_events e p m = Some (r, m')"
  shows "manager_inv_except X m'"
proof (cases "dm_get (events m) e")
  case (Some ws)
  let ?t = "t\<lparr>t_events := t_events t @ [e]\<rparr>"
  from s Some t have m': "m' = (put_thread p ?t m)\<lparr>events := dm_store (events m) e (ws @ [p])\<rparr>"
    by (simp add: push_thread_to_events_def)
  have ev: "waits (events m) d x = wants (m_heap m) d x" for d x
    using inv by (simp add: manager_inv_def event_inv_def)
  have "event_inv ((m_heap m)(p \<mapsto> ?t)) (dm_store (events m) e (ws @ [p]))"
    unfolding event_inv_def
  proof (intro allI)
    fix d x
    have "waits (events m) e x = (x \<in> set ws)" using Some by (simp add: waits_def)
    then show "waits (dm_store (events m) e (ws @ [p])) d x = wants ((m_heap m)(p \<mapsto> ?t)) d x"
      using ev [of d x] t by (cases "x = p") (auto simp: waits_store [OF Some] wants_upd, auto simp: wants_def)
  qed
  then show ?thesis
    using inv t(2) unfolding m' by (auto simp: manager_inv_def
          intro!: queue_inv_upd [where h = "m_heap m", OF t(1)] current_inv_upd [where h = "m_heap m", OF t(1)]
            zombie_inv_upd [where h = "m_heap m", OF t(1)] owner_inv_upd [where h = "m_heap m", OF t(1)])
qed (use inv s in \<open>simp add: push_thread_to_events_def\<close>)

lemma push_thread_to_events_frame:
  assumes "push_thread_to_events e p m = Some (r, m')"
  shows "locals m' = locals m" and "m_heap m p = Some t \<Longrightarrow> \<exists>t'. m_heap m' p = Some t' \<and> zombie t' = zombie t"
  using assms by (auto simp: push_thread_to_events_def split: option.splits Option.bind_split_asm)

lemma push_all_events_inv:
  assumes "manager_inv_except X m" "m_heap m p = Some t" "\<not> zombie t" "push_all_events es p m = Some (r, m')"
  shows "manager_inv_except X m' \<and> locals m' = locals m"
  using assms
proof (induction es p m arbitrary: t rule: push_all_events.induct)
  case (2 e es p m)
  from 2(5) obtain r1 m1 where p1: "push_thread_to_events e p m = Some (r1, m1)"
    and rest: "if r1 \<noteq> Success then (r, m') = (r1, m1) else push_all_events es p m1 = Some (r, m')"
    by (auto split: Option.bind_split_asm if_splits)
  have inv1: "manager_inv_except X m1" using push_thread_to_events_inv [OF 2(2-4) p1] .
  obtain t1 where t1: "m_heap m1 p = Some t1" "\<not> zombie t1"
    using push_thread_to_events_frame(2) [OF p1 2(3)] 2(4) by auto
  show ?case
  proof (cases "r1 = Success")
    case True
    with 2(1) [OF p1 refl _ inv1 t1] rest push_thread_to_events_frame(1) [OF p1] show ?thesis by simp
  qed (use rest inv1 push_thread_to_events_frame(1) [OF p1] in auto)
qed simp

lemma unwait_event_inv:
  assumes inv: "manager_inv_except X m" and s: "unwait_event c e m = Some (r, m')"
  shows "manager_inv_except X m'"
proof (cases "dm_get (events m) e")
  case (Some ws)
  from s Some obtain p t where t: "m_heap m p = Some t" and
    m': "m' = (put_thread p (t\<lparr>t_events := erase_all (t_events t) e\<rparr>) m)
              \<lparr>events := dm_store (events m) e (erase_all ws p)\<rparr>"
    by (auto simp: unwait_event_def split: Option.bind_split_asm)
  let ?t = "t\<lparr>t_events := erase_all (t_events t) e\<rparr>"
  have ev: "waits (events m) d x = wants (m_heap m) d x" for d x
    using inv by (simp add: manager_inv_def event_inv_def)
  have "event_inv ((m_heap m)(p \<mapsto> ?t)) (dm_store (events m) e (erase_all ws p))"
    unfolding event_inv_def
  proof (intro allI)
    fix d x
    have "waits (events m) e x = (x \<in> set ws)" using Some by (simp add: waits_def)
    then show "waits (dm_store (events m) e (erase_all ws p)) d x = wants ((m_heap m)(p \<mapsto> ?t)) d x"
      using ev [of d x] t by (cases "x = p") (auto simp: waits_store [OF Some] wants_upd, auto simp: wants_def)
  qed
  then show ?thesis
    using inv unfolding m' by (auto simp: manager_inv_def
          intro!: queue_inv_upd [where h = "m_heap m", OF t(1)] current_inv_upd [where h = "m_heap m", OF t(1)]
            zombie_inv_upd [where h = "m_heap m", OF t(1)] owner_inv_upd [where h = "m_heap m", OF t(1)])
qed (use inv s in \<open>auto simp: unwait_event_def split: Option.bind_split_asm\<close>)

lemma unwait_events_inv:
  "manager_inv_except X m \<Longrightarrow> unwait_events c es m = Some (r, m') \<Longrightarrow> manager_inv_except X m'"
proof (induction c es m rule: unwait_events.induct)
  case (2 c e es m)
  from 2(3) obtain r1 m1 where u: "unwait_event c e m = Some (r1, m1)"
    and rest: "if r1 \<noteq> Success then (r, m') = (r1, m1) else unwait_events c es m1 = Some (r, m')"
    by (auto split: Option.bind_split_asm if_splits)
  from unwait_event_inv [OF 2(2) u] 2(1) [OF u refl] rest show ?case by (auto split: if_splits)
qed simp

lemma create_event_inv:
  assumes "manager_inv_except X m" "create_event m = (e, m')"
  shows "manager_inv_except X m'"
proof -
  obtain evs where f: "find_empty_slot (events m) = (e, evs)" and m': "m' = m\<lparr>events := dm_store evs e []\<rparr>"
    using assms(2) by (auto simp: create_event_def split: prod.splits)
  have "waits (dm_store evs e []) d x = waits (events m) d x" for d x
    using dm.slot_store [OF f] dm.slot_free [OF f] by (auto simp: waits_def)
  with assms(1) show ?thesis unfolding m' by (simp add: manager_inv_def event_inv_def)
qed

lemma delete_event_inv:
  assumes "manager_inv_except X m" "delete_event e m = (r, m')"
  shows "manager_inv_except X m'"
proof -
  have "waits (dm_reset (events m) e) d x = waits (events m) d x" if "dm_get (events m) e = Some []" for d x
    using that by (auto simp: waits_def dm.lookup_reset)
  with assms show ?thesis
    by (auto simp: delete_event_def manager_inv_def event_inv_def split: option.splits if_splits)
qed

text \<open>The state inside \<open>notify_event\<close>, with the waiters \<open>ps\<close> still to be woken.\<close>

definition notifying :: "tptr set \<Rightarrow> nat \<Rightarrow> tptr list \<Rightarrow> manager \<Rightarrow> bool" where
  "notifying X e ps m \<longleftrightarrow> manager_core X m \<and> dm_get (events m) e = Some []
     \<and> (\<forall>d x. d \<noteq> e \<longrightarrow> waits (events m) d x = wants (m_heap m) d x)
     \<and> (\<forall>x. wants (m_heap m) e x \<longrightarrow> x \<in> set ps)
     \<and> (\<forall>x\<in>set ps. \<exists>t. m_heap m x = Some t \<and> \<not> zombie t)"

lemma notifying_start:
  assumes inv: "manager_inv_except X m" and ws: "dm_get (events m) e = Some ws"
  shows "notifying X e ws (m\<lparr>events := dm_store (events m) e []\<rparr>)"
proof -
  have ev: "waits (events m) d x = wants (m_heap m) d x" for d x
    using inv by (simp add: manager_inv_def event_inv_def)
  have w: "waits (events m) e x = (x \<in> set ws)" for x using ws by (simp add: waits_def)
  have "\<exists>t. m_heap m x = Some t \<and> \<not> zombie t" if "x \<in> set ws" for x
    using ev [of e x] w [of x] that by (auto simp: wants_def)
  with inv ev w show ?thesis
    by (auto simp: notifying_def manager_inv_def waits_store [OF ws] dm.lookup_store [OF ws])
qed

text \<open>What being woken from the wait list of \<open>e\<close> by processor \<open>c\<close> does to a thread.\<close>

definition woken :: "nat \<Rightarrow> nat \<Rightarrow> thread \<Rightarrow> thread" where
  "woken c e t = t\<lparr>t_events := erase_all (t_events t) e,
     running_on := Some (case running_on t of None \<Rightarrow> c | Some r \<Rightarrow> r)\<rparr>"

lemma woken_woken: "woken c e (woken c e t) = woken c e t"
  by (simp add: woken_def)

lemma wakeup_waiters_spec:
  assumes "notifying X e ps m" "c < length (locals m)"
  shows "\<exists>m'. wakeup_waiters c e ps m = Some (Success, m') \<and> manager_inv_except X m' \<and> only_threads m m'
     \<and> (\<forall>x. m_heap m' x = (if x \<in> set ps then map_option (woken c e) (m_heap m x) else m_heap m x))"
  using assms
proof (induction ps arbitrary: m)
  case Nil
  have "waits (events m) d x = wants (m_heap m) d x" for d x
    using Nil(1) unfolding notifying_def by (cases "d = e") (auto simp: waits_def)
  with Nil show ?case
    by (simp add: notifying_def manager_inv_except_def event_inv_def only_threads_refl)
next
  case (Cons p ps)
  from Cons.prems(1) obtain t where t: "m_heap m p = Some t" "\<not> zombie t" by (auto simp: notifying_def)
  define t1 where "t1 = t\<lparr>t_events := erase_all (t_events t) e\<rparr>"
  define m0 where "m0 = put_thread p t1 m"
  have core: "manager_core X m0"
    using Cons.prems(1) t(2) by (auto simp: notifying_def manager_core_def m0_def t1_def
          intro!: queue_inv_upd [where h = "m_heap m", OF t(1)] current_inv_upd [where h = "m_heap m", OF t(1)]
            zombie_inv_upd [where h = "m_heap m", OF t(1)] owner_inv_upd [where h = "m_heap m", OF t(1)])
  have tm: "m_heap m0 p = Some t1" "\<not> zombie t1" "c < length (locals m0)"
    using t Cons.prems(2) by (simp_all add: m0_def t1_def)
  obtain m1 where m1: "wakeup_thread_ptr c p invalid_nice m0 = Some (Success, m1)" "manager_core X m1"
    "only_threads m0 m1"
    "m_heap m1 = (m_heap m0)(p \<mapsto> t1\<lparr>running_on := Some (case running_on t1 of None \<Rightarrow> c | Some r \<Rightarrow> r)\<rparr>)"
    using wakeup_thread_ptr_core [OF core tm] by metis
  have h1: "m_heap m1 = (m_heap m)(p \<mapsto> woken c e t)"
    unfolding m1(4) m0_def t1_def woken_def by simp
  have m01: "only_threads m m1"
    using m1(3) by (auto simp: only_threads_def m0_def)
  note e1 = only_threadsD(1) [OF m01]
  have n1: "notifying X e ps m1"
  proof -
    have a: "d \<noteq> e \<Longrightarrow> wants (m_heap m1) d x = wants (m_heap m) d x" for d x
      unfolding h1 wants_upd using t by (auto simp: wants_def woken_def)
    have b: "wants (m_heap m1) e x \<Longrightarrow> x \<noteq> p \<and> wants (m_heap m) e x" for x
      unfolding h1 wants_upd by (auto simp: woken_def split: if_splits)
    have "\<exists>t. m_heap m1 x = Some t \<and> \<not> zombie t" if "x \<in> set ps" for x
      using Cons.prems(1) that t unfolding h1 by (auto simp: notifying_def woken_def)
    moreover have "x \<in> set ps" if "wants (m_heap m1) e x" for x
      using b [OF that] Cons.prems(1) by (auto simp: notifying_def)
    ultimately show ?thesis
      using Cons.prems(1) m1(2) a unfolding notifying_def e1 by blast
  qed
  from Cons.IH [OF n1] Cons.prems(2) only_threadsD(8) [OF m01] obtain m2 where m2:
    "wakeup_waiters c e ps m1 = Some (Success, m2)" "manager_inv_except X m2" "only_threads m1 m2"
    "\<And>x. m_heap m2 x = (if x \<in> set ps then map_option (woken c e) (m_heap m1 x) else m_heap m1 x)" by auto
  have "wakeup_waiters c e (p # ps) m = Some (Success, m2)"
    using t m1(1) m2(1) by (simp add: m0_def t1_def)
  moreover have "m_heap m2 x = (if x \<in> set (p # ps) then map_option (woken c e) (m_heap m x) else m_heap m x)" for x
    using t unfolding m2(4) h1 by (simp add: woken_woken)
  ultimately show ?case using m2(2) only_threads_trans [OF m01 m2(3)] by auto
qed

lemma notify_event_spec:
  assumes inv: "manager_inv_except X m" and c: "c < length (locals m)" and ws: "dm_get (events m) e = Some ws"
  shows "\<exists>m'. notify_event c e m = Some (Success, m') \<and> manager_inv_except X m'
     \<and> only_threads (m\<lparr>events := dm_store (events m) e []\<rparr>) m'
     \<and> (\<forall>x. m_heap m' x = (if x \<in> set ws then map_option (woken c e) (m_heap m x) else m_heap m x))"
  using wakeup_waiters_spec [OF notifying_start [OF inv ws], of c] c ws
  by (simp add: notify_event_def cong del: if_weak_cong)

lemma notify_event_inv:
  assumes "manager_inv_except X m" "c < length (locals m)" "notify_event c e m = Some (r, m')"
  shows "manager_inv_except X m'"
proof (cases "dm_get (events m) e")
  case (Some ws)
  with notify_event_spec [OF assms(1,2) Some] assms(3) show ?thesis by auto
qed (use assms in \<open>simp add: notify_event_def\<close>)

end
