(* ===== verification/Process_Safety.thy ===== *)
theory Process_Safety
  imports Process_Invariant
begin

text \<open>
  The remaining operations of the process manager keep its invariant: waiting, exiting, suspending,
  joining, creating and destroying threads and processes, and the construction of the manager.
\<close>

lemmas frame_intros = queue_inv_upd current_inv_upd event_inv_upd zombie_inv_upd owner_inv_upd

lemma manager_inv_put_thread:
  assumes "manager_inv_except X m" "m_heap m p = Some t"
    and "running_on t' = running_on t" "nice t' = nice t" "zombie t' = zombie t"
    and "t_events t' = t_events t" "t_process t' = t_process t" "t_id t' = t_id t"
  shows "manager_inv_except X (put_thread p t' m)"
  using assms(1,3-)
  by (auto simp: manager_inv_def
      intro!: queue_inv_upd [where h = "m_heap m", OF assms(2)] current_inv_upd [where h = "m_heap m", OF assms(2)]
        zombie_inv_upd [where h = "m_heap m", OF assms(2)] owner_inv_upd [where h = "m_heap m", OF assms(2)]
        event_inv_upd [where h = "m_heap m", OF assms(2)])

lemma manager_inv_current:
  assumes "manager_inv m" "get_local m c = Some l" "this_thread l = Some p"
  obtains t where "c < length (locals m)" "m_heap m p = Some t" "running_on t = Some c" "\<not> zombie t"
    "\<not> runs_elsewhere c p m"
proof -
  from assms have c: "c < length (locals m)" "l = locals m ! c" by (simp_all add: get_local_Some)
  from assms c obtain t where t: "m_heap m p = Some t" "running_on t = Some c"
    by (auto simp: manager_inv_def current_inv_def)
  have "\<not> zombie t" using assms(1) t by (auto simp: manager_inv_def zombie_inv_def)
  moreover have "\<not> runs_elsewhere c p m"
    using assms(1) t unfolding runs_elsewhere_def manager_inv_def current_inv_def by fastforce
  ultimately show thesis using c t that by blast
qed

lemma runs_elsewhere_locals: "locals m' = locals m \<Longrightarrow> runs_elsewhere c p m' = runs_elsewhere c p m"
  by (simp add: runs_elsewhere_def)

lemma manager_inv_weaken: "manager_inv m \<Longrightarrow> manager_inv_except X m"
  by (auto simp: manager_inv_def zombie_inv_def)

lemma wait_event_inv:
  assumes inv: "manager_inv m" and w: "wait_event c e m = Some (r, m')"
  shows "manager_inv m'"
proof -
  from w obtain l p r1 m1 where l: "get_local m c = Some l" "this_thread l = Some p"
    and p1: "push_thread_to_events e p m = Some (r1, m1)"
    and rest: "if r1 \<noteq> Success then m' = m1 else sleep_thread_ptr c p m1 = Some m'"
    by (auto simp: wait_event_def split: Option.bind_split_asm if_splits)
  obtain t where t: "m_heap m p = Some t" "\<not> zombie t" "\<not> runs_elsewhere c p m"
    using manager_inv_current [OF inv l] by metis
  have inv1: "manager_inv m1" using push_thread_to_events_inv [OF inv t(1,2) p1] .
  have "\<not> runs_elsewhere c p m1"
    using t(3) runs_elsewhere_locals [OF push_thread_to_events_frame(1) [OF p1]] by simp
  with inv1 rest sleep_thread_ptr_inv [OF manager_inv_weaken [OF inv1]] show ?thesis
    by (auto split: if_splits)
qed

lemma wait_events_inv:
  assumes inv: "manager_inv m" and w: "wait_events c es m = Some (r, m')"
  shows "manager_inv m'"
proof -
  from w obtain l p r1 m1 where l: "get_local m c = Some l" "this_thread l = Some p"
    and p1: "push_all_events es p m = Some (r1, m1)"
    and rest: "if r1 \<noteq> Success then m' = m1 else sleep_thread_ptr c p m1 = Some m'"
    by (auto simp: wait_events_def split: Option.bind_split_asm if_splits)
  obtain t where t: "m_heap m p = Some t" "\<not> zombie t" "\<not> runs_elsewhere c p m"
    using manager_inv_current [OF inv l] by metis
  have inv1: "manager_inv m1" and loc: "locals m1 = locals m"
    using push_all_events_inv [OF inv t(1,2) p1] by simp_all
  have "\<not> runs_elsewhere c p m1" using t(3) runs_elsewhere_locals [OF loc] by simp
  with inv1 rest sleep_thread_ptr_inv [OF manager_inv_weaken [OF inv1]] show ?thesis
    by (auto split: if_splits)
qed

lemma suspend_inv:
  assumes inv: "manager_inv m" and s: "suspend_thread_for_tick c p w m = Some m'"
  shows "manager_inv m'"
proof (cases "w = 0")
  case False
  with s obtain t l where t: "m_heap m p = Some t" and l: "get_local m c = Some l"
    and rest: "if this_thread l = Some p
      then switch_thread c (put_thread p (t\<lparr>suspend_from := (if m_tick m = 0 then 1 else m_tick m),
                  suspend_for := (if m_tick m = 0 then w - 1 else w)\<rparr>) m) = Some m'
      else m' = put_thread p (t\<lparr>suspend_from := (if m_tick m = 0 then 1 else m_tick m),
                  suspend_for := (if m_tick m = 0 then w - 1 else w)\<rparr>) m"
    by (auto simp: suspend_thread_for_tick_def Let_def get_local_def split: Option.bind_split_asm if_splits)
  define m1 where "m1 = put_thread p (t\<lparr>suspend_from := (if m_tick m = 0 then 1 else m_tick m),
                  suspend_for := (if m_tick m = 0 then w - 1 else w)\<rparr>) m"
  have inv1: "manager_inv m1" unfolding m1_def by (rule manager_inv_put_thread [OF inv t]) simp_all
  have l1: "locals m1 = locals m" by (simp add: m1_def)
  show ?thesis
  proof (cases "this_thread l = Some p")
    case True
    with l have "switch_ready c p (m_heap m1) (locals m1)"
      by (intro manager_inv_switch_ready [OF inv1]) (auto simp: get_local_Some l1)
    then show ?thesis
      using switch_thread_inv [of c p m1 m'] inv1 rest True by (simp add: manager_inv_def flip: m1_def)
  next
    case False
    with rest inv1 show ?thesis by (simp add: m1_def)
  qed
qed (use inv s in \<open>simp add: suspend_thread_for_tick_def\<close>)

subsection \<open>Exiting\<close>

lemma cancel_events_spec:
  assumes "\<forall>e\<in>set es. dm_get (events m) e \<noteq> None"
  shows "\<exists>evs. cancel_events es p m = Some (m\<lparr>events := evs\<rparr>)
     \<and> (\<forall>e. dm_get evs e = map_option (\<lambda>ws. if e \<in> set es then erase_all ws p else ws) (dm_get (events m) e))"
  using assms
proof (induction es arbitrary: m)
  case Nil
  show ?case by (intro exI [of _ "events m"]) (simp add: option.map_ident)
next
  case (Cons e es)
  from Cons.prems obtain ws where ws: "dm_get (events m) e = Some ws" by auto
  let ?m = "m\<lparr>events := dm_store (events m) e (erase_all ws p)\<rparr>"
  have g: "dm_get (events ?m) d = (if d = e then Some (erase_all ws p) else dm_get (events m) d)" for d
    using dm.lookup_store [OF ws] by simp
  have "\<forall>d\<in>set es. dm_get (events ?m) d \<noteq> None" using Cons.prems ws unfolding g by auto
  from Cons.IH [OF this] obtain evs where evs: "cancel_events es p ?m = Some (?m\<lparr>events := evs\<rparr>)"
    "\<forall>d. dm_get evs d = map_option (\<lambda>ws. if d \<in> set es then erase_all ws p else ws) (dm_get (events ?m) d)"
    by blast
  have "dm_get evs d = map_option (\<lambda>ws. if d \<in> set (e # es) then erase_all ws p else ws) (dm_get (events m) d)" for d
    using evs(2) ws unfolding g by (cases "dm_get (events m) d") auto
  with evs(1) ws show ?case by (intro exI [of _ evs]) simp
qed

lemma exit_marks:
  assumes inv: "manager_inv m" and t: "m_heap m p = Some t" "\<not> zombie t" and ep: "event_processor m \<noteq> Some p"
  obtains m1 where "cancel_events (t_events t) p (put_thread p (t\<lparr>zombie := True\<rparr>) m) = Some m1"
    "manager_inv_except {p} m1" "locals m1 = locals m"
    "m_heap m1 = (m_heap m)(p \<mapsto> t\<lparr>zombie := True\<rparr>)" "\<And>e. \<not> waits (events m1) e p"
proof -
  let ?t = "t\<lparr>zombie := True\<rparr>" and ?m = "put_thread p (t\<lparr>zombie := True\<rparr>) m"
  have ev: "waits (events m) e x = wants (m_heap m) e x" for e x
    using inv by (simp add: manager_inv_def event_inv_def)
  have "\<forall>e\<in>set (t_events t). dm_get (events ?m) e \<noteq> None"
    using ev [of _ p] t by (auto simp: wants_def waits_def)
  from cancel_events_spec [OF this, of p] obtain evs where c: "cancel_events (t_events t) p ?m = Some (?m\<lparr>events := evs\<rparr>)"
    "\<forall>e. dm_get evs e = map_option (\<lambda>ws. if e \<in> set (t_events t) then erase_all ws p else ws) (dm_get (events m) e)"
    by auto
  have w: "waits evs e x = (waits (events m) e x \<and> \<not> (x = p \<and> e \<in> set (t_events t)))" for e x
    using c(2) [rule_format, of e]
    by (cases "dm_get (events m) e"; cases "e \<in> set (t_events t)") (auto simp: waits_def)
  have "event_inv ((m_heap m)(p \<mapsto> ?t)) evs"
    unfolding event_inv_def w ev wants_upd using t by (auto simp: wants_def)
  moreover have "zombie_inv {p} ((m_heap m)(p \<mapsto> ?t)) (event_processor m)"
    using inv t ep by (auto simp: manager_inv_def zombie_inv_def)
  moreover have "queue_inv ((m_heap m)(p \<mapsto> ?t)) (locals m)" "current_inv ((m_heap m)(p \<mapsto> ?t)) (locals m)"
    "owner_inv ((m_heap m)(p \<mapsto> ?t)) (processes m) (next_ptr m)"
    using inv by (auto simp: manager_inv_def intro!: queue_inv_upd [where h = "m_heap m", OF t(1)]
        current_inv_upd [where h = "m_heap m", OF t(1)] owner_inv_upd [where h = "m_heap m", OF t(1)])
  ultimately have "manager_inv_except {p} (?m\<lparr>events := evs\<rparr>)" by (simp add: manager_inv_def)
  moreover have "\<not> waits evs e p" for e
    using ev [of e p] t by (auto simp: w wants_def)
  ultimately show thesis using c(1) by (intro that [of "?m\<lparr>events := evs\<rparr>"]) auto
qed

lemma exit_thread_ptr_inv:
  assumes inv: "manager_inv m" and t: "m_heap m p = Some t" "\<not> zombie t" and ep: "event_processor m \<noteq> Some p"
    and c: "c < length (locals m)" and else': "\<not> runs_elsewhere c p m"
    and x: "exit_thread_ptr c p m = Some m'"
  shows "manager_inv m'"
proof -
  obtain m1 where m1: "cancel_events (t_events t) p (put_thread p (t\<lparr>zombie := True\<rparr>) m) = Some m1"
    "manager_inv_except {p} m1" "locals m1 = locals m"
    using exit_marks [OF inv t ep] by metis
  from x t m1(1) obtain e m2 where n: "notify_event c (thread_joined_event m1) m1 = Some (e, m2)"
    and s: "sleep_thread_ptr c p m2 = Some m'"
    by (auto simp: exit_thread_ptr_def split: Option.bind_split_asm)
  have c1: "c < length (locals m1)" using c m1(3) by simp
  have inv2: "manager_inv_except {p} m2" using notify_event_inv [OF m1(2) c1 n] .
  have "\<not> runs_elsewhere c p m2"
  proof (cases "dm_get (events m1) (thread_joined_event m1)")
    case (Some ws)
    from notify_event_spec [OF m1(2) c1 Some] n have o:
      "only_threads (m1\<lparr>events := dm_store (events m1) (thread_joined_event m1) []\<rparr>) m2" by auto
    then show ?thesis
      using only_threadsD(8,9) [OF o] else' m1(3) unfolding runs_elsewhere_def by auto
  next
    case None
    with n else' m1(3) show ?thesis by (simp add: notify_event_def runs_elsewhere_def)
  qed
  from sleep_thread_ptr_inv [OF inv2 this s] show ?thesis .
qed

subsection \<open>Joining\<close>

lemma owns_store:
  "dm_get ps pid = Some pr \<Longrightarrow>
   owns (dm_store ps pid pr') d tid x = (if d = pid then dm_get (p_threads pr') tid = Some x else owns ps d tid x)"
  by (auto simp: owns_def dm.lookup_store)

lemma find_thread_owns: "find_thread pid tid m = Inr p \<longleftrightarrow> owns (processes m) pid tid p"
  by (auto simp: find_thread_def owns_def split: option.splits)

lemma find_thread_thread:
  assumes "manager_inv_except X m" "find_thread pid tid m = Inr p"
  obtains t where "m_heap m p = Some t" "t_process t = pid" "t_id t = tid"
  using assms by (auto simp: find_thread_owns manager_inv_def owner_inv_def named_def)

text \<open>Freeing a dead thread: nothing refers to it any more.\<close>

lemma free_thread_inv:
  assumes inv: "manager_inv m" and t: "m_heap m p = Some t" "zombie t"
    and pr: "dm_get (processes m) (t_process t) = Some pr"
  shows "manager_inv (m\<lparr>processes := dm_store (processes m) (t_process t)
                  (pr\<lparr>p_threads := dm_reset (p_threads pr) (t_id t)\<rparr>),
                m_heap := (m_heap m)(p := None)\<rparr>)"
proof -
  let ?h = "(m_heap m)(p := None)"
  from inv t have ro: "running_on t = None" by (auto simp: manager_inv_def zombie_inv_def)
  have "queue_inv ?h (locals m)"
    using inv t ro unfolding manager_inv_def queue_inv_def by (auto simp del: not_None_eq)
  moreover have "current_inv ?h (locals m)"
    using inv t ro by (auto simp: manager_inv_def current_inv_def)
  moreover have "event_inv ?h (events m)"
  proof -
    have "wants ?h e x = wants (m_heap m) e x" for e x using t by (auto simp: wants_def)
    with inv show ?thesis by (simp add: manager_inv_def event_inv_def)
  qed
  moreover have "zombie_inv {} ?h (event_processor m)"
    using inv t unfolding manager_inv_def zombie_inv_def by auto
  moreover have "owner_inv ?h (dm_store (processes m) (t_process t)
      (pr\<lparr>p_threads := dm_reset (p_threads pr) (t_id t)\<rparr>)) (next_ptr m)"
  proof -
    have o: "owns (processes m) pid tid x = named (m_heap m) pid tid x" for pid tid x
      using inv by (simp add: manager_inv_def owner_inv_def)
    have self: "owns (processes m) (t_process t) (t_id t) p" using o t by (simp add: named_def)
    have "owns (dm_store (processes m) (t_process t) (pr\<lparr>p_threads := dm_reset (p_threads pr) (t_id t)\<rparr>)) pid tid x
        = named ?h pid tid x" for pid tid x
    proof -
      have "named ?h pid tid x = (x \<noteq> p \<and> owns (processes m) pid tid x)" unfolding o by (auto simp: named_def)
      moreover have "owns (processes m) pid tid p \<longleftrightarrow> pid = t_process t \<and> tid = t_id t"
        unfolding o using t by (auto simp: named_def)
      ultimately show ?thesis
        using pr self by (auto simp: owns_store [OF pr] dm.lookup_reset, auto simp: owns_def)
    qed
    with inv show ?thesis by (auto simp: manager_inv_def owner_inv_def)
  qed
  ultimately show ?thesis by (simp add: manager_inv_def)
qed

lemma wait_thread_pass_inv:
  assumes inv: "manager_inv m" and w: "wait_thread_pass c pid tid m = Some (r, m')"
  shows "manager_inv m'"
proof (cases "find_thread pid tid m")
  case (Inr p)
  obtain t where t: "m_heap m p = Some t" using find_thread_thread [OF inv Inr] by metis
  show ?thesis
  proof (cases "zombie t")
    case True
    with w Inr t obtain pr where "dm_get (processes m) (t_process t) = Some pr"
      and "m' = m\<lparr>processes := dm_store (processes m) (t_process t)
                  (pr\<lparr>p_threads := dm_reset (p_threads pr) (t_id t)\<rparr>),
                m_heap := (m_heap m)(p := None)\<rparr>"
      by (auto simp: wait_thread_pass_def split: Option.bind_split_asm)
    with free_thread_inv [OF inv t True] show ?thesis by simp
  next
    case False
    with w Inr t obtain e where "wait_event c (thread_joined_event m) m = Some (e, m')"
      by (auto simp: wait_thread_pass_def split: Option.bind_split_asm)
    with wait_event_inv [OF inv] show ?thesis .
  qed
qed (use w inv in \<open>simp add: wait_thread_pass_def\<close>)

lemma wait_process_pass_inv:
  assumes inv: "manager_inv m" and w: "wait_process_pass c pid m = Some (r, m')"
  shows "manager_inv m'"
proof (cases "dm_get (processes m) pid")
  case (Some pr)
  show ?thesis
  proof (cases "dm_empty (p_threads pr)")
    case False
    with w Some obtain e where "wait_event c (thread_joined_event m) m = Some (e, m')"
      by (auto simp: wait_process_pass_def split: Option.bind_split_asm)
    with wait_event_inv [OF inv] show ?thesis .
  next
    case True
    let ?m = "m\<lparr>processes := dm_reset (processes m) pid\<rparr>"
    have "dm_get (p_threads pr) tid = None" for tid using True by (auto simp: dm_empty_iff)
    with Some have "owns (dm_reset (processes m) pid) d tid x = owns (processes m) d tid x" for d tid x
      by (auto simp: owns_def dm.lookup_reset)
    with inv have "manager_inv ?m" by (simp add: manager_inv_def owner_inv_def)
    moreover have "manager_inv (fold (\<lambda>e m. snd (delete_event e m)) es m0)" if "manager_inv m0" for es m0
      using that
    proof (induction es arbitrary: m0)
      case (Cons e es)
      then show ?case using delete_event_inv [OF Cons.prems, of e] by (cases "delete_event e m0") auto
    qed simp
    moreover have "m' = fold (\<lambda>e m. snd (delete_event e m)) (p_mutexes pr) ?m"
      using w Some True by (simp add: wait_process_pass_def)
    ultimately show ?thesis by simp
  qed
qed (use w inv in \<open>simp add: wait_process_pass_def\<close>)

subsection \<open>Creation\<close>

lemma new_thread_fields [simp]:
  "running_on (new_thread tid pid ctx) = None" "nice (new_thread tid pid ctx) = 0"
  "zombie (new_thread tid pid ctx) = False" "t_events (new_thread tid pid ctx) = []"
  "t_process (new_thread tid pid ctx) = pid" "t_id (new_thread tid pid ctx) = tid"
  "movable (new_thread tid pid ctx)"
  by (simp_all add: new_thread_def)

lemma create_thread_ptr_inv:
  assumes inv: "manager_inv_except X m" and s: "create_thread_ptr pid ctx m = (Inr p, m')"
  obtains tid where "manager_inv_except X m'" "m_heap m p = None" "locals m' = locals m"
    "m_heap m' = (m_heap m)(p \<mapsto> new_thread tid pid ctx)" "find_thread pid tid m' = Inr p"
    "kernel_pid m' = kernel_pid m" "event_processor m' = event_processor m"
proof -
  from s obtain pr tid ths where pr: "dm_get (processes m) pid = Some pr"
    and f: "find_empty_slot (p_threads pr) = (tid, ths)" and p: "p = next_ptr m"
    and m': "m' = m\<lparr>processes := dm_store (processes m) pid (pr\<lparr>p_threads := dm_store ths tid p\<rparr>),
               m_heap := (m_heap m)(p \<mapsto> new_thread tid pid ctx), next_ptr := Suc p\<rparr>"
    by (auto simp: create_thread_ptr_def Let_def split: option.splits prod.splits)
  let ?h = "(m_heap m)(p \<mapsto> new_thread tid pid ctx)"
  have fresh: "m_heap m p = None" "\<And>x. m_heap m x \<noteq> None \<Longrightarrow> x < next_ptr m"
    using inv p by (auto simp: manager_inv_def owner_inv_def)
  have "is_valid_nice 0" by (simp add: is_valid_nice_def max_nice_def)
  then have "queue_inv ?h (locals m)"
    using inv fresh(1) unfolding manager_inv_def queue_inv_def by (auto simp del: not_None_eq)
  moreover have "current_inv ?h (locals m)"
    using inv fresh(1) unfolding manager_inv_def current_inv_def by fastforce
  moreover have "event_inv ?h (events m)"
    using inv fresh(1) by (auto simp: manager_inv_def event_inv_def wants_upd) (auto simp: wants_def)
  moreover have "zombie_inv X ?h (event_processor m)"
    using inv fresh(1) unfolding manager_inv_def zombie_inv_def by auto
  moreover have "owner_inv ?h (dm_store (processes m) pid (pr\<lparr>p_threads := dm_store ths tid p\<rparr>)) (Suc p)"
  proof -
    have o: "owns (processes m) d k x = named (m_heap m) d k x" for d k x
      using inv by (simp add: manager_inv_def owner_inv_def)
    have "\<not> owns (processes m) d k p" for d k unfolding o using fresh(1) by (simp add: named_def)
    then have "owns (dm_store (processes m) pid (pr\<lparr>p_threads := dm_store ths tid p\<rparr>)) d k x = named ?h d k x" for d k x
      using pr dm.slot_free [OF f]
      by (auto simp: owns_store [OF pr] named_upd dm.slot_store [OF f] o [symmetric]) (auto simp: owns_def)
    with fresh(2) p show ?thesis by (auto simp: owner_inv_def less_Suc_eq)
  qed
  ultimately have "manager_inv_except X m'" by (simp add: m' manager_inv_def)
  moreover have "find_thread pid tid m' = Inr p"
    by (simp add: m' find_thread_def dm.lookup_store [OF pr] dm.slot_store [OF f])
  ultimately show thesis using that fresh m' by simp
qed

lemma create_thread_inv:
  assumes inv: "manager_inv_except X m" and s: "create_thread pid ctx m = Some (r, m')"
  shows "manager_inv_except X m'"
proof (cases "create_thread_ptr pid ctx m")
  case (Pair q m1)
  show ?thesis
  proof (cases q)
    case (Inl e)
    with s Pair have "m' = m" by (auto simp: create_thread_def create_thread_ptr_def Let_def split: option.splits prod.splits)
    with inv show ?thesis by simp
  next
    case (Inr p)
    with s Pair have "m' = m1" by (auto simp: create_thread_def split: Option.bind_split_asm)
    with create_thread_ptr_inv [OF inv] Pair Inr show ?thesis by metis
  qed
qed

lemma create_thread_with_context_inv:
  assumes inv: "manager_inv_except X m" and s: "create_thread_with_context pid ctx func data stack m = Some (r, m')"
  shows "manager_inv_except X m'"
proof (cases "create_thread_ptr pid ctx m")
  case (Pair q m1)
  show ?thesis
  proof (cases q)
    case (Inl e)
    with s Pair have "m' = m"
      by (auto simp: create_thread_with_context_def create_thread_ptr_def Let_def split: option.splits prod.splits)
    with inv show ?thesis by simp
  next
    case (Inr p)
    with create_thread_ptr_inv [OF inv] Pair have inv1: "manager_inv_except X m1" by metis
    from s Pair Inr obtain t x where t: "m_heap m1 p = Some t" and m': "m' = put_thread p (t\<lparr>t_context := x\<rparr>) m1"
      by (auto simp: create_thread_with_context_def Let_def split: Option.bind_split_asm)
    show ?thesis unfolding m' by (rule manager_inv_put_thread [OF inv1 t]) simp_all
  qed
qed

lemma new_process_inv:
  assumes inv: "manager_inv_except X m" and s: "new_process ids pml4 m = (pid, m')"
  shows "manager_inv_except X m'"
proof -
  obtain ps where f: "find_empty_slot (processes m) = (pid, ps)" and
    m': "m' = m\<lparr>processes := dm_store ps pid \<lparr>p_id = pid, p_pml4 = pml4, p_mutexes = ids, p_threads = []\<rparr>\<rparr>"
    using s by (auto simp: new_process_def split: prod.splits)
  have "owns (processes m') d tid x = owns (processes m) d tid x" for d tid x
    using dm.slot_store [OF f] dm.slot_free [OF f] by (auto simp: m' owns_def dm_get_def)
  with inv show ?thesis by (simp add: manager_inv_def owner_inv_def) (simp add: m')
qed

lemma create_process_inv:
  assumes inv: "manager_inv_except X m" and s: "create_process pml4 m = (pid, m')"
  shows "manager_inv_except X m'"
proof -
  obtain e1 m1 e2 m2 where *: "create_event m = (e1, m1)" "create_event m1 = (e2, m2)"
    "new_process [e1, e2] pml4 m2 = (pid, m')"
    using s by (auto simp: create_process_def split: prod.splits)
  show ?thesis
    by (rule new_process_inv [OF create_event_inv [OF create_event_inv [OF inv *(1)] *(2)] *(3)])
qed

subsection \<open>Public wrappers\<close>

lemma find_alive_threadD:
  assumes "find_alive_thread pid tid m = Some (Inr p)"
  obtains t where "find_thread pid tid m = Inr p" "m_heap m p = Some t" "\<not> zombie t"
  using assms by (auto simp: find_alive_thread_def split: sum.splits Option.bind_split_asm if_splits)

lemma wakeup_thread_inv:
  assumes inv: "manager_inv_except X m" and w: "wakeup_thread c pid tid n m = Some (e, m')"
  shows "manager_inv_except X m'"
proof -
  from w obtain r where r: "find_alive_thread pid tid m = Some r"
    and rest: "case r of Inl e' \<Rightarrow> m' = m | Inr p \<Rightarrow> wakeup_thread_ptr c p invalid_nice m = Some (e, m')"
    by (auto simp: wakeup_thread_def split: Option.bind_split_asm sum.splits)
  show ?thesis
  proof (cases r)
    case (Inr p)
    with r obtain t where "m_heap m p = Some t" "\<not> zombie t" using find_alive_threadD by metis
    with wakeup_thread_ptr_inv(1) [OF inv] rest Inr show ?thesis by auto
  qed (use rest inv in simp)
qed

lemma pin_thread_inv:
  assumes inv: "manager_inv_except X m" and w: "pin_thread pid tid m = Some (p, m')"
  shows "manager_inv_except X m'" "find_thread pid tid m = Inr p" "locals m' = locals m"
    "\<exists>t. m_heap m p = Some t \<and> m_heap m' p = Some (t\<lparr>movable := False\<rparr>)"
proof -
  from w have f: "find_alive_thread pid tid m = Some (Inr p)"
    by (auto simp: pin_thread_def split: Option.bind_split_asm sum.splits)
  then obtain t where t: "find_thread pid tid m = Inr p" "m_heap m p = Some t" using find_alive_threadD by metis
  then have m': "m' = put_thread p (t\<lparr>movable := False\<rparr>) m" using w f by (simp add: pin_thread_def)
  show "manager_inv_except X m'" unfolding m' by (rule manager_inv_put_thread [OF inv t(2)]) simp_all
  show "find_thread pid tid m = Inr p" "locals m' = locals m"
    "\<exists>t. m_heap m p = Some t \<and> m_heap m' p = Some (t\<lparr>movable := False\<rparr>)"
    using t m' by simp_all
qed

lemma find_thread_cong: "processes m' = processes m \<Longrightarrow> find_thread pid tid m' = find_thread pid tid m"
  by (simp add: find_thread_def)

lemma set_lapic_inv:
  assumes inv: "manager_inv_except X m" and l: "get_local m c = Some l"
    and l': "run_queue l' = run_queue l" "this_thread l' = this_thread l"
  shows "manager_inv_except X (set_local c l' m)"
proof -
  from l have c: "c < length (locals m)" "l = locals m ! c" by (simp_all add: get_local_Some)
  have "run_queue ((locals m)[c := l'] ! d) = run_queue (locals m ! d)" for d
    using c l' by (cases "d = c") auto
  moreover have "this_thread ((locals m)[c := l'] ! d) = this_thread (locals m ! d)" for d
    using c l' by (cases "d = c") auto
  ultimately show ?thesis
    using inv unfolding manager_inv_def queue_inv_def current_inv_def set_local_def by auto
qed

lemma set_current_inv:
  assumes inv: "manager_inv_except X m" and l: "get_local m c = Some l"
    and t: "m_heap m p = Some t" "running_on t = Some c"
  shows "manager_inv_except X (set_local c (l\<lparr>this_thread := Some p\<rparr>) m)"
proof -
  from l have c: "c < length (locals m)" "l = locals m ! c" by (simp_all add: get_local_Some)
  let ?l = "l\<lparr>this_thread := Some p\<rparr>"
  have "run_queue ((locals m)[c := ?l] ! d) = run_queue (locals m ! d)" for d
    using c by (cases "d = c") auto
  then have "queue_inv (m_heap m) ((locals m)[c := ?l])"
    using inv unfolding manager_inv_def queue_inv_def by auto
  moreover have "current_inv (m_heap m) ((locals m)[c := ?l])"
    unfolding current_inv_def
  proof (intro allI impI)
    fix d x assume "d < length ((locals m)[c := ?l])" "this_thread ((locals m)[c := ?l] ! d) = Some x"
    with inv t c show "\<exists>t. m_heap m x = Some t \<and> running_on t = Some d"
      unfolding manager_inv_def current_inv_def by (cases "d = c") auto
  qed
  ultimately show ?thesis using inv by (simp add: manager_inv_def set_local_def)
qed

lemma expand_locals_inv:
  assumes inv: "manager_inv_except X m" and n: "length (locals m) \<le> n"
  shows "manager_inv_except X (expand_locals n m)"
proof -
  let ?k = "n - length (locals m)" let ?ls = "locals m @ replicate ?k new_local"
  have nth: "?ls ! c = (if c < length (locals m) then locals m ! c else new_local)" if "c < length ?ls" for c
    using that by (simp add: nth_append)
  have new: "run_queue new_local = [[], [], [], [], []]" "this_thread new_local = None"
    by (simp_all add: new_local_def max_nice_def numeral_eq_Suc)
  have new': "run_queue new_local ! j = []" if "j < 5" for j
    using that by (simp add: new_local_def max_nice_def)
  have none: "running_on t = Some c \<Longrightarrow> c < length (locals m)" if "m_heap m p = Some t" for p t c
    using inv that queue_inv_cpu by (auto simp: manager_inv_def)
  have "queue_inv (m_heap m) ?ls"
    unfolding queue_inv_def
  proof (intro conjI allI impI)
    fix c assume c: "c < length ?ls"
    show "length (run_queue (?ls ! c)) = 5"
      using inv new unfolding nth [OF c] manager_inv_def queue_inv_def by auto
  next
    fix c j assume c: "c < length ?ls" and j: "j < (5 :: nat)"
    show "distinct (run_queue (?ls ! c) ! j)"
      using inv j new' unfolding nth [OF c] manager_inv_def queue_inv_def by auto
  next
    fix c j p assume c: "c < length ?ls" and j: "j < (5 :: nat)"
    show "p \<in> set (run_queue (?ls ! c) ! j) \<longleftrightarrow>
        (\<exists>t. m_heap m p = Some t \<and> running_on t = Some c \<and> nice_to_index (nice t) = j)"
    proof (cases "c < length (locals m)")
      case True
      with inv j show ?thesis unfolding nth [OF c] manager_inv_def queue_inv_def by auto
    next
      case False
      with none j show ?thesis unfolding nth [OF c] by (auto simp: new')
    qed
  next
    fix p t assume "m_heap m p = Some t"
    with inv show "is_valid_nice (nice t)" by (auto simp: manager_inv_def queue_inv_def)
  next
    fix p t c assume "m_heap m p = Some t" "running_on t = Some c"
    with none show "c < length ?ls" by (simp add: trans_less_add1)
  qed
  moreover have "current_inv (m_heap m) ?ls"
    using inv new unfolding manager_inv_def current_inv_def by (auto simp: nth_append)
  ultimately show ?thesis
    using inv n by (simp add: manager_inv_def expand_locals_def)
qed

lemma capture_this_context_inv:
  assumes inv: "manager_inv_except X m" and s: "capture_this_context c ctx m = Some m'"
  shows "manager_inv_except X m'"
proof -
  from s obtain tid m1 m2 p' m3 l where c1: "create_thread (kernel_pid m) ctx m = Some (Inr tid, m1)"
    and w: "wakeup_thread c (kernel_pid m1) tid (- max_nice) m1 = Some (Success, m2)"
    and pin: "pin_thread (kernel_pid m2) tid m2 = Some (p', m3)"
    and l3: "get_local m3 c = Some l" and m': "m' = set_local c (l\<lparr>this_thread := Some p'\<rparr>) m3"
    unfolding capture_this_context_def
    by (auto split: Option.bind_split_asm sum.split_asm prod.split_asm if_split_asm)
  have inv1: "manager_inv_except X m1" by (rule create_thread_inv [OF inv c1])
  from c1 obtain p where cp: "create_thread_ptr (kernel_pid m) ctx m = (Inr p, m1)"
    and pt: "\<exists>t. m_heap m1 p = Some t \<and> t_id t = tid"
    by (auto simp: create_thread_def split: sum.splits prod.splits Option.bind_split_asm)
  obtain tid' where m1: "m_heap m1 = (m_heap m)(p \<mapsto> new_thread tid' (kernel_pid m) ctx)"
    "find_thread (kernel_pid m) tid' m1 = Inr p" "kernel_pid m1 = kernel_pid m"
    using create_thread_ptr_inv [OF inv cp] by metis
  have tid': "tid' = tid" using pt m1(1) by auto
  have inv2: "manager_inv_except X m2" by (rule wakeup_thread_inv [OF inv1 w])
  have w1: "wakeup_thread_ptr c p invalid_nice m1 = Some (Success, m2)"
    using w m1 tid' by (simp add: wakeup_thread_def find_alive_thread_def)
  have t1: "m_heap m1 p = Some (new_thread tid' (kernel_pid m) ctx)" using m1(1) by simp
  have c: "c < length (locals m1)" by (rule wakeup_thread_ptr_inv(3) [OF inv1 t1 _ w1]) simp
  have core1: "manager_core X m1" using inv1 by (simp add: manager_inv_except_def)
  obtain m2' where "wakeup_thread_ptr c p invalid_nice m1 = Some (Success, m2')" "only_threads m1 m2'"
    "m_heap m2' = (m_heap m1)(p \<mapsto> (new_thread tid' (kernel_pid m) ctx)\<lparr>running_on := Some c\<rparr>)"
    using wakeup_thread_ptr_core [OF core1 t1 _ c] by auto
  with w1 have m2: "only_threads m1 m2"
    "m_heap m2 p = Some ((new_thread tid' (kernel_pid m) ctx)\<lparr>running_on := Some c\<rparr>)" by auto
  note pin3 = pin_thread_inv [OF inv2 pin]
  have "kernel_pid m2 = kernel_pid m1" using m2(1) by (auto simp: only_threads_def)
  then have "p' = p"
    using pin3(2) m1(2,3) tid' find_thread_cong [OF only_threadsD(2) [OF m2(1)]] by simp
  with pin3(4) m2(2) obtain t3 where t3: "m_heap m3 p' = Some t3" "running_on t3 = Some c" by auto
  show ?thesis unfolding m' by (rule set_current_inv [OF pin3(1) l3 t3])
qed

lemma create_idle_thread_inv:
  assumes inv: "manager_inv_except X m" and s: "create_idle_thread c ctx idle stack m = Some m'"
  shows "manager_inv_except X m'"
proof -
  from s obtain tid m1 m2 p where c: "create_thread_with_context (kernel_pid m) ctx idle 0 stack m = Some (Inr tid, m1)"
    and w: "wakeup_thread c (kernel_pid m1) tid max_nice m1 = Some (Success, m2)"
    and pin: "pin_thread (kernel_pid m2) tid m2 = Some (p, m')"
    unfolding create_idle_thread_def
    by (auto split: Option.bind_split_asm sum.split_asm prod.split_asm if_split_asm)
  show ?thesis
    by (rule pin_thread_inv(1) [OF wakeup_thread_inv [OF create_thread_with_context_inv [OF inv c] w] pin])
qed

lemma capture_context_inv:
  assumes inv: "manager_inv_except X m" and s: "capture_context c lapic ctx1 ctx2 idle stack m = Some m'"
  shows "manager_inv_except X m'"
proof -
  from s obtain l m1 where l: "get_local m c = Some l"
    and m1: "capture_this_context c ctx1 (set_local c (l\<lparr>lapic_id := lapic\<rparr>) m) = Some m1"
    and m': "create_idle_thread c ctx2 idle stack m1 = Some m'"
    unfolding capture_context_def by (auto split: Option.bind_split_asm)
  have "manager_inv_except X (set_local c (l\<lparr>lapic_id := lapic\<rparr>) m)"
    by (rule set_lapic_inv [OF inv l]) simp_all
  from create_idle_thread_inv [OF capture_this_context_inv [OF this m1] m'] show ?thesis .
qed

end
