(* ===== verification/Migration_Counts.thy ===== *)
theory Migration_Counts
  imports Klee_Prelude
begin

text \<open>
  The balancing algorithm of \<^verbatim>\<open>Manager::migrate_threads\<close> (\<^verbatim>\<open>src/process/manager.hpp\<close>) on the numbers of
  queued threads alone: the state is the list \<open>local_thread_num\<close>, whether a thread is in hand, and the
  flag \<open>exit\<close>. \<open>thr\<close> gives the threshold of a processor and \<open>imm\<close> the number of its threads that may not
  be moved (not \<open>movable\<close>, or current). The theory \<open>Thread_Migration\<close> shows that the code's loop over
  run queues behaves like this one.
\<close>

type_synonym count_state = "nat list \<times> bool \<times> bool"

definition count_step :: "(nat \<Rightarrow> nat) \<Rightarrow> (nat \<Rightarrow> nat) \<Rightarrow> nat \<Rightarrow> count_state \<Rightarrow> count_state" where
  "count_step thr imm i s = (case s of (cs, carry, ex) \<Rightarrow>
     if \<not> carry then
       (if cs ! i < thr i then (cs, carry, ex)
        else if imm i < cs ! i then (cs[i := cs ! i - 1], True, False)
        else (cs, carry, ex))
     else
       (if cs ! i \<ge> thr i then (cs, carry, ex)
        else (cs[i := cs ! i + 1], False, ex)))"

definition count_run :: "(nat \<Rightarrow> nat) \<Rightarrow> (nat \<Rightarrow> nat) \<Rightarrow> nat list \<Rightarrow> count_state \<Rightarrow> count_state" where
  "count_run thr imm is s = fold (count_step thr imm) is s"

definition count_pass :: "(nat \<Rightarrow> nat) \<Rightarrow> (nat \<Rightarrow> nat) \<Rightarrow> count_state \<Rightarrow> count_state" where
  "count_pass thr imm s = (case s of (cs, carry, ex) \<Rightarrow> count_run thr imm [0..<length cs] (cs, carry, True))"

text \<open>Passes until one takes no thread; \<open>k\<close> bounds their number.\<close>

fun count_loop :: "(nat \<Rightarrow> nat) \<Rightarrow> (nat \<Rightarrow> nat) \<Rightarrow> nat \<Rightarrow> count_state \<Rightarrow> count_state" where
  "count_loop thr imm 0 s = s"
| "count_loop thr imm (Suc k) s =
     (let s = count_pass thr imm s in if snd (snd s) then s else count_loop thr imm k s)"

lemma count_run_append: "count_run thr imm (is @ js) s = count_run thr imm js (count_run thr imm is s)"
  by (simp add: count_run_def)

lemma count_run_Nil [simp]: "count_run thr imm [] s = s"
  by (simp add: count_run_def)

lemma count_run_Cons: "count_run thr imm (i # is) s = count_run thr imm is (count_step thr imm i s)"
  by (simp add: count_run_def)

text \<open>Deficit and surplus of a processor.\<close>

definition deficit :: "(nat \<Rightarrow> nat) \<Rightarrow> nat list \<Rightarrow> nat \<Rightarrow> nat" where
  "deficit thr cs i = thr i - cs ! i"

definition surplus :: "(nat \<Rightarrow> nat) \<Rightarrow> nat list \<Rightarrow> nat \<Rightarrow> nat" where
  "surplus thr cs i = cs ! i - thr i"

text \<open>What one step does, seen at index \<open>i\<close>.\<close>

lemma count_step_length: "count_step thr imm i (cs, c, ex) = (cs', c', ex') \<Longrightarrow> length cs' = length cs"
  by (auto simp: count_step_def split: if_splits)

lemma count_step_other: "count_step thr imm i (cs, c, ex) = (cs', c', ex') \<Longrightarrow> j \<noteq> i \<Longrightarrow> cs' ! j = cs ! j"
  by (auto simp: count_step_def split: if_splits)

lemma count_step_balance:
  "i < length cs \<Longrightarrow> count_step thr imm i (cs, c, ex) = (cs', c', ex') \<Longrightarrow>
   cs' ! i + of_bool c' = cs ! i + of_bool c"
  by (auto simp: count_step_def split: if_splits)

lemma count_step_surplus:
  "i < length cs \<Longrightarrow> count_step thr imm i (cs, c, ex) = (cs', c', ex') \<Longrightarrow>
   surplus thr cs' i \<le> surplus thr cs i"
  by (auto simp: count_step_def surplus_def split: if_splits)

lemma count_step_exit:
  "count_step thr imm i (cs, c, ex) = (cs', c', ex') \<Longrightarrow> ex' \<Longrightarrow> ex \<and> (c' \<longrightarrow> c)"
  by (auto simp: count_step_def split: if_splits)

lemma count_run_spec:
  assumes "set is \<subseteq> {..<length cs}" "distinct is" "count_run thr imm is (cs, c, ex) = (cs', c', ex')"
  shows "length cs' = length cs
     \<and> (\<forall>j. j \<notin> set is \<longrightarrow> cs' ! j = cs ! j)
     \<and> (\<Sum>i\<in>set is. cs' ! i) + of_bool c' = (\<Sum>i\<in>set is. cs ! i) + of_bool c
     \<and> (\<forall>i. i \<in> set is \<longrightarrow> surplus thr cs' i \<le> surplus thr cs i)
     \<and> (ex' \<longrightarrow> ex)"
  using assms
proof (induction "is" arbitrary: cs c ex)
  case (Cons i js)
  obtain cs1 c1 ex1 where s: "count_step thr imm i (cs, c, ex) = (cs1, c1, ex1)" by (metis prod_cases3)
  have len: "length cs1 = length cs" using count_step_length [OF s] .
  have i: "i < length cs" "i \<notin> set js" using Cons.prems by auto
  have r: "count_run thr imm js (cs1, c1, ex1) = (cs', c', ex')"
    using Cons.prems(3) s by (simp add: count_run_Cons)
  have ih: "length cs' = length cs1"
     "\<And>j. j \<notin> set js \<Longrightarrow> cs' ! j = cs1 ! j"
     "(\<Sum>i\<in>set js. cs' ! i) + of_bool c' = (\<Sum>i\<in>set js. cs1 ! i) + of_bool c1"
     "\<And>i. i \<in> set js \<Longrightarrow> surplus thr cs' i \<le> surplus thr cs1 i" "ex' \<longrightarrow> ex1"
    using Cons.IH [OF _ _ r] Cons.prems(1,2) len by auto
  have eq: "cs1 ! j = cs ! j" if "j \<in> set js" for j
    using count_step_other [OF s, of j] that i by auto
  have sum1: "(\<Sum>i\<in>set js. cs1 ! i) = (\<Sum>i\<in>set js. cs ! i)" using eq by simp
  have ci: "cs' ! i = cs1 ! i" using ih(2) i by simp
  have bal: "cs1 ! i + of_bool c1 = cs ! i + of_bool c" using count_step_balance [OF i(1) s] .
  show ?case
  proof (intro conjI)
    show "length cs' = length cs" using ih(1) len by simp
    show "\<forall>j. j \<notin> set (i # js) \<longrightarrow> cs' ! j = cs ! j" using ih(2) count_step_other [OF s] by auto
    show "(\<Sum>i\<in>set (i # js). cs' ! i) + of_bool c' = (\<Sum>i\<in>set (i # js). cs ! i) + of_bool c"
      using ih(3) bal ci sum1 i(2) by simp
    show "\<forall>k. k \<in> set (i # js) \<longrightarrow> surplus thr cs' k \<le> surplus thr cs k"
    proof (intro allI impI)
      fix k assume k: "k \<in> set (i # js)"
      show "surplus thr cs' k \<le> surplus thr cs k"
      proof (cases "k = i")
        case True
        then show ?thesis using count_step_surplus [OF i(1) s] ci by (simp add: surplus_def)
      next
        case False
        then show ?thesis using ih(4) [of k] k eq by (simp add: surplus_def)
      qed
    qed
    show "ex' \<longrightarrow> ex" using ih(5) count_step_exit [OF s] by blast
  qed
qed simp

text \<open>A pass that takes nothing keeps what it has in hand or gives it away.\<close>

lemma count_run_exit:
  assumes "set is \<subseteq> {..<length cs}" "distinct is" "count_run thr imm is (cs, c, True) = (cs', c', True)" "c'"
  shows "c \<and> cs' = cs \<and> (\<forall>i\<in>set is. thr i \<le> cs ! i)"
  using assms
proof (induction "is" arbitrary: cs c)
  case (Cons i js)
  obtain cs1 c1 ex1 where s: "count_step thr imm i (cs, c, True) = (cs1, c1, ex1)" by (metis prod_cases3)
  have r: "count_run thr imm js (cs1, c1, ex1) = (cs', c', True)"
    using Cons.prems(3) s by (simp add: count_run_Cons)
  have len: "length cs1 = length cs" using count_step_length [OF s] .
  have "set js \<subseteq> {..<length cs1}" "distinct js" using Cons.prems(1,2) len by auto
  note sp = count_run_spec [OF this r]
  have ex1: "ex1 = True" using sp by simp
  have ih: "c1 \<and> cs' = cs1 \<and> (\<forall>i\<in>set js. thr i \<le> cs1 ! i)"
    using Cons.IH [of cs1 c1] r Cons.prems(1,2,4) len by (auto simp: ex1)
  from s ih ex1 have "c \<and> cs1 = cs \<and> thr i \<le> cs ! i"
    by (auto simp: count_step_def split: if_splits)
  with ih show ?case by auto
qed simp

subsection \<open>Termination\<close>

lemma count_run_full:
  assumes "\<forall>i\<in>set is. thr i \<le> cs ! i"
  shows "count_run thr imm is (cs, True, ex) = (cs, True, ex)"
  using assms by (induction "is") (auto simp: count_run_Cons count_step_def)

lemma count_run_taken:
  assumes "set is \<subseteq> {..<length cs}" "distinct is" "count_run thr imm is (cs, c, True) = (cs', c', False)"
    and "\<forall>i\<in>set is. cs ! i \<le> thr i"
  shows "\<exists>j\<in>set is. cs' ! j < thr j"
  using assms
proof (induction "is" arbitrary: cs c)
  case (Cons i js)
  obtain cs1 c1 ex1 where s: "count_step thr imm i (cs, c, True) = (cs1, c1, ex1)" by (metis prod_cases3)
  have r: "count_run thr imm js (cs1, c1, ex1) = (cs', c', False)"
    using Cons.prems(3) s by (simp add: count_run_Cons)
  have len: "length cs1 = length cs" using count_step_length [OF s] .
  have js: "set js \<subseteq> {..<length cs1}" "distinct js" "i \<notin> set js" "i < length cs" using Cons.prems(1,2) len by auto
  have ci: "cs' ! i = cs1 ! i" using count_run_spec [OF js(1,2) r] js(3) by blast
  show ?case
  proof (cases ex1)
    case True
    have "cs1 ! j = cs ! j" if "j \<in> set js" for j using count_step_other [OF s, of j] that js(3) by auto
    with Cons.prems(4) have "\<forall>j\<in>set js. cs1 ! j \<le> thr j" by simp
    with Cons.IH [of cs1 c1] js(1,2) r True show ?thesis by auto
  next
    case False
    with s have "cs1 ! i = cs ! i - 1 \<and> imm i < cs ! i"
      using js(4) by (auto simp: count_step_def split: if_splits)
    with Cons.prems(4) ci have "cs' ! i < thr i" by auto
    then show ?thesis by auto
  qed
qed simp

definition first_surplus :: "(nat \<Rightarrow> nat) \<Rightarrow> nat list \<Rightarrow> nat" where
  "first_surplus thr cs = (LEAST i. i = length cs \<or> 0 < surplus thr cs i)"

lemma first_surplus:
  "first_surplus thr cs \<le> length cs"
  "first_surplus thr cs < length cs \<Longrightarrow> 0 < surplus thr cs (first_surplus thr cs)"
  "i < first_surplus thr cs \<Longrightarrow> surplus thr cs i = 0"
proof -
  let ?P = "\<lambda>i. i = length cs \<or> 0 < surplus thr cs i"
  show "first_surplus thr cs \<le> length cs" unfolding first_surplus_def by (rule Least_le) simp
  have "?P (first_surplus thr cs)" unfolding first_surplus_def by (rule LeastI [of ?P "length cs"]) simp
  then show "first_surplus thr cs < length cs \<Longrightarrow> 0 < surplus thr cs (first_surplus thr cs)" by auto
  show "i < first_surplus thr cs \<Longrightarrow> surplus thr cs i = 0"
    unfolding first_surplus_def using not_less_Least [of i ?P] by auto
qed

lemma first_surplus_cong:
  assumes "length cs' = length cs" "\<And>i. i < length cs \<Longrightarrow> surplus thr cs' i = surplus thr cs i"
  shows "first_surplus thr cs' = first_surplus thr cs"
proof (rule ccontr)
  assume ne: "first_surplus thr cs' \<noteq> first_surplus thr cs"
  have "False" if "first_surplus thr a < first_surplus thr b" "length a = length b"
    "\<And>i. i < length a \<Longrightarrow> surplus thr a i = surplus thr b i" for a b
  proof -
    have l: "first_surplus thr a < length a" using that(1,2) first_surplus(1) [of thr b] by simp
    from first_surplus(2) [OF l] first_surplus(3) [OF that(1)] that(3) [OF l] show False by simp
  qed
  from this [of cs' cs] this [of cs cs'] ne assms show False
    by (cases "first_surplus thr cs' < first_surplus thr cs") auto
qed

text \<open>The measure of a state, compared lexicographically: the total surplus; how far the deficit below
  the first surplus processor is from its bound; the deficit from there on; the deficits as a list.\<close>

definition count_measure :: "(nat \<Rightarrow> nat) \<Rightarrow> nat list \<Rightarrow> nat \<times> nat \<times> nat \<times> nat list" where
  "count_measure thr cs = (let n = length cs; s = first_surplus thr cs in
     (\<Sum>i\<in>{..<n}. surplus thr cs i,
      (\<Sum>i\<in>{..<n}. thr i) - (\<Sum>i\<in>{..<s}. deficit thr cs i),
      \<Sum>i\<in>{s..<n}. deficit thr cs i,
      map (deficit thr cs) [0..<n]))"

definition count_less :: "((nat \<times> nat \<times> nat \<times> nat list) \<times> (nat \<times> nat \<times> nat \<times> nat list)) set" where
  "count_less = less_than <*lex*> less_than <*lex*> less_than <*lex*> lenlex less_than"

lemma wf_count_less: "wf count_less"
  unfolding count_less_def by (intro wf_lex_prod wf_less_than wf_lenlex)

lemma lenlex_at:
  fixes a b :: nat
  assumes "ps = qs" "a < b" "length xs = length ys"
  shows "(ps @ a # xs, qs @ b # ys) \<in> lenlex less_than"
  using assms unfolding lenlex_conv lex_conv by fastforce

text \<open>The thresholds add up to the threads there are.\<close>

definition count_total :: "(nat \<Rightarrow> nat) \<Rightarrow> nat list \<Rightarrow> bool \<Rightarrow> bool" where
  "count_total thr cs carry \<longleftrightarrow> (\<Sum>i\<in>{..<length cs}. cs ! i) + of_bool carry = (\<Sum>i\<in>{..<length cs}. thr i)"

lemma deficit_split: "cs ! i + deficit thr cs i = thr i + surplus thr cs i"
  by (simp add: deficit_def surplus_def)

lemma first_deficit:
  assumes "count_total thr cs True"
  obtains d where "d < length cs" "cs ! d < thr d" "\<forall>i<d. thr i \<le> cs ! i"
proof -
  have "\<exists>d<length cs. cs ! d < thr d"
  proof (rule ccontr)
    assume "\<not> ?thesis"
    then have "(\<Sum>i\<in>{..<length cs}. thr i) \<le> (\<Sum>i\<in>{..<length cs}. cs ! i)"
      by (intro sum_mono) auto
    with assms show False by (simp add: count_total_def)
  qed
  then have ex: "\<exists>d. d < length cs \<and> cs ! d < thr d" by blast
  define d where "d = (LEAST d. d < length cs \<and> cs ! d < thr d)"
  have d: "d < length cs \<and> cs ! d < thr d" unfolding d_def by (rule LeastI_ex [OF ex])
  have "thr i \<le> cs ! i" if "i < d" for i
    using not_less_Least [of i "\<lambda>d. d < length cs \<and> cs ! d < thr d"] that d unfolding d_def by auto
  with d that show thesis by blast
qed

text \<open>A pass that starts with a thread in hand fills the first deficit, and changes nothing before it.\<close>

lemma count_pass_fills:
  assumes d: "d < length cs" "cs ! d < thr d" "\<forall>i<d. thr i \<le> cs ! i"
    and r: "count_run thr imm [0..<length cs] (cs, True, ex) = (cs', c', ex')"
  shows "\<forall>i<d. cs' ! i = cs ! i" and "cs' ! d = cs ! d + 1"
proof -
  let ?n = "length cs"
  have sp: "[0..<?n] = [0..<d] @ d # [Suc d..<?n]"
    using d(1) by (metis less_imp_le_nat upt_add_eq_append upt_conv_Cons le0 less_imp_add_positive)
  have "count_run thr imm [0..<d] (cs, True, ex) = (cs, True, ex)"
    by (rule count_run_full) (use d(3) in simp)
  then have r2: "count_run thr imm [Suc d..<?n] (cs[d := cs ! d + 1], False, ex) = (cs', c', ex')"
    using r d(2) unfolding sp count_run_append count_run_Cons by (simp add: count_step_def)
  have "set [Suc d..<?n] \<subseteq> {..<length (cs[d := cs ! d + 1])}" by auto
  from count_run_spec [OF this distinct_upt r2] have *: "\<And>j. j \<le> d \<Longrightarrow> cs' ! j = cs[d := cs ! d + 1] ! j"
    by auto
  from * d(1) show "cs' ! d = cs ! d + 1" by simp
  from * show "\<forall>i<d. cs' ! i = cs ! i" by simp
qed

lemma count_pass_decreases:
  assumes tot: "count_total thr cs c" and imm: "\<forall>i<length cs. imm i \<le> thr i"
    and p: "count_pass thr imm (cs, c, ex) = (cs', c', False)"
  shows "(count_measure thr cs', count_measure thr cs) \<in> count_less"
    and "count_total thr cs' c'" and "length cs' = length cs"
proof -
  let ?n = "length cs" and ?s = "first_surplus thr cs"
  have r: "count_run thr imm [0..<?n] (cs, c, True) = (cs', c', False)" using p by (simp add: count_pass_def)
  have sub: "set [0..<?n] \<subseteq> {..<length cs}" by auto
  note sp = count_run_spec [OF sub distinct_upt r]
  from sp show len: "length cs' = length cs" by simp
  have set_n: "set [0..<?n] = {..<?n}" by auto
  from sp set_n have sum: "(\<Sum>i\<in>{..<?n}. cs' ! i) + of_bool c' = (\<Sum>i\<in>{..<?n}. cs ! i) + of_bool c" by metis
  then show "count_total thr cs' c'" using tot len by (simp add: count_total_def)
  have le: "surplus thr cs' i \<le> surplus thr cs i" if "i < ?n" for i using sp that by auto
  show "(count_measure thr cs', count_measure thr cs) \<in> count_less"
  proof (cases "(\<Sum>i\<in>{..<?n}. surplus thr cs' i) = (\<Sum>i\<in>{..<?n}. surplus thr cs i)")
    case False
    with sum_mono [of "{..<?n}" "surplus thr cs'" "surplus thr cs"] le
    have "(\<Sum>i\<in>{..<?n}. surplus thr cs' i) < (\<Sum>i\<in>{..<?n}. surplus thr cs i)" by fastforce
    then show ?thesis using len by (simp add: count_less_def count_measure_def Let_def)
  next
    case True
    have eq: "surplus thr cs' i = surplus thr cs i" if "i < ?n" for i
    proof (rule ccontr)
      assume "surplus thr cs' i \<noteq> surplus thr cs i"
      with le [OF that] have "surplus thr cs' i < surplus thr cs i" by simp
      with le that have "(\<Sum>i\<in>{..<?n}. surplus thr cs' i) < (\<Sum>i\<in>{..<?n}. surplus thr cs i)"
        by (intro sum_strict_mono_ex1) auto
      with True show False by simp
    qed
    have s': "first_surplus thr cs' = ?s" by (rule first_surplus_cong) (simp_all add: len eq)
    have sn: "?s \<le> ?n" by (rule first_surplus)
    obtain cs1 c1 ex1 where m: "count_run thr imm [0..<?s] (cs, c, True) = (cs1, c1, ex1)" by (metis prod_cases3)
    have split: "[0..<?n] = [0..<?s] @ [?s..<?n]" using sn by (metis le0 upt_add_eq_append le_add_diff_inverse)
    have r2: "count_run thr imm [?s..<?n] (cs1, c1, ex1) = (cs', c', False)"
      using r m unfolding split count_run_append by simp
    have sub1: "set [0..<?s] \<subseteq> {..<length cs}" using sn by auto
    note sp1 = count_run_spec [OF sub1 distinct_upt m]
    have len1: "length cs1 = ?n" using sp1 by simp
    have sub2: "set [?s..<?n] \<subseteq> {..<length cs1}" using len1 by auto
    note sp2 = count_run_spec [OF sub2 distinct_upt r2]
    have lo: "cs' ! i = cs1 ! i" if "i < ?s" for i using sp2 that by auto
    have hi: "cs1 ! i = cs ! i" if "?s \<le> i" for i using sp1 that by auto
    have c1: "c1"
    proof (cases "?s = ?n")
      case True
      with r2 have e: "cs1 = cs'" "c1 = c'" "ex1 = False" by simp_all
      have "\<forall>i\<in>set [0..<?n]. cs ! i \<le> thr i" using first_surplus(3) [of _ thr cs] True by (auto simp: surplus_def)
      from count_run_taken [OF sub distinct_upt r this] obtain j where j: "j < ?n" "cs' ! j < thr j" by auto
      have "\<forall>i\<in>{..<?n}. cs' ! i \<le> thr i" using first_surplus(3) [of _ thr cs] True eq by (auto simp: surplus_def)
      with j have "(\<Sum>i\<in>{..<?n}. cs' ! i) < (\<Sum>i\<in>{..<?n}. thr i)" by (intro sum_strict_mono_ex1) auto
      with \<open>count_total thr cs' c'\<close> len e show ?thesis by (cases c') (auto simp: count_total_def)
    next
      case False
      with sn have s: "?s < ?n" by simp
      show ?thesis
      proof (rule ccontr)
        assume nc: "\<not> c1"
        have "0 < surplus thr cs ?s" by (rule first_surplus(2) [OF s])
        then have g: "thr ?s < cs1 ! ?s" using hi [of ?s] by (simp add: surplus_def)
        have "[?s..<?n] = ?s # [Suc ?s..<?n]" using s by (simp add: upt_conv_Cons)
        then have r3: "count_run thr imm [Suc ?s..<?n] (cs1[?s := cs1 ! ?s - 1], True, False) = (cs', c', False)"
          using r2 g nc imm s le_less_trans [of "imm ?s" "thr ?s" "cs1 ! ?s"]
          by (simp add: count_run_Cons count_step_def)
        have "set [Suc ?s..<?n] \<subseteq> {..<length (cs1[?s := cs1 ! ?s - 1])}" using len1 by auto
        from count_run_spec [OF this distinct_upt r3] have "cs' ! ?s = cs1 ! ?s - 1" using s len1 by simp
        with eq [OF s] hi [of ?s] g show False by (simp add: surplus_def)
      qed
    qed
    have d1: "(\<Sum>i\<in>{..<?s}. deficit thr cs' i) + of_bool c = (\<Sum>i\<in>{..<?s}. deficit thr cs i) + 1"
    proof -
      have a: "cs ! i + deficit thr cs i = thr i" "cs' ! i + deficit thr cs' i = thr i" if "i < ?s" for i
        using deficit_split [of cs i thr] deficit_split [of cs' i thr] first_surplus(3) [OF that] eq [of i] that sn
        by simp_all
      have "(\<Sum>i\<in>{..<?s}. cs' ! i) + 1 = (\<Sum>i\<in>{..<?s}. cs ! i) + of_bool c"
      proof -
        have "set [0..<?s] = {..<?s}" by auto
        with sp1 have "(\<Sum>i\<in>{..<?s}. cs1 ! i) + of_bool c1 = (\<Sum>i\<in>{..<?s}. cs ! i) + of_bool c" by metis
        then show ?thesis using lo c1 by simp
      qed
      moreover have "(\<Sum>i\<in>{..<?s}. cs ! i) + (\<Sum>i\<in>{..<?s}. deficit thr cs i) = (\<Sum>i\<in>{..<?s}. thr i)"
        "(\<Sum>i\<in>{..<?s}. cs' ! i) + (\<Sum>i\<in>{..<?s}. deficit thr cs' i) = (\<Sum>i\<in>{..<?s}. thr i)"
        using a by (simp_all flip: sum.distrib)
      ultimately show ?thesis by linarith
    qed
    have d2: "(\<Sum>i\<in>{?s..<?n}. deficit thr cs' i) + 1 = (\<Sum>i\<in>{?s..<?n}. deficit thr cs i) + of_bool c'"
    proof -
      have "(\<Sum>i\<in>{?s..<?n}. cs' ! i) + of_bool c' = (\<Sum>i\<in>{?s..<?n}. cs ! i) + 1"
      proof -
        have "set [?s..<?n] = {?s..<?n}" by auto
        with sp2 have "(\<Sum>i\<in>{?s..<?n}. cs' ! i) + of_bool c' = (\<Sum>i\<in>{?s..<?n}. cs1 ! i) + of_bool c1" by metis
        then show ?thesis using hi c1 by simp
      qed
      moreover have "(\<Sum>i\<in>{?s..<?n}. cs ! i) + (\<Sum>i\<in>{?s..<?n}. deficit thr cs i)
          = (\<Sum>i\<in>{?s..<?n}. cs' ! i) + (\<Sum>i\<in>{?s..<?n}. deficit thr cs' i)"
        using deficit_split [of cs _ thr] deficit_split [of cs' _ thr] eq by (simp flip: sum.distrib)
      ultimately show ?thesis by linarith
    qed
    have bound: "(\<Sum>i\<in>{..<?s}. deficit thr cs' i) \<le> (\<Sum>i\<in>{..<?n}. thr i)"
    proof -
      have "(\<Sum>i\<in>{..<?s}. deficit thr cs' i) \<le> (\<Sum>i\<in>{..<?s}. thr i)"
        by (rule sum_mono) (simp add: deficit_def)
      also have "\<dots> \<le> (\<Sum>i\<in>{..<?n}. thr i)" by (rule sum_mono2) (use sn in auto)
      finally show ?thesis .
    qed
    show ?thesis
    proof (cases c)
      case False
      with d1 bound have "(\<Sum>i\<in>{..<?n}. thr i) - (\<Sum>i\<in>{..<?s}. deficit thr cs' i)
          < (\<Sum>i\<in>{..<?n}. thr i) - (\<Sum>i\<in>{..<?s}. deficit thr cs i)" by simp
      with True len s' show ?thesis by (simp add: count_less_def count_measure_def Let_def)
    next
      case c: True
      obtain d where d: "d < ?n" "cs ! d < thr d" "\<forall>i<d. thr i \<le> cs ! i"
        using first_deficit tot c by metis
      from count_pass_fills [OF d, of imm True cs' c' False] r c
      have f: "\<forall>i<d. cs' ! i = cs ! i" "cs' ! d = cs ! d + 1" by simp_all
      have "(map (deficit thr cs') [0..<?n], map (deficit thr cs) [0..<?n]) \<in> lenlex less_than"
      proof -
        have sp: "[0..<?n] = [0..<d] @ d # [Suc d..<?n]"
          using d(1) by (metis less_imp_le_nat upt_add_eq_append upt_conv_Cons le0 less_imp_add_positive)
        have "map (deficit thr cs') [0..<d] = map (deficit thr cs) [0..<d]"
          using f(1) by (auto simp: deficit_def)
        moreover have "deficit thr cs' d < deficit thr cs d" using f(2) d(2) by (simp add: deficit_def)
        ultimately show ?thesis unfolding sp map_append list.map by (intro lenlex_at) simp_all
      qed
      with True len s' d1 d2 c show ?thesis
        by (cases c') (auto simp: count_less_def count_measure_def Let_def)
    qed
  qed
qed

lemma count_loop_terminates:
  assumes "count_total thr cs c" "\<forall>i<length cs. imm i \<le> thr i"
  shows "\<exists>k. snd (snd (count_loop thr imm k (cs, c, ex)))"
proof -
  have "count_total thr cs c \<longrightarrow> (\<forall>i<length cs. imm i \<le> thr i) \<longrightarrow>
      (\<exists>k. snd (snd (count_loop thr imm k (cs, c, ex))))" for c ex
  proof (induction cs arbitrary: c ex rule: wf_induct_rule [OF wf_inv_image [OF wf_count_less, of "count_measure thr"]])
    case (1 cs)
    show ?case
    proof (intro impI)
      assume a: "count_total thr cs c" "\<forall>i<length cs. imm i \<le> thr i"
      obtain cs' c' ex' where p: "count_pass thr imm (cs, c, ex) = (cs', c', ex')" by (metis prod_cases3)
      show "\<exists>k. snd (snd (count_loop thr imm k (cs, c, ex)))"
      proof (cases ex')
        case True
        then show ?thesis using p by (intro exI [of _ 1]) simp
      next
        case False
        with p have p': "count_pass thr imm (cs, c, ex) = (cs', c', False)" by simp
        note dec = count_pass_decreases [OF a p']
        from 1 [of cs' c' ex'] dec a obtain k where "snd (snd (count_loop thr imm k (cs', c', ex')))"
          by (auto simp: inv_image_def)
        then show ?thesis using p False by (intro exI [of _ "Suc k"]) simp
      qed
    qed
  qed
  with assms show ?thesis by blast
qed

text \<open>When the loop ends, no thread is left in hand.\<close>

lemma count_pass_total:
  assumes "count_total thr cs c" "count_pass thr imm (cs, c, ex) = (cs', c', ex')"
  shows "count_total thr cs' c'" and "ex' \<Longrightarrow> \<not> c'"
proof -
  let ?n = "length cs"
  have r: "count_run thr imm [0..<?n] (cs, c, True) = (cs', c', ex')" using assms(2) by (simp add: count_pass_def)
  have sub: "set [0..<?n] \<subseteq> {..<length cs}" by auto
  have set_n: "set [0..<?n] = {..<?n}" by auto
  from count_run_spec [OF sub distinct_upt r] set_n have
    "length cs' = ?n" "(\<Sum>i\<in>{..<?n}. cs' ! i) + of_bool c' = (\<Sum>i\<in>{..<?n}. cs ! i) + of_bool c" by metis+
  with assms(1) show "count_total thr cs' c'" by (simp add: count_total_def)
  show "\<not> c'" if "ex'"
  proof
    assume "c'"
    from count_run_exit [OF sub distinct_upt r [unfolded eqTrueI [OF that]] this] set_n
    have "c" "\<forall>i\<in>{..<?n}. thr i \<le> cs ! i" by auto
    then have "(\<Sum>i\<in>{..<?n}. thr i) \<le> (\<Sum>i\<in>{..<?n}. cs ! i)" by (intro sum_mono) auto
    with assms(1) \<open>c\<close> show False by (simp add: count_total_def)
  qed
qed

lemma count_loop_exit:
  assumes "count_total thr cs c" "count_loop thr imm k (cs, c, False) = (cs', c', True)"
  shows "\<not> c'"
  using assms
proof (induction k arbitrary: cs c)
  case (Suc k)
  obtain cs1 c1 ex1 where p: "count_pass thr imm (cs, c, False) = (cs1, c1, ex1)" by (metis prod_cases3)
  note tot = count_pass_total [OF Suc.prems(1) p]
  show ?case
  proof (cases ex1)
    case True
    with tot Suc.prems(2) p show ?thesis by simp
  next
    case False
    with Suc.IH [of cs1 c1] tot Suc.prems(2) p show ?thesis by simp
  qed
qed simp

lemma sum_thresholds:
  fixes total n :: nat
  assumes "0 < n"
  shows "(\<Sum>i\<in>{..<n}. if i < total - total div n * n then total div n + 1 else total div n) = total"
proof -
  let ?r = "total - total div n * n"
  have r: "?r = total mod n" by (simp add: minus_div_mult_eq_mod)
  have "?r < n" using assms unfolding r by simp
  have "(\<Sum>i\<in>{..<n}. if i < ?r then total div n + 1 else total div n)
      = (\<Sum>i\<in>{..<n}. total div n + of_bool (i < ?r))" by (rule sum.cong) auto
  also have "\<dots> = n * (total div n) + (\<Sum>i\<in>{..<n}. of_bool (i < ?r))" by (simp add: sum.distrib)
  also have "(\<Sum>i\<in>{..<n}. of_bool (i < ?r) :: nat) = ?r"
  proof -
    have "{i \<in> {..<n}. i < ?r} = {..<?r}" using \<open>?r < n\<close> by auto
    then show ?thesis by (simp add: of_bool_def sum.If_cases Int_def)
  qed
  finally show ?thesis by (simp add: r)
qed

end
