(* ===== verification/Thread_Migration.thy ===== *)
theory Thread_Migration
  imports Process_Safety Migration_Counts
begin

text \<open>
  \<^verbatim>\<open>Manager::migrate_threads\<close> of \<^verbatim>\<open>src/process/manager.hpp\<close>, which the timer interrupt calls every 500
  ticks to even out the run queues of the processors. The loop of the source is a \<^verbatim>\<open>goto\<close> that repeats
  a pass over the processors until one pass takes no thread; it is modelled by a bounded number of
  passes, the flag \<open>mg_exit\<close> of the result telling whether the loop has ended. The refinement lemma
  \<open>migrate_pass_counts\<close> reduces questions about the number of passes to \<open>Migration_Counts\<close>.
\<close>

record migration =
  mg_manager :: manager
  local_thread_num :: "nat list"
  mg_thread :: "tptr option"
  mg_exit :: bool

definition queue_size :: "processor_local \<Rightarrow> nat" where
  "queue_size l = sum_list (map length (run_queue l))"

text \<open>The inner search: the queues from the last to the first, each from its front, for a thread that is
  movable and not current. The outer \<open>None\<close> is a dangling pointer.\<close>

fun find_movable :: "heap \<Rightarrow> tptr option \<Rightarrow> tptr list \<Rightarrow> tptr option option" where
  "find_movable h cur [] = Some None"
| "find_movable h cur (p # ps) =
     (case h p of None \<Rightarrow> None
      | Some t \<Rightarrow> if \<not> movable t \<or> Some p = cur then find_movable h cur ps else Some (Some p))"

fun find_movable_queues :: "heap \<Rightarrow> tptr option \<Rightarrow> tptr list list \<Rightarrow> tptr option option" where
  "find_movable_queues h cur [] = Some None"
| "find_movable_queues h cur (q # qs) =
     (case find_movable h cur q of None \<Rightarrow> None
      | Some (Some p) \<Rightarrow> Some (Some p)
      | Some None \<Rightarrow> find_movable_queues h cur qs)"

definition migrate_step :: "(nat \<Rightarrow> nat) \<Rightarrow> nat \<Rightarrow> migration \<Rightarrow> migration option" where
  "migrate_step threshold i s = do {
     let m = mg_manager s;
     let num = local_thread_num s;
     l \<leftarrow> get_local m i;
     case mg_thread s of
       None \<Rightarrow>
         if num ! i < threshold i then Some s
         else do {
           r \<leftarrow> find_movable_queues (m_heap m) (this_thread l) (rev (run_queue l));
           case r of
             None \<Rightarrow> Some s
           | Some p \<Rightarrow> do {
               l \<leftarrow> erase_from_run_queue (m_heap m) p l;
               Some (s\<lparr>mg_manager := set_local i l m, mg_thread := Some p,
                        local_thread_num := num[i := num ! i - 1], mg_exit := False\<rparr>) } }
     | Some p \<Rightarrow>
         if num ! i \<ge> threshold i then Some s
         else do {
           t \<leftarrow> m_heap m p;
           let m = put_thread p (t\<lparr>running_on := Some i\<rparr>) m;
           l \<leftarrow> push_to_run_queue (m_heap m) p l;
           Some (s\<lparr>mg_manager := set_local i l m, mg_thread := None,
                    local_thread_num := num[i := num ! i + 1]\<rparr>) } }"

fun migrate_run :: "(nat \<Rightarrow> nat) \<Rightarrow> nat list \<Rightarrow> migration \<Rightarrow> migration option" where
  "migrate_run threshold [] s = Some s"
| "migrate_run threshold (i # is) s = do { s \<leftarrow> migrate_step threshold i s; migrate_run threshold is s }"

definition migrate_pass :: "(nat \<Rightarrow> nat) \<Rightarrow> migration \<Rightarrow> migration option" where
  "migrate_pass threshold s =
     migrate_run threshold [0..<length (locals (mg_manager s))] (s\<lparr>mg_exit := True\<rparr>)"

fun migrate_loop :: "(nat \<Rightarrow> nat) \<Rightarrow> nat \<Rightarrow> migration \<Rightarrow> migration option" where
  "migrate_loop threshold 0 s = Some s"
| "migrate_loop threshold (Suc k) s = do {
     s \<leftarrow> migrate_pass threshold s;
     if mg_exit s then Some s else migrate_loop threshold k s }"

definition migrate_init :: "manager \<Rightarrow> migration" where
  "migrate_init m = \<lparr> mg_manager = m, local_thread_num = map queue_size (locals m),
     mg_thread = None, mg_exit = False \<rparr>"

definition migrate_threshold :: "manager \<Rightarrow> nat \<Rightarrow> nat" where
  "migrate_threshold m i =
     (let total_threads = sum_list (map queue_size (locals m));
          average = total_threads div length (locals m);
          rest = total_threads - average * length (locals m)
      in if i < rest then average + 1 else average)"

text \<open>The whole function with at most \<open>fuel\<close> passes: \<open>Some (Some m')\<close> when the loop has ended,
  \<open>Some None\<close> when it is still running, \<open>None\<close> when it went wrong.\<close>

definition migrate_threads :: "nat \<Rightarrow> manager \<Rightarrow> manager option option" where
  "migrate_threads fuel m = do {
     s \<leftarrow> migrate_loop (migrate_threshold m) fuel (migrate_init m);
     Some (if mg_exit s then Some (mg_manager s) else None) }"

subsection \<open>The invariant of the loop\<close>

text \<open>A thread of processor \<open>i\<close> that the balancer leaves alone.\<close>

definition pinned :: "heap \<Rightarrow> processor_local \<Rightarrow> tptr \<Rightarrow> bool" where
  "pinned h l p \<longleftrightarrow> (case h p of None \<Rightarrow> False | Some t \<Rightarrow> \<not> movable t) \<or> this_thread l = Some p"

definition pinned_count :: "heap \<Rightarrow> processor_local \<Rightarrow> nat" where
  "pinned_count h l = length (filter (pinned h l) (concat (run_queue l)))"

text \<open>The threads are the same, and only the processor of movable queued ones may differ.\<close>

definition same_threads :: "heap \<Rightarrow> heap \<Rightarrow> bool" where
  "same_threads h0 h \<longleftrightarrow> (\<forall>p. case h0 p of
       None \<Rightarrow> h p = None
     | Some t \<Rightarrow> (\<exists>r. h p = Some (t\<lparr>running_on := r\<rparr>) \<and> (r = None \<longleftrightarrow> running_on t = None)
                   \<and> (\<not> movable t \<longrightarrow> r = running_on t)))"

definition migration_inv :: "manager \<Rightarrow> migration \<Rightarrow> bool" where
  "migration_inv m0 s \<longleftrightarrow> (let m = mg_manager s; h = m_heap m; ls = locals m in
     (case mg_thread s of
        None \<Rightarrow> queue_inv h ls
      | Some p \<Rightarrow> (\<exists>t. h p = Some t \<and> movable t \<and> running_on t \<noteq> None \<and> (\<forall>c<length ls. this_thread (ls ! c) \<noteq> Some p)
                    \<and> queue_inv (h(p \<mapsto> t\<lparr>running_on := None\<rparr>)) ls))
   \<and> current_inv h ls \<and> event_inv h (events m) \<and> zombie_inv {} h (event_processor m)
   \<and> owner_inv h (processes m) (next_ptr m) \<and> only_threads m0 m \<and> same_threads (m_heap m0) h
   \<and> local_thread_num s = map queue_size ls
   \<and> (\<forall>c<length ls. pinned_count h (ls ! c) = pinned_count (m_heap m0) (locals m0 ! c)))"

text \<open>The state on which \<open>Migration_Counts\<close> works.\<close>

definition counts_of :: "migration \<Rightarrow> count_state" where
  "counts_of s = (local_thread_num s, mg_thread s \<noteq> None, mg_exit s)"

lemma same_threads_refl: "same_threads h h"
  unfolding same_threads_def
proof (intro allI)
  fix p
  show "case h p of None \<Rightarrow> h p = None
     | Some t \<Rightarrow> \<exists>r. h p = Some (t\<lparr>running_on := r\<rparr>) \<and> (r = None \<longleftrightarrow> running_on t = None)
                   \<and> (\<not> movable t \<longrightarrow> r = running_on t)"
    by (cases "h p") (auto intro: exI [of _ "running_on (the (h p))"])
qed

lemma same_threads_move:
  assumes "same_threads h0 h" "h p = Some t" "movable t" "running_on t \<noteq> None"
  shows "same_threads h0 (h(p \<mapsto> t\<lparr>running_on := Some i\<rparr>))"
  unfolding same_threads_def
proof (intro allI)
  fix x
  have x: "case h0 x of None \<Rightarrow> h x = None
     | Some t \<Rightarrow> \<exists>r. h x = Some (t\<lparr>running_on := r\<rparr>) \<and> (r = None \<longleftrightarrow> running_on t = None)
                   \<and> (\<not> movable t \<longrightarrow> r = running_on t)"
    using assms(1) unfolding same_threads_def by blast
  show "case h0 x of None \<Rightarrow> (h(p \<mapsto> t\<lparr>running_on := Some i\<rparr>)) x = None
     | Some t' \<Rightarrow> \<exists>r. (h(p \<mapsto> t\<lparr>running_on := Some i\<rparr>)) x = Some (t'\<lparr>running_on := r\<rparr>)
                   \<and> (r = None \<longleftrightarrow> running_on t' = None) \<and> (\<not> movable t' \<longrightarrow> r = running_on t')"
  proof (cases "x = p")
    case True
    with x assms obtain t0 where t0: "h0 p = Some t0" by (cases "h0 p") auto
    with x True have "\<exists>r. h p = Some (t0\<lparr>running_on := r\<rparr>) \<and> (r = None \<longleftrightarrow> running_on t0 = None)" by auto
    then obtain r where r0: "h p = Some (t0\<lparr>running_on := r\<rparr>)" "r = None \<longleftrightarrow> running_on t0 = None"
      by (elim exE conjE)
    with assms(2) have r: "t = t0\<lparr>running_on := r\<rparr>" "r = None \<longleftrightarrow> running_on t0 = None" by simp_all
    with assms have "movable t0" "running_on t0 \<noteq> None" by auto
    with True t0 r show ?thesis by (auto intro!: exI [of _ "Some i"])
  next
    case False
    then have "(h(p \<mapsto> t\<lparr>running_on := Some i\<rparr>)) x = h x" by simp
    with x show ?thesis by (simp only:)
  qed
qed

lemma find_movable_spec:
  assumes "\<forall>p\<in>set ps. h p \<noteq> None"
  shows "find_movable h (this_thread l) ps = Some (List.find (\<lambda>p. \<not> pinned h l p) ps)"
  using assms
proof (induction ps)
  case (Cons p ps)
  then obtain t where t: "h p = Some t" by auto
  then have "pinned h l p \<longleftrightarrow> \<not> movable t \<or> Some p = this_thread l" by (auto simp: pinned_def)
  with Cons t show ?case by auto
qed simp

lemma find_movable_queues_spec:
  assumes "\<forall>q\<in>set qs. \<forall>p\<in>set q. h p \<noteq> None"
  shows "find_movable_queues h (this_thread l) qs = Some (List.find (\<lambda>p. \<not> pinned h l p) (concat qs))"
proof -
  have fa: "List.find P (xs @ ys) = (case List.find P xs of None \<Rightarrow> List.find P ys | Some x \<Rightarrow> Some x)"
    for P and xs ys :: "tptr list"
    by (induction xs) auto
  show ?thesis using assms
    by (induction qs) (auto simp: find_movable_spec fa split: option.splits)
qed

lemma queue_size_concat: "queue_size l = length (concat (run_queue l))"
  by (simp add: queue_size_def length_concat)

lemma find_movable_none:
  assumes "\<forall>q\<in>set (run_queue l). \<forall>p\<in>set q. h p \<noteq> None"
  shows "find_movable_queues h (this_thread l) (rev (run_queue l)) = Some None \<longleftrightarrow>
         \<not> pinned_count h l < queue_size l"
proof -
  have "find_movable_queues h (this_thread l) (rev (run_queue l)) = Some None
      \<longleftrightarrow> (\<forall>p\<in>set (concat (run_queue l)). pinned h l p)"
    using find_movable_queues_spec [of "rev (run_queue l)" h l] assms by (auto simp: find_None_iff)
  also have "\<dots> \<longleftrightarrow> \<not> pinned_count h l < queue_size l"
    unfolding pinned_count_def queue_size_concat
    using sum_length_filter_compl [of "pinned h l" "concat (run_queue l)"]
    by (auto simp: length_0_conv filter_empty_conv dest: sym)
  finally show ?thesis .
qed

lemma find_movable_some:
  assumes "\<forall>q\<in>set (run_queue l). \<forall>p\<in>set q. h p \<noteq> None"
    and "find_movable_queues h (this_thread l) (rev (run_queue l)) = Some (Some p)"
  shows "\<not> pinned h l p" and "\<exists>q\<in>set (run_queue l). p \<in> set q"
proof -
  have f: "List.find (\<lambda>p. \<not> pinned h l p) (concat (rev (run_queue l))) = Some p"
    using find_movable_queues_spec [of "rev (run_queue l)" h l] assms by auto
  then show "\<not> pinned h l p" by (auto simp: find_Some_iff)
  from f have "p \<in> set (concat (rev (run_queue l)))" by (auto simp only: find_Some_iff intro: nth_mem)
  then show "\<exists>q\<in>set (run_queue l). p \<in> set q" by auto
qed

lemma pinned_count_sum: "pinned_count h l = sum_list (map (\<lambda>q. length (filter (pinned h l) q)) (run_queue l))"
  by (simp add: pinned_count_def filter_concat length_concat comp_def)

lemma pinned_upd: "h p = Some t \<Longrightarrow> movable t' = movable t \<Longrightarrow> pinned (h(p \<mapsto> t')) l = pinned h l"
  by (auto simp: pinned_def fun_eq_iff)

lemma sum_list_map_update:
  fixes f :: "'a \<Rightarrow> nat"
  shows "j < length xs \<Longrightarrow> sum_list (map f (xs[j := y])) + f (xs ! j) = sum_list (map f xs) + f y"
  using sum_list_update [of j "map f xs" "f y"] member_le_sum_list [of "map f xs ! j" "map f xs"]
    nth_mem [of j "map f xs"]
  by (simp add: map_update)

lemma length_erase_all_in: "distinct q \<Longrightarrow> p \<in> set q \<Longrightarrow> length (erase_all q p) + 1 = length q"
  by (induction q) auto

lemma filter_erase_all: "\<not> P p \<Longrightarrow> filter P (erase_all q p) = filter P q"
  by (induction q) auto

text \<open>Taking thread \<open>p\<close> off its queue.\<close>

lemma migrate_take:
  assumes inv: "migration_inv m0 s" and none: "mg_thread s = None" and i: "i < length (locals (mg_manager s))"
    and h: "h = m_heap (mg_manager s)" and l: "l = locals (mg_manager s) ! i"
    and p: "p \<in> set q" "q \<in> set (run_queue l)" "\<not> pinned h l p"
  obtains l' where "erase_from_run_queue h p l = Some l'" "queue_size l' = queue_size l - 1" "0 < queue_size l"
    "migration_inv m0 (s\<lparr>mg_manager := set_local i l' (mg_manager s), mg_thread := Some p,
        local_thread_num := (local_thread_num s)[i := local_thread_num s ! i - 1], mg_exit := False\<rparr>)"
proof -
  let ?m = "mg_manager s" and ?ls = "locals (mg_manager s)"
  from inv none have q: "queue_inv h ?ls" and cu: "current_inv h ?ls" by (simp_all add: migration_inv_def Let_def h)
  from p(2) obtain j where j: "j < 5" "run_queue l ! j = q"
    using queue_invD(1) [OF q i] by (metis in_set_conv_nth l)
  from p(1) j queue_invD(3) [OF q i j(1), of p] obtain t where t: "h p = Some t" "running_on t = Some i"
    "nice_to_index (nice t) = j" by (auto simp: l)
  have lenq: "length (run_queue l) = 5" using queue_invD(1) [OF q i] by (simp add: l)
  have dq: "distinct q" using queue_invD(2) [OF q i j(1)] j(2) by (simp add: l)
  have mv: "movable t" "this_thread l \<noteq> Some p" using p(3) t by (auto simp: pinned_def)
  define l' where "l' = l\<lparr>run_queue := (run_queue l)[j := erase_all q p]\<rparr>"
  have e: "erase_from_run_queue h p l = Some l'"
    using t j lenq by (simp add: erase_from_run_queue_def queue_update_Some l'_def)
  have sz: "queue_size l' + 1 = queue_size l"
    using sum_list_map_update [of j "run_queue l" length "erase_all q p"] length_erase_all_in [OF dq p(1)] j lenq
    by (simp add: queue_size_def l'_def)
  have q': "queue_inv (h(p \<mapsto> t\<lparr>running_on := None\<rparr>)) (?ls[i := l'])"
    by (rule queue_inv_dequeue [OF q t(1,2)]) (simp add: l'_def l t(3) flip: j(2))
  have notcur: "this_thread (?ls[i := l'] ! c) \<noteq> Some p" if "c < length ?ls" for c
    using cu that t mv(2) by (cases "c = i") (auto simp: current_inv_def l'_def l)
  have "current_inv h (?ls[i := l'])" by (rule current_inv_local [OF cu]) (simp add: l'_def l)
  moreover have "only_threads m0 (set_local i l' ?m)"
  proof -
    have "map this_thread (?ls[i := l']) = map this_thread ?ls"
      using i by (auto simp: list_eq_iff_nth_eq nth_list_update l'_def l)
    then have "only_threads ?m (set_local i l' ?m)"
      unfolding only_threads_def set_local_def by (intro exI [of _ "m_heap ?m"] exI [of _ "?ls[i := l']"]) simp
    with inv show ?thesis by (auto simp: migration_inv_def Let_def intro: only_threads_trans)
  qed
  moreover have "(local_thread_num s)[i := local_thread_num s ! i - 1] = map queue_size (?ls[i := l'])"
  proof -
    have n: "local_thread_num s = map queue_size ?ls" using inv by (simp add: migration_inv_def Let_def)
    have "queue_size l' = queue_size l - 1" using sz by simp
    then show ?thesis using i by (simp add: n map_update l)
  qed
  moreover have "pinned_count h (?ls[i := l'] ! c) = pinned_count h (?ls ! c)" if "c < length ?ls" for c
  proof (cases "c = i")
    case True
    have "pinned h l' = pinned h l" by (simp add: pinned_def l'_def fun_eq_iff)
    with True i j lenq show ?thesis
      using sum_list_map_update [of j "run_queue l" "\<lambda>q. length (filter (pinned h l) q)" "erase_all q p"]
        filter_erase_all [of "pinned h l" p q, OF p(3)]
      by (simp add: pinned_count_sum l [symmetric]) (simp add: l'_def)
  qed simp
  ultimately have "migration_inv m0 (s\<lparr>mg_manager := set_local i l' (mg_manager s), mg_thread := Some p,
        local_thread_num := (local_thread_num s)[i := local_thread_num s ! i - 1], mg_exit := False\<rparr>)"
    using inv q' t mv(1) notcur
    unfolding migration_inv_def Let_def set_local_def h by auto
  with e sz that show thesis by simp
qed

text \<open>Giving the thread in hand to processor \<open>i\<close>.\<close>

lemma migrate_give:
  assumes inv: "migration_inv m0 s" and some: "mg_thread s = Some p" and i: "i < length (locals (mg_manager s))"
    and h: "h = m_heap (mg_manager s)" and l: "l = locals (mg_manager s) ! i" and t: "h p = Some t"
    and h': "h' = h(p \<mapsto> t\<lparr>running_on := Some i\<rparr>)"
  obtains l' where "push_to_run_queue h' p l = Some l'" "queue_size l' = queue_size l + 1"
    "migration_inv m0 (s\<lparr>mg_manager := set_local i l' (put_thread p (t\<lparr>running_on := Some i\<rparr>) (mg_manager s)),
        mg_thread := None, local_thread_num := (local_thread_num s)[i := local_thread_num s ! i + 1]\<rparr>)"
proof -
  let ?m = "mg_manager s" and ?ls = "locals (mg_manager s)" and ?h = "h(p \<mapsto> t\<lparr>running_on := None\<rparr>)"
  let ?t = "t\<lparr>running_on := Some i\<rparr>"
  from inv some t have q: "queue_inv ?h ?ls" and mv: "movable t" "running_on t \<noteq> None"
    and nc: "\<forall>c<length ?ls. this_thread (?ls ! c) \<noteq> Some p"
    and cu: "current_inv h ?ls" and zo: "zombie_inv {} h (event_processor ?m)"
    and ev: "event_inv h (events ?m)" and ow: "owner_inv h (processes ?m) (next_ptr ?m)"
    by (auto simp: migration_inv_def Let_def h)
  have hp: "?h p = Some (t\<lparr>running_on := None\<rparr>)" by simp
  have j5: "nice_to_index (nice t) < 5" using nice_to_index_less [OF queue_inv_nice [OF q hp]] by simp
  have lenq: "length (run_queue l) = 5" using queue_invD(1) [OF q i] by (simp add: l)
  define j where "j = nice_to_index (nice t)"
  define l' where "l' = l\<lparr>run_queue := (run_queue l)[j := run_queue l ! j @ [p]]\<rparr>"
  have e: "push_to_run_queue h' p l = Some l'"
    using j5 lenq by (simp add: push_to_run_queue_def queue_update_Some l'_def j_def h')
  have jl: "j < length (run_queue l)" using j5 lenq by (simp add: j_def)
  have sz: "queue_size l' = queue_size l + 1"
    using sum_list_map_update [OF jl, of length "run_queue l ! j @ [p]"]
    by (simp add: queue_size_def l'_def)
  have "queue_inv (?h(p \<mapsto> (t\<lparr>running_on := None\<rparr>)\<lparr>running_on := Some i\<rparr>)) (?ls[i := l'])"
    by (rule queue_inv_enqueue [OF q i hp]) (simp_all add: l'_def l j_def)
  then have q': "queue_inv h' (?ls[i := l'])" by (simp add: h')
  have nz: "\<not> zombie t" using zo t mv(2) by (auto simp: zombie_inv_def)
  have cu': "current_inv h' (?ls[i := l'])"
  proof (rule current_inv_local)
    show "current_inv h' ?ls" using cu nc by (auto simp: current_inv_def h')
  qed (simp add: l'_def l)
  have rest: "event_inv h' (events ?m)" "zombie_inv {} h' (event_processor ?m)" "owner_inv h' (processes ?m) (next_ptr ?m)"
    using ev zo ow nz t unfolding h' by (auto intro!: event_inv_upd [where h = h, OF t] zombie_inv_upd [where h = h, OF t]
        owner_inv_upd [where h = h, OF t])
  have only: "only_threads m0 (set_local i l' (put_thread p ?t ?m))"
  proof -
    have "map this_thread (?ls[i := l']) = map this_thread ?ls"
      using i by (auto simp: list_eq_iff_nth_eq nth_list_update l'_def l)
    then have "only_threads ?m (set_local i l' (put_thread p ?t ?m))"
      unfolding only_threads_def set_local_def
      by (intro exI [of _ "(m_heap ?m)(p \<mapsto> ?t)"] exI [of _ "?ls[i := l']"]) simp
    with inv show ?thesis by (auto simp: migration_inv_def Let_def intro: only_threads_trans)
  qed
  have num: "(local_thread_num s)[i := local_thread_num s ! i + 1] = map queue_size (?ls[i := l'])"
  proof -
    have n: "local_thread_num s = map queue_size ?ls" using inv by (simp add: migration_inv_def Let_def)
    show ?thesis using i sz by (simp add: n map_update l)
  qed
  have ph: "pinned h' x = pinned h x" for x unfolding h' using t by (intro pinned_upd) simp_all
  have pc: "pinned_count h' (?ls[i := l'] ! c) = pinned_count h (?ls ! c)" if "c < length ?ls" for c
  proof (cases "c = i")
    case True
    have "pinned h l' = pinned h l" by (simp add: pinned_def l'_def fun_eq_iff)
    moreover have "\<not> pinned h l p" using t mv nc i by (auto simp: pinned_def l)
    ultimately show ?thesis
      using True i sum_list_map_update [OF jl, of "\<lambda>q. length (filter (pinned h l) q)" "run_queue l ! j @ [p]"]
      by (simp add: pinned_count_sum ph l [symmetric]) (simp add: l'_def)
  qed (simp add: pinned_count_sum ph)
  have same: "same_threads (m_heap m0) h'"
    unfolding h' by (rule same_threads_move [where h = h, OF _ t mv]) (use inv in \<open>simp add: migration_inv_def Let_def h\<close>)
  have "migration_inv m0 (s\<lparr>mg_manager := set_local i l' (put_thread p ?t (mg_manager s)),
        mg_thread := None, local_thread_num := (local_thread_num s)[i := local_thread_num s ! i + 1]\<rparr>)"
    using inv q' cu' rest only num pc same unfolding migration_inv_def Let_def set_local_def h' h by auto
  with e sz that show thesis by simp
qed

lemma migration_inv_live:
  assumes inv: "migration_inv m0 s" and i: "i < length (locals (mg_manager s))"
  shows "\<forall>q\<in>set (run_queue (locals (mg_manager s) ! i)). \<forall>p\<in>set q. m_heap (mg_manager s) p \<noteq> None"
proof (intro ballI)
  fix q x assume q: "q \<in> set (run_queue (locals (mg_manager s) ! i))" and x: "x \<in> set q"
  from inv obtain h where h: "queue_inv h (locals (mg_manager s))" "\<And>x. h x \<noteq> None \<Longrightarrow> m_heap (mg_manager s) x \<noteq> None"
  proof (cases "mg_thread s")
    case (Some p)
    with inv obtain t where t: "m_heap (mg_manager s) p = Some t"
      "queue_inv ((m_heap (mg_manager s))(p \<mapsto> t\<lparr>running_on := None\<rparr>)) (locals (mg_manager s))"
      by (auto simp: migration_inv_def Let_def)
    then show thesis by (intro that [OF t(2)]) (auto split: if_splits)
  qed (auto simp: migration_inv_def Let_def intro: that)
  from q obtain j where "j < 5" "q = run_queue (locals (mg_manager s) ! i) ! j"
    using queue_invD(1) [OF h(1) i] by (auto simp: in_set_conv_nth)
  with x queue_invD(3) [OF h(1) i, of j x] h(2) show "m_heap (mg_manager s) x \<noteq> None" by auto
qed

abbreviation pinned_at :: "manager \<Rightarrow> nat \<Rightarrow> nat" where
  "pinned_at m i \<equiv> pinned_count (m_heap m) (locals m ! i)"

lemma migration_inv_length: "migration_inv m0 s \<Longrightarrow> length (locals (mg_manager s)) = length (locals m0)"
  by (auto simp: migration_inv_def Let_def dest: only_threadsD(8))

lemma migrate_step_counts:
  assumes inv: "migration_inv m0 s" and i: "i < length (locals m0)"
  shows "\<exists>s'. migrate_step thr i s = Some s' \<and> migration_inv m0 s'
     \<and> counts_of s' = count_step thr (pinned_at m0) i (counts_of s)"
proof -
  let ?m = "mg_manager s" let ?h = "m_heap ?m" and ?l = "locals (mg_manager s) ! i"
  have i': "i < length (locals ?m)" using i migration_inv_length [OF inv] by simp
  have gl: "get_local ?m i = Some ?l" using i' by (simp add: get_local_def)
  have num: "local_thread_num s ! i = queue_size ?l" and pin: "pinned_count ?h ?l = pinned_at m0 i"
    using inv i' by (simp_all add: migration_inv_def Let_def)
  note live = migration_inv_live [OF inv i']
  show ?thesis
  proof (cases "mg_thread s")
    case None
    show ?thesis
    proof (cases "local_thread_num s ! i < thr i")
      case True
      then show ?thesis using inv None gl by (simp add: migrate_step_def counts_of_def count_step_def Let_def)
    next
      case False
      show ?thesis
      proof (cases "find_movable_queues ?h (this_thread ?l) (rev (run_queue ?l))")
        case None
        then show ?thesis using live find_movable_queues_spec [of "rev (run_queue ?l)" ?h ?l] by simp
      next
        case (Some r)
        show ?thesis
        proof (cases r)
          case None
          with Some find_movable_none [OF live] have "\<not> pinned_at m0 i < queue_size ?l" using pin by simp
          with None Some False \<open>mg_thread s = None\<close> inv gl num show ?thesis
            by (simp add: migrate_step_def counts_of_def count_step_def Let_def)
        next
          fix p assume r: "r = Some p"
          note fs = find_movable_some [OF live Some [unfolded r]]
          from fs(2) obtain q where q: "p \<in> set q" "q \<in> set (run_queue ?l)" by blast
          obtain l' where l': "erase_from_run_queue ?h p ?l = Some l'"
            "migration_inv m0 (s\<lparr>mg_manager := set_local i l' ?m, mg_thread := Some p,
              local_thread_num := (local_thread_num s)[i := local_thread_num s ! i - 1], mg_exit := False\<rparr>)"
            using migrate_take [OF inv None i' refl refl q fs(1)] by metis
          have "pinned_at m0 i < queue_size ?l" using find_movable_none [OF live] Some r pin by simp
          with l' None Some r False gl num show ?thesis
            by (simp add: migrate_step_def counts_of_def count_step_def Let_def)
        qed
      qed
    qed
  next
    case (Some p)
    show ?thesis
    proof (cases "thr i \<le> local_thread_num s ! i")
      case True
      then show ?thesis using inv Some gl by (simp add: migrate_step_def counts_of_def count_step_def Let_def)
    next
      case False
      from inv Some obtain t where t: "?h p = Some t" by (auto simp: migration_inv_def Let_def)
      obtain l' where l': "push_to_run_queue (?h(p \<mapsto> t\<lparr>running_on := Some i\<rparr>)) p ?l = Some l'"
        "migration_inv m0 (s\<lparr>mg_manager := set_local i l' (put_thread p (t\<lparr>running_on := Some i\<rparr>) ?m),
          mg_thread := None, local_thread_num := (local_thread_num s)[i := local_thread_num s ! i + 1]\<rparr>)"
        using migrate_give [OF inv Some i' refl refl t refl] by metis
      with Some False gl t show ?thesis
        by (simp add: migrate_step_def counts_of_def count_step_def Let_def)
    qed
  qed
qed

lemma migrate_run_counts:
  assumes "migration_inv m0 s" "set is \<subseteq> {..<length (locals m0)}"
  shows "\<exists>s'. migrate_run thr is s = Some s' \<and> migration_inv m0 s'
     \<and> counts_of s' = count_run thr (pinned_at m0) is (counts_of s)"
  using assms
proof (induction "is" arbitrary: s)
  case (Cons i js)
  from Cons.prems have "i < length (locals m0)" "set js \<subseteq> {..<length (locals m0)}" by auto
  with migrate_step_counts [OF Cons.prems(1), of i thr] Cons.IH show ?case
    by (fastforce simp: count_run_Cons)
qed simp

lemma migration_inv_exit: "migration_inv m0 (s\<lparr>mg_exit := b\<rparr>) = migration_inv m0 s"
  by (simp add: migration_inv_def)

lemma migrate_pass_counts:
  assumes inv: "migration_inv m0 s"
  shows "\<exists>s'. migrate_pass thr s = Some s' \<and> migration_inv m0 s'
     \<and> counts_of s' = count_pass thr (pinned_at m0) (counts_of s)"
proof -
  have n: "local_thread_num s = map queue_size (locals (mg_manager s))"
    using inv by (simp add: migration_inv_def Let_def)
  have "set [0..<length (locals m0)] \<subseteq> {..<length (locals m0)}" by auto
  from migrate_run_counts [of m0 "s\<lparr>mg_exit := True\<rparr>", OF _ this, of thr] inv
  show ?thesis
    by (auto simp: migrate_pass_def migration_inv_exit migration_inv_length [OF inv] counts_of_def count_pass_def n)
qed

lemma migrate_loop_counts:
  assumes "migration_inv m0 s"
  shows "\<exists>s'. migrate_loop thr k s = Some s' \<and> migration_inv m0 s'
     \<and> counts_of s' = count_loop thr (pinned_at m0) k (counts_of s)"
  using assms
proof (induction k arbitrary: s)
  case (Suc k)
  from migrate_pass_counts [OF Suc.prems, of thr] obtain s1 where s1: "migrate_pass thr s = Some s1"
    "migration_inv m0 s1" "counts_of s1 = count_pass thr (pinned_at m0) (counts_of s)" by blast
  have ex: "snd (snd (counts_of s1)) = mg_exit s1" by (simp add: counts_of_def)
  show ?case
  proof (cases "mg_exit s1")
    case True
    then show ?thesis using s1 ex by (simp add: Let_def)
  next
    case False
    with Suc.IH [OF s1(2)] s1 ex show ?thesis by (simp add: Let_def)
  qed
qed simp

lemma migration_inv_init:
  assumes "manager_inv m"
  shows "migration_inv m (migrate_init m)"
  using assms by (simp add: migration_inv_def migrate_init_def manager_inv_def Let_def only_threads_refl same_threads_refl)

subsection \<open>Results\<close>

lemma migrate_total:
  assumes "locals m \<noteq> []"
  shows "count_total (migrate_threshold m) (map queue_size (locals m)) False"
proof -
  let ?n = "length (locals m)" and ?cs = "map queue_size (locals m)"
  have "(\<Sum>i\<in>{..<?n}. ?cs ! i) = sum_list ?cs"
    by (simp add: sum_list_sum_nth atLeast0LessThan)
  moreover have "(\<Sum>i\<in>{..<?n}. migrate_threshold m i) = sum_list ?cs"
    unfolding migrate_threshold_def Let_def using sum_thresholds [of ?n "sum_list ?cs"] assms by simp
  ultimately show ?thesis by (simp add: count_total_def)
qed

lemma counts_of_init: "counts_of (migrate_init m) = (map queue_size (locals m), False, False)"
  by (simp add: counts_of_def migrate_init_def)

text \<open>The number of passes is what \<open>Migration_Counts\<close> says.\<close>

lemma migrate_threads_counts:
  assumes "manager_inv m"
  obtains s where "migrate_loop (migrate_threshold m) fuel (migrate_init m) = Some s" "migration_inv m s"
    "counts_of s = count_loop (migrate_threshold m) (pinned_at m) fuel (map queue_size (locals m), False, False)"
    "migrate_threads fuel m = Some (if mg_exit s then Some (mg_manager s) else None)"
  using migrate_loop_counts [OF migration_inv_init [OF assms], of "migrate_threshold m" fuel]
  by (auto simp: counts_of_init migrate_threads_def)

lemma migrate_threads_inv:
  assumes inv: "manager_inv m" and ne: "locals m \<noteq> []" and r: "migrate_threads fuel m = Some (Some m')"
  shows "manager_inv m' \<and> only_threads m m' \<and> same_threads (m_heap m) (m_heap m')"
proof -
  obtain s where s: "migration_inv m s"
    "counts_of s = count_loop (migrate_threshold m) (pinned_at m) fuel (map queue_size (locals m), False, False)"
    "migrate_threads fuel m = Some (if mg_exit s then Some (mg_manager s) else None)"
    using migrate_threads_counts [OF inv] by metis
  with r have ex: "mg_exit s" and m': "m' = mg_manager s" by (auto split: if_splits)
  have "mg_thread s = None"
    using count_loop_exit [OF migrate_total [OF ne], of "pinned_at m" fuel "local_thread_num s" "mg_thread s \<noteq> None"]
      s(2) ex by (simp add: counts_of_def)
  with s(1) show ?thesis by (simp add: m' migration_inv_def manager_inv_def Let_def)
qed

text \<open>C11. Balancing is safe: from a consistent manager, \<open>migrate_threads\<close> never touches a dangling pointer or
  an index out of range, whatever the number of passes; and when its loop ends, the manager is
  consistent again, nothing but the queues and the processors of threads has changed, no thread is lost
  or duplicated, and no pinned thread was moved.\<close>

theorem migrate_threads_safe:
  assumes "manager_inv m" "locals m \<noteq> []"
  shows "migrate_threads fuel m \<noteq> None
     \<and> (\<forall>m'. migrate_threads fuel m = Some (Some m') \<longrightarrow>
          manager_inv m' \<and> only_threads m m' \<and> same_threads (m_heap m) (m_heap m'))"
proof -
  have "migrate_threads fuel m \<noteq> None" using migrate_threads_counts [OF assms(1)] by (metis option.distinct(1))
  with migrate_threads_inv [OF assms] show ?thesis by blast
qed

text \<open>C12. Balancing ends: when no processor has more pinned threads than its share (the average number of
  queued threads, rounded up for the first processors), the loop of \<open>migrate_threads\<close> ends after finitely
  many passes.\<close>

theorem migrate_threads_terminates:
  assumes "manager_inv m" "locals m \<noteq> []"
    and "\<forall>c<length (locals m). pinned_count (m_heap m) (locals m ! c) \<le> migrate_threshold m c"
  shows "\<exists>fuel m'. migrate_threads fuel m = Some (Some m')"
proof -
  have "\<forall>i<length (map queue_size (locals m)). pinned_at m i \<le> migrate_threshold m i" using assms(3) by simp
  from count_loop_terminates [OF migrate_total [OF assms(2)] this, of False] obtain k where
    k: "snd (snd (count_loop (migrate_threshold m) (pinned_at m) k (map queue_size (locals m), False, False)))" ..
  obtain s where "counts_of s = count_loop (migrate_threshold m) (pinned_at m) k (map queue_size (locals m), False, False)"
    "migrate_threads k m = Some (if mg_exit s then Some (mg_manager s) else None)"
    using migrate_threads_counts [OF assms(1)] by metis
  moreover have "mg_exit s = snd (snd (counts_of s))" by (simp add: counts_of_def)
  ultimately show ?thesis using k by (intro exI [of _ k]) auto
qed

subsection \<open>Concrete managers\<close>

text \<open>A manager with the given run queues, all threads at nice 0 and of process 0; \<open>fixed\<close> are the threads
  that are not movable.\<close>

definition sample_thread :: "nat list \<Rightarrow> nat \<Rightarrow> nat \<Rightarrow> thread" where
  "sample_thread fixed c p = (new_thread p 0 zero_context)\<lparr>running_on := Some c, movable := p \<notin> set fixed\<rparr>"

definition sample_cpu_local :: "nat \<times> nat list \<Rightarrow> processor_local" where
  "sample_cpu_local q = \<lparr> this_thread = Some (fst q), run_queue = [[], [], snd q, [], []], lapic_id = 0 \<rparr>"

definition sample_manager :: "nat list \<Rightarrow> (nat \<times> nat list) list \<Rightarrow> manager" where
  "sample_manager fixed qs = (empty_manager (\<lambda>_. sample_cpu) (\<lambda>_. 0))\<lparr>
     processes := [Some \<lparr> p_id = 0, p_pml4 = 0, p_mutexes = [], p_threads = map Some [0..<length (concat (map snd qs))] \<rparr>],
     locals := map sample_cpu_local qs,
     m_heap := map_of (concat (map (\<lambda>(c, q). map (\<lambda>p. (p, sample_thread fixed c p)) (snd q)) (enumerate 0 qs))),
     next_ptr := length (concat (map snd qs)) \<rparr>"

lemma sample_heap_iff:
  assumes "distinct (concat (map snd qs))"
  shows "m_heap (sample_manager fixed qs) p = Some t \<longleftrightarrow>
    (\<exists>c<length qs. p \<in> set (snd (qs ! c)) \<and> t = sample_thread fixed c p)"
proof -
  let ?xs = "concat (map (\<lambda>(c, q). map (\<lambda>p. (p, sample_thread fixed c p)) (snd q)) (enumerate 0 qs))"
  have "map fst ?xs = concat (map (\<lambda>(c, q). snd q) (enumerate 0 qs))"
    by (simp add: map_concat comp_def case_prod_unfold)
  also have "map (\<lambda>(c, q). snd q) (enumerate 0 qs) = map snd (map snd (enumerate 0 qs))"
    unfolding map_map by (rule map_cong) auto
  finally have "map fst ?xs = concat (map snd qs)" by (simp only: map_snd_enumerate)
  then have "map_of ?xs p = Some t \<longleftrightarrow> (p, t) \<in> set ?xs" using assms by (simp add: map_of_eq_Some_iff)
  also have "\<dots> \<longleftrightarrow> (\<exists>c<length qs. p \<in> set (snd (qs ! c)) \<and> t = sample_thread fixed c p)"
  proof -
    have e: "set (enumerate 0 qs) = (\<lambda>c. (c, qs ! c)) ` {..<length qs}" by (auto simp: in_set_enumerate_eq)
    have "set ?xs = (\<Union>x\<in>set (enumerate 0 qs). (\<lambda>p. (p, sample_thread fixed (fst x) p)) ` set (snd (snd x)))"
      by (simp add: case_prod_unfold)
    then show ?thesis unfolding e by auto
  qed
  finally show ?thesis by (simp add: sample_manager_def)
qed

lemma sample_manager_inv:
  assumes d: "distinct (concat (map snd qs))"
    and s: "set (concat (map snd qs)) = {..<length (concat (map snd qs))}"
    and cur: "\<forall>q\<in>set qs. fst q \<in> set (snd q)"
  shows "manager_inv (sample_manager fixed qs)"
proof -
  let ?m = "sample_manager fixed qs" and ?N = "length (concat (map snd qs))"
  note hp = sample_heap_iff [OF d, of fixed]
  have ls: "locals ?m = map sample_cpu_local qs" by (simp add: sample_manager_def)
  have nice0: "nice (sample_thread fixed c p) = 0" "running_on (sample_thread fixed c p) = Some c"
    "\<not> zombie (sample_thread fixed c p)" "t_events (sample_thread fixed c p) = []"
    "t_process (sample_thread fixed c p) = 0" "t_id (sample_thread fixed c p) = p" for c p
    by (simp_all add: sample_thread_def)
  have idx: "nice_to_index 0 = 2" by (simp add: nice_to_index_valid is_valid_nice_def max_nice_def)
  have q5: "run_queue (locals ?m ! c) ! j = (if j = 2 then snd (qs ! c) else [])" if "c < length qs" "j < 5" for c j
  proof -
    have "j = 0 \<or> j = 1 \<or> j = 2 \<or> j = 3 \<or> j = 4" using that(2) by auto
    with that(1) show ?thesis by (auto simp: ls sample_cpu_local_def)
  qed
  have dq: "distinct (snd (qs ! c))" if "c < length qs" for c
    using d that by (auto simp: distinct_concat_iff)
  have "queue_inv (m_heap ?m) (locals ?m)"
    unfolding queue_inv_def
  proof (intro conjI allI impI)
    fix c assume "c < length (locals ?m)"
    then show "length (run_queue (locals ?m ! c)) = 5" by (simp add: ls sample_cpu_local_def)
  next
    fix c j assume "c < length (locals ?m)" "j < (5 :: nat)"
    then have "c < length qs" "j < 5" by (simp_all add: ls)
    then show "distinct (run_queue (locals ?m ! c) ! j)" using dq by (simp only: q5 split: if_split) simp
  next
    fix c j p assume "c < length (locals ?m)" "j < (5 :: nat)"
    then have cj: "c < length qs" "j < 5" by (simp_all add: ls)
    show "p \<in> set (run_queue (locals ?m ! c) ! j) \<longleftrightarrow>
      (\<exists>t. m_heap ?m p = Some t \<and> running_on t = Some c \<and> nice_to_index (nice t) = j)"
      unfolding q5 [OF cj] hp using cj(1) by (auto simp: nice0 idx)
  next
    fix p t assume "m_heap ?m p = Some t"
    then show "is_valid_nice (nice t)" by (auto simp: hp nice0 is_valid_nice_def max_nice_def)
  next
    fix p t c assume "m_heap ?m p = Some t" "running_on t = Some c"
    then show "c < length (locals ?m)" by (auto simp: hp nice0 ls)
  qed
  moreover have "current_inv (m_heap ?m) (locals ?m)"
    unfolding current_inv_def
  proof (intro allI impI)
    fix c p assume "c < length (locals ?m)" "this_thread (locals ?m ! c) = Some p"
    then have "c < length qs" "p = fst (qs ! c)" by (simp_all add: ls sample_cpu_local_def)
    moreover have "fst (qs ! c) \<in> set (snd (qs ! c))" using cur \<open>c < length qs\<close> by simp
    ultimately have "m_heap ?m p = Some (sample_thread fixed c p)" unfolding hp by blast
    then show "\<exists>t. m_heap ?m p = Some t \<and> running_on t = Some c" by (simp add: nice0)
  qed
  moreover have "event_inv (m_heap ?m) (events ?m)"
  proof -
    have "\<not> wants (m_heap ?m) e p" for e p by (auto simp: wants_def hp nice0)
    moreover have "\<not> waits (events ?m) e p" for e p
      by (simp add: waits_def sample_manager_def empty_manager_def dm_get_def)
    ultimately show ?thesis by (simp add: event_inv_def)
  qed
  moreover have "zombie_inv {} (m_heap ?m) (event_processor ?m)"
  proof -
    have "event_processor ?m = None" by (simp add: sample_manager_def empty_manager_def)
    then show ?thesis by (auto simp: zombie_inv_def hp nice0)
  qed
  moreover have "owner_inv (m_heap ?m) (processes ?m) (next_ptr ?m)"
  proof -
    have mem: "(\<exists>c<length qs. p \<in> set (snd (qs ! c))) \<longleftrightarrow> p < ?N" for p
    proof -
      have "(\<exists>c<length qs. p \<in> set (snd (qs ! c))) \<longleftrightarrow> p \<in> set (concat (map snd qs))"
      proof
        assume "\<exists>c<length qs. p \<in> set (snd (qs ! c))"
        then show "p \<in> set (concat (map snd qs))" by (auto intro!: bexI [OF _ nth_mem])
      next
        assume "p \<in> set (concat (map snd qs))"
        then obtain q where "q \<in> set qs" "p \<in> set (snd q)" by auto
        then show "\<exists>c<length qs. p \<in> set (snd (qs ! c))" by (auto simp: in_set_conv_nth)
      qed
      then show ?thesis unfolding s by simp
    qed
    have o: "owns (processes ?m) pid tid p \<longleftrightarrow> pid = 0 \<and> tid = p \<and> p < ?N" for pid tid p
      by (auto simp: owns_def sample_manager_def dm_get_def split: if_splits)
    have n: "named (m_heap ?m) pid tid p \<longleftrightarrow> pid = 0 \<and> tid = p \<and> p < ?N" for pid tid p
    proof -
      have "named (m_heap ?m) pid tid p \<longleftrightarrow> (\<exists>c<length qs. p \<in> set (snd (qs ! c))) \<and> pid = 0 \<and> tid = p"
        unfolding named_def hp by (auto simp: nice0)
      then show ?thesis unfolding mem by blast
    qed
    have "m_heap ?m p \<noteq> None \<Longrightarrow> p < ?N" for p using mem [of p] by (auto simp: hp)
    moreover have "next_ptr ?m = ?N" by (simp add: sample_manager_def)
    ultimately show ?thesis unfolding owner_inv_def o n by simp
  qed
  ultimately show ?thesis by (simp add: manager_inv_def)
qed

lemma sample_sizes:
  "map queue_size (locals (sample_manager fixed qs)) = map (\<lambda>q. length (snd q)) qs"
  by (simp add: sample_manager_def queue_size_def sample_cpu_local_def comp_def)

lemma sample_pinned:
  assumes d: "distinct (concat (map snd qs))" and c: "c < length qs"
  shows "pinned_at (sample_manager fixed qs) c
       = length (filter (\<lambda>p. p \<in> set fixed \<or> p = fst (qs ! c)) (snd (qs ! c)))"
proof -
  have l: "locals (sample_manager fixed qs) ! c = sample_cpu_local (qs ! c)"
    using c by (simp add: sample_manager_def)
  have "pinned (m_heap (sample_manager fixed qs)) (sample_cpu_local (qs ! c)) p
      \<longleftrightarrow> p \<in> set fixed \<or> p = fst (qs ! c)" if p: "p \<in> set (snd (qs ! c))" for p
  proof -
    have "m_heap (sample_manager fixed qs) p = Some (sample_thread fixed c p)"
      unfolding sample_heap_iff [OF d] using c p by blast
    then show ?thesis by (auto simp: pinned_def sample_cpu_local_def sample_thread_def)
  qed
  then show ?thesis
    unfolding l pinned_count_def by (simp add: sample_cpu_local_def cong: filter_cong)
qed

text \<open>Four processors. Threads 0, 2, 3 and 5 are pinned (the idle threads); the current threads are
  0, 2, 3 and 6.\<close>

definition livelock_manager :: manager where
  "livelock_manager = sample_manager [0, 2, 3, 5] [(0, [0, 1]), (2, [2]), (3, [3, 4]), (6, [5, 6])]"

lemma livelock_inv: "manager_inv livelock_manager"
  unfolding livelock_manager_def by (rule sample_manager_inv) (auto simp: numeral_eq_Suc lessThan_Suc)

lemma livelock_counts:
  "map queue_size (locals livelock_manager) = [2, 1, 2, 2]"
  "migrate_threshold livelock_manager 0 = 2" "migrate_threshold livelock_manager 1 = 2"
  "migrate_threshold livelock_manager 2 = 2" "migrate_threshold livelock_manager 3 = 1"
  "pinned_at livelock_manager 0 = 1" "pinned_at livelock_manager 1 = 1"
  "pinned_at livelock_manager 2 = 1" "pinned_at livelock_manager 3 = 2"
proof -
  show sz: "map queue_size (locals livelock_manager) = [2, 1, 2, 2]"
    unfolding livelock_manager_def by (simp add: sample_sizes)
  have "length (locals livelock_manager) = 4" by (simp add: livelock_manager_def sample_manager_def)
  with sz show "migrate_threshold livelock_manager 0 = 2" "migrate_threshold livelock_manager 1 = 2"
    "migrate_threshold livelock_manager 2 = 2" "migrate_threshold livelock_manager 3 = 1"
    by (simp_all add: migrate_threshold_def Let_def)
  show "pinned_at livelock_manager 0 = 1" "pinned_at livelock_manager 1 = 1"
    "pinned_at livelock_manager 2 = 1" "pinned_at livelock_manager 3 = 2"
    unfolding livelock_manager_def by (subst sample_pinned; simp)+
qed

lemma livelock_cycle:
  fixes thr imm :: "nat \<Rightarrow> nat"
  assumes "thr 0 = 2" "thr (Suc 0) = 2" "thr 2 = 2" "thr 3 = 1" "imm 0 = 1" "imm (Suc 0) = 1" "imm 2 = 1" "imm 3 = 2"
  shows "count_pass thr imm ([2, 1, 2, 2], False, ex) = ([1, 2, 1, 2], True, False)"
    and "count_pass thr imm ([1, 2, 1, 2], True, ex) = ([2, 1, 2, 2], False, False)"
  using assms by (simp_all add: count_pass_def count_run_def count_step_def upt_rec numeral_eq_Suc)

lemma livelock_loop:
  fixes thr imm :: "nat \<Rightarrow> nat"
  assumes "thr 0 = 2" "thr (Suc 0) = 2" "thr 2 = 2" "thr 3 = 1" "imm 0 = 1" "imm (Suc 0) = 1" "imm 2 = 1" "imm 3 = 2"
  shows "\<not> snd (snd (count_loop thr imm k ([2, 1, 2, 2], False, False)))
       \<and> \<not> snd (snd (count_loop thr imm k ([1, 2, 1, 2], True, False)))"
proof (induction k)
  case (Suc k)
  then show ?case unfolding count_loop.simps Let_def livelock_cycle [OF assms] by simp
qed simp

text \<open>C13. Balancing need not end: there is a consistent manager with four processors on which the loop of
  \<open>migrate_threads\<close> runs forever. One processor holds two threads that may not be moved, one more
  than its share; the other three, one thread short, keep passing two movable threads around.\<close>

theorem migrate_threads_livelock:
  "manager_inv livelock_manager \<and> length (locals livelock_manager) = 4
   \<and> (\<forall>fuel. migrate_threads fuel livelock_manager = Some None)"
proof (intro conjI allI)
  fix fuel
  obtain s where s: "counts_of s = count_loop (migrate_threshold livelock_manager) (pinned_at livelock_manager) fuel
      (map queue_size (locals livelock_manager), False, False)"
    "migrate_threads fuel livelock_manager = Some (if mg_exit s then Some (mg_manager s) else None)"
    using migrate_threads_counts [OF livelock_inv] by metis
  have "\<not> snd (snd (count_loop (migrate_threshold livelock_manager) (pinned_at livelock_manager) fuel
      ([2, 1, 2, 2], False, False)))"
    using livelock_loop [of "migrate_threshold livelock_manager" "pinned_at livelock_manager" fuel] livelock_counts
    by simp
  then have "\<not> snd (snd (counts_of s))" unfolding s(1) livelock_counts(1) .
  then show "migrate_threads fuel livelock_manager = Some None" using s(2) by (simp add: counts_of_def)
next
  show "length (locals livelock_manager) = 4" by (simp add: livelock_manager_def sample_manager_def)
qed (rule livelock_inv)

text \<open>Two processors, one of them with all the movable threads.\<close>

definition uneven_manager :: manager where
  "uneven_manager = sample_manager [0, 3] [(0, [0, 1, 2]), (3, [3])]"

lemma uneven_inv: "manager_inv uneven_manager" and uneven_locals: "locals uneven_manager \<noteq> []"
  unfolding uneven_manager_def
  by (rule sample_manager_inv, auto simp: numeral_eq_Suc lessThan_Suc sample_manager_def)

lemma uneven_pinned: "\<forall>c<length (locals uneven_manager).
    pinned_count (m_heap uneven_manager) (locals uneven_manager ! c) \<le> migrate_threshold uneven_manager c"
proof -
  have n: "length (locals uneven_manager) = 2" by (simp add: uneven_manager_def sample_manager_def)
  have sz: "map queue_size (locals uneven_manager) = [3, 1]" by (simp add: uneven_manager_def sample_sizes)
  have p: "pinned_at uneven_manager 0 = 1" "pinned_at uneven_manager 1 = 1"
    unfolding uneven_manager_def by (subst sample_pinned; simp)+
  have t: "migrate_threshold uneven_manager c = 2" for c
    by (simp add: migrate_threshold_def Let_def sz n)
  show ?thesis using p t n by (auto simp: numeral_2_eq_2 less_Suc_eq)
qed

theorem migrate_threads_safe_witness: "migrate_threads 3 uneven_manager \<noteq> None"
  using migrate_threads_safe [OF uneven_inv uneven_locals, of 3] by blast

theorem migrate_threads_terminates_witness: "\<exists>fuel m'. migrate_threads fuel uneven_manager = Some (Some m')"
  by (rule migrate_threads_terminates [OF uneven_inv uneven_locals uneven_pinned])

end
