(* ===== verification/Process_System.thy ===== *)
theory Process_System
  imports Thread_Migration
begin

text \<open>
  The process manager as a whole: the timer interrupt (\<^verbatim>\<open>Manager::switch_thread_may_fail\<close>), the
  transition system of all its public operations executed by the processors in any order, and the
  properties of the states reachable from its constructor.
\<close>

definition send_migrate :: "nat \<Rightarrow> manager \<Rightarrow> manager option" where
  "send_migrate fuel m =
     (case migrate_threads fuel m of Some (Some m') \<Rightarrow> Some m' | _ \<Rightarrow> None)"

text \<open>\<open>switch_thread_may_fail\<close>: \<open>lapic\<close> is the id of the interrupted processor, \<open>first_id\<close> and \<open>last_id\<close> the
  globals \<^verbatim>\<open>first_lapic_id\<close> and \<^verbatim>\<open>last_lapic_id\<close>, \<open>got_lock\<close> the outcome of \<open>try_aquire\<close> and \<open>fuel\<close> a bound on
  the passes of \<open>migrate_threads\<close>; no result is given when these are not enough.\<close>

definition switch_thread_may_fail ::
  "nat \<Rightarrow> nat \<Rightarrow> u8 \<Rightarrow> u8 \<Rightarrow> u8 \<Rightarrow> bool \<Rightarrow> thread_context \<Rightarrow> manager \<Rightarrow> (manager \<times> u8 option) option" where
  "switch_thread_may_fail fuel c lapic first_id last_id got_lock ctx m =
     (let m = (if lapic = first_id then m\<lparr>m_tick := m_tick m + 1\<rparr> else m) in
      if lapic = first_id \<and> \<not> got_lock then Some (m, None)
      else do {
        m \<leftarrow> (if lapic = first_id then do {
                 m \<leftarrow> check_message_queue_and_wakeup_kernel c m;
                 if m_tick m mod 500 = 0 then send_migrate fuel m else Some m }
               else Some m);
        switch_thread_context c ctx (lapic \<noteq> last_id) m })"

subsection \<open>The transition system\<close>

datatype call =
    CreateProcess u64
  | CreateThread nat thread_context
  | CreateThreadWithContext nat thread_context u64 u64 u64
  | WakeupThread nat nat int
  | SleepThread nat nat
  | SleepThisThread
  | SuspendThread nat nat u64
  | SuspendThisThread u64
  | ExitThread nat nat
  | ExitThisThread
  | WaitThread nat nat
  | WaitProcess nat
  | CreateEvent
  | DeleteEvent nat
  | WaitEvent nat
  | WaitEvents "nat list"
  | UnwaitEvent nat
  | UnwaitEvents "nat list"
  | NotifyEvent nat
  | ExpandLocals nat
  | CaptureContext u8 thread_context thread_context u64 u64
  | TimerInterrupt nat u8 u8 u8 bool thread_context
  | PostKernelMessage message bool

fun exec :: "nat \<Rightarrow> call \<Rightarrow> manager \<Rightarrow> manager option" where
  "exec c (CreateProcess pml4) m = Some (snd (create_process pml4 m))"
| "exec c (CreateThread pid ctx) m = map_option snd (create_thread pid ctx m)"
| "exec c (CreateThreadWithContext pid ctx func data stack) m =
     map_option snd (create_thread_with_context pid ctx func data stack m)"
| "exec c (WakeupThread pid tid n) m = map_option snd (wakeup_thread c pid tid n m)"
| "exec c (SleepThread pid tid) m = map_option snd (sleep_thread c pid tid m)"
| "exec c SleepThisThread m = sleep_this_thread c m"
| "exec c (SuspendThread pid tid ms) m = map_option snd (suspend_thread_for_ms c pid tid ms m)"
| "exec c (SuspendThisThread ms) m = suspend_this_thread_for_ms c ms m"
| "exec c (ExitThread pid tid) m = map_option snd (exit_thread c pid tid m)"
| "exec c ExitThisThread m = exit_this_thread c m"
| "exec c (WaitThread pid tid) m = map_option snd (wait_thread_pass c pid tid m)"
| "exec c (WaitProcess pid) m = map_option snd (wait_process_pass c pid m)"
| "exec c CreateEvent m = Some (snd (create_event m))"
| "exec c (DeleteEvent e) m = Some (snd (delete_event e m))"
| "exec c (WaitEvent e) m = map_option snd (wait_event c e m)"
| "exec c (WaitEvents es) m = map_option snd (wait_events c es m)"
| "exec c (UnwaitEvent e) m = map_option snd (unwait_event c e m)"
| "exec c (UnwaitEvents es) m = map_option snd (unwait_events c es m)"
| "exec c (NotifyEvent e) m = map_option snd (notify_event c e m)"
| "exec c (ExpandLocals n) m = Some (expand_locals n m)"
| "exec c (CaptureContext lapic ctx1 ctx2 idle stack) m = capture_context c lapic ctx1 ctx2 idle stack m"
| "exec c (TimerInterrupt fuel lapic first_id last_id got_lock ctx) m =
     map_option fst (switch_thread_may_fail fuel c lapic first_id last_id got_lock ctx m)"
| "exec c (PostKernelMessage msg got_lock) m = post_kernel_message c msg got_lock m"

text \<open>What the operations rely on: the executing processor exists; a thread that is put to sleep or ended
  by name is not the current thread of another processor, where it would go on running although the
  manager has descheduled it; the thread that processes kernel messages does not end; the number of
  processors does not shrink.\<close>

definition remote_safe :: "nat \<Rightarrow> nat \<Rightarrow> nat \<Rightarrow> manager \<Rightarrow> bool" where
  "remote_safe c pid tid m \<longleftrightarrow>
     (case find_thread pid tid m of Inl e \<Rightarrow> True
      | Inr p \<Rightarrow> \<not> list_ex (\<lambda>d. d \<noteq> c \<and> this_thread (locals m ! d) = Some p) [0..<length (locals m)])"

definition admissible :: "nat \<Rightarrow> call \<Rightarrow> manager \<Rightarrow> bool" where
  "admissible c k m \<longleftrightarrow> c < length (locals m) \<and>
     (case k of
        SleepThread pid tid \<Rightarrow> remote_safe c pid tid m
      | ExitThread pid tid \<Rightarrow> remote_safe c pid tid m \<and> find_thread pid tid m \<noteq> Inr (the (event_processor m))
      | ExitThisThread \<Rightarrow> this_thread (locals m ! c) \<noteq> event_processor m
      | ExpandLocals n \<Rightarrow> length (locals m) \<le> n
      | _ \<Rightarrow> True)"

inductive reachable :: "manager \<Rightarrow> bool" where
  start: "manager_init regs mem ids pml4 lapic ctx1 ctx2 idle stack = Some m \<Longrightarrow> reachable m"
| step: "reachable m \<Longrightarrow> admissible c k m \<Longrightarrow> exec c k m = Some m' \<Longrightarrow> reachable m'"

inductive_cases reachableE: "reachable m"

subsection \<open>Every transition keeps the invariant\<close>

lemma check_message_queue_inv:
  assumes inv: "manager_inv m" and s: "check_message_queue_and_wakeup_kernel c m = Some m'"
  shows "manager_inv m'"
proof (cases "messages m = []")
  case False
  with s obtain p e where p: "event_processor m = Some p" "wakeup_thread_ptr c p invalid_nice m = Some (e, m')"
    by (auto simp: check_message_queue_and_wakeup_kernel_def split: Option.bind_split_asm if_splits)
  from inv p(1) obtain t where "m_heap m p = Some t" "\<not> zombie t" by (auto simp: manager_inv_def zombie_inv_def)
  from wakeup_thread_ptr_inv(1) [OF inv this p(2)] show ?thesis .
qed (use assms in \<open>simp add: check_message_queue_and_wakeup_kernel_def\<close>)

lemma manager_inv_messages: "manager_inv_except X (m\<lparr>messages := x\<rparr>) = manager_inv_except X m"
  "manager_inv_except X (m\<lparr>m_tick := y\<rparr>) = manager_inv_except X m"
  by (simp_all add: manager_inv_def)

lemma post_kernel_message_inv:
  assumes inv: "manager_inv m" and s: "post_kernel_message c msg got m = Some m'"
  shows "manager_inv m'"
proof (cases got)
  case True
  let ?m = "m\<lparr>messages := messages m @ [msg]\<rparr>"
  from s True obtain p e where p: "event_processor m = Some p" "wakeup_thread_ptr c p invalid_nice ?m = Some (e, m')"
    by (auto simp: post_kernel_message_def Let_def split: Option.bind_split_asm if_splits)
  from inv p(1) obtain t where "m_heap ?m p = Some t" "\<not> zombie t" by (auto simp: manager_inv_def zombie_inv_def)
  from wakeup_thread_ptr_inv(1) [OF _ this p(2)] inv show ?thesis by (simp add: manager_inv_messages)
qed (use assms in \<open>auto simp: post_kernel_message_def Let_def manager_inv_messages\<close>)

lemma switch_thread_context_inv':
  assumes inv: "manager_inv m" and s: "switch_thread_context c ctx cont m = Some (m', ipi)"
  shows "manager_inv m'"
proof -
  from s obtain l p where l: "get_local m c = Some l" "this_thread l = Some p"
    by (auto simp: switch_thread_context_def split: Option.bind_split_asm)
  then have "switch_ready c p (m_heap m) (locals m)"
    by (intro manager_inv_switch_ready [OF inv]) (auto simp: get_local_Some)
  from switch_thread_context_inv [OF this _ _ _ s] inv show ?thesis by (simp add: manager_inv_def)
qed

lemma send_migrate_inv:
  assumes "manager_inv m" "send_migrate fuel m = Some m'" "locals m \<noteq> []"
  shows "manager_inv m'"
  using assms migrate_threads_inv [OF assms(1,3), of fuel]
  by (auto simp: send_migrate_def split: option.splits)

lemma switch_thread_may_fail_inv:
  assumes inv: "manager_inv m" and c: "c < length (locals m)"
    and s: "switch_thread_may_fail fuel c lapic first_id last_id got ctx m = Some (m', ipi)"
  shows "manager_inv m'"
proof -
  define m0 where "m0 = (if lapic = first_id then m\<lparr>m_tick := m_tick m + 1\<rparr> else m)"
  have inv0: "manager_inv m0" using inv by (simp add: m0_def manager_inv_messages)
  have l0: "locals m0 = locals m" by (simp add: m0_def)
  show ?thesis
  proof (cases "lapic = first_id \<and> \<not> got")
    case True
    with s inv0 show ?thesis by (simp add: switch_thread_may_fail_def m0_def)
  next
    case False
    show ?thesis
    proof (cases "lapic = first_id")
      case True
      with s False obtain m1 m2 where m1: "check_message_queue_and_wakeup_kernel c m0 = Some m1"
        and m2: "(if m_tick m1 mod 500 = 0 then send_migrate fuel m1 else Some m1) = Some m2"
        and m3: "switch_thread_context c ctx (lapic \<noteq> last_id) m2 = Some (m', ipi)"
        unfolding switch_thread_may_fail_def m0_def by (auto split: Option.bind_split_asm)
      have inv1: "manager_inv m1" by (rule check_message_queue_inv [OF inv0 m1])
      have "locals m1 \<noteq> []"
      proof (cases "messages m0 = []")
        case True
        with m1 l0 c show ?thesis by (auto simp: check_message_queue_and_wakeup_kernel_def)
      next
        case False
        with m1 obtain p e where p: "event_processor m0 = Some p" "wakeup_thread_ptr c p invalid_nice m0 = Some (e, m1)"
          by (auto simp: check_message_queue_and_wakeup_kernel_def split: Option.bind_split_asm if_splits)
        from inv0 p(1) obtain t where t: "m_heap m0 p = Some t" "\<not> zombie t" by (auto simp: manager_inv_def zombie_inv_def)
        have "manager_core {} m0" "c < length (locals m0)" using inv0 c l0 by (simp_all add: manager_inv_except_def)
        from wakeup_thread_ptr_core [OF this(1) t this(2)] p(2) have "only_threads m0 m1" by (metis Pair_inject option.inject)
        from only_threadsD(8) [OF this] l0 c show ?thesis by auto
      qed
      with inv1 m2 send_migrate_inv [OF inv1] have "manager_inv m2" by (auto split: if_splits)
      from switch_thread_context_inv' [OF this m3] show ?thesis .
    next
      case False
      with s inv0 switch_thread_context_inv' show ?thesis
        by (auto simp: switch_thread_may_fail_def m0_def)
    qed
  qed
qed

lemma remote_safe_runs: "remote_safe c pid tid m \<Longrightarrow> find_thread pid tid m = Inr p \<Longrightarrow> \<not> runs_elsewhere c p m"
  by (auto simp: remote_safe_def runs_elsewhere_def list_ex_iff)

lemma sleep_thread_inv:
  assumes inv: "manager_inv m" and r: "remote_safe c pid tid m" and s: "sleep_thread c pid tid m = Some (e, m')"
  shows "manager_inv m'"
proof (cases "find_thread pid tid m")
  case (Inr p)
  with s have "sleep_thread_ptr c p m = Some m'" by (auto simp: sleep_thread_def)
  from sleep_thread_ptr_inv [OF manager_inv_weaken [OF inv] remote_safe_runs [OF r Inr] this] show ?thesis .
qed (use s inv in \<open>simp add: sleep_thread_def\<close>)

lemma exit_thread_inv:
  assumes inv: "manager_inv m" and c: "c < length (locals m)" and r: "remote_safe c pid tid m"
    and ep: "find_thread pid tid m \<noteq> Inr (the (event_processor m))" and s: "exit_thread c pid tid m = Some (e, m')"
  shows "manager_inv m'"
proof -
  from s obtain q where q: "find_alive_thread pid tid m = Some q"
    and rest: "case q of Inl e \<Rightarrow> m' = m | Inr p \<Rightarrow> exit_thread_ptr c p m = Some m'"
    by (auto simp: exit_thread_def split: Option.bind_split_asm sum.splits)
  show ?thesis
  proof (cases q)
    case (Inr p)
    with q obtain t where t: "find_thread pid tid m = Inr p" "m_heap m p = Some t" "\<not> zombie t"
      using find_alive_threadD by metis
    have "event_processor m \<noteq> Some p" using ep t(1) by auto
    from exit_thread_ptr_inv [OF inv t(2,3) this c remote_safe_runs [OF r t(1)]] rest Inr show ?thesis by simp
  qed (use rest inv in simp)
qed

lemma exit_this_thread_inv:
  assumes inv: "manager_inv m" and c: "c < length (locals m)" and ep: "this_thread (locals m ! c) \<noteq> event_processor m"
    and s: "exit_this_thread c m = Some m'"
  shows "manager_inv m'"
proof -
  from s obtain l p where l: "get_local m c = Some l" "this_thread l = Some p" and x: "exit_thread_ptr c p m = Some m'"
    by (auto simp: exit_this_thread_def split: Option.bind_split_asm)
  obtain t where "m_heap m p = Some t" "\<not> zombie t" "\<not> runs_elsewhere c p m" using manager_inv_current [OF inv l] by metis
  with exit_thread_ptr_inv [OF inv _ _ _ c _ x] ep l show ?thesis by (auto simp: get_local_Some)
qed

lemma exec_inv:
  assumes inv: "manager_inv m" and a: "admissible c k m" and x: "exec c k m = Some m'"
  shows "manager_inv m'"
proof -
  have c: "c < length (locals m)" using a by (simp add: admissible_def)
  show ?thesis
  proof (cases k)
    case (CreateProcess pml4)
    then show ?thesis using x create_process_inv [OF inv] by (cases "create_process pml4 m") auto
  next
    case (SleepThread pid tid)
    then show ?thesis using x a sleep_thread_inv [OF inv] by (auto simp: admissible_def)
  next
    case SleepThisThread
    with x obtain l p where l: "get_local m c = Some l" "this_thread l = Some p" and "sleep_thread_ptr c p m = Some m'"
      by (auto simp: sleep_this_thread_def split: Option.bind_split_asm)
    with sleep_thread_ptr_inv [OF manager_inv_weaken [OF inv]] manager_inv_current [OF inv l] show ?thesis by metis
  next
    case (SuspendThread pid tid ms)
    with x inv suspend_inv [OF inv] show ?thesis
      by (auto simp: suspend_thread_for_ms_def split: Option.bind_split_asm sum.splits)
  next
    case (SuspendThisThread ms)
    with x suspend_inv [OF inv] show ?thesis by (auto simp: suspend_this_thread_for_ms_def split: Option.bind_split_asm)
  next
    case (ExitThread pid tid)
    then show ?thesis using x a exit_thread_inv [OF inv c] by (auto simp: admissible_def)
  next
    case ExitThisThread
    then show ?thesis using x a exit_this_thread_inv [OF inv c] by (auto simp: admissible_def)
  next
    case CreateEvent
    then show ?thesis using x create_event_inv [OF inv] by (cases "create_event m") auto
  next
    case (DeleteEvent e)
    then show ?thesis using x delete_event_inv [OF inv] by (cases "delete_event e m") auto
  next
    case (ExpandLocals n)
    then show ?thesis using x a expand_locals_inv [OF inv] by (auto simp: admissible_def)
  next
    case (TimerInterrupt fuel lapic first_id last_id got ctx)
    then show ?thesis using x switch_thread_may_fail_inv [OF inv c] by auto
  qed (use x create_thread_inv [OF inv] create_thread_with_context_inv [OF inv] wakeup_thread_inv [OF inv]
      wait_thread_pass_inv [OF inv] wait_process_pass_inv [OF inv] wait_event_inv [OF inv] wait_events_inv [OF inv]
      unwait_event_inv [OF inv] unwait_events_inv [OF inv] notify_event_inv [OF inv c] capture_context_inv [OF inv]
      post_kernel_message_inv [OF inv] in auto)
qed

subsection \<open>The initial state\<close>

lemma empty_manager_inv: "manager_inv (empty_manager regs mem)"
  by (simp add: manager_inv_def empty_manager_def queue_inv_def current_inv_def event_inv_def waits_def
      wants_def zombie_inv_def owner_inv_def owns_def named_def dm_get_def)

lemma manager_inv_names: "manager_inv_except X (m\<lparr>thread_joined_event := e\<rparr>) = manager_inv_except X m"
  "manager_inv_except X (m\<lparr>process_joined_event := e\<rparr>) = manager_inv_except X m"
  "manager_inv_except X (m\<lparr>kernel_pid := e\<rparr>) = manager_inv_except X m"
  by (simp_all add: manager_inv_def)

lemma manager_init_inv:
  assumes "manager_init regs mem ids pml4 lapic ctx1 ctx2 idle stack = Some m"
  shows "manager_inv m"
proof -
  obtain e1 m1 where 1: "create_event (empty_manager regs mem) = (e1, m1)" by fastforce
  have inv1: "manager_inv (m1\<lparr>thread_joined_event := e1\<rparr>)"
    using create_event_inv [OF empty_manager_inv 1] by (simp add: manager_inv_names)
  obtain e2 m2 where 2: "create_event (m1\<lparr>thread_joined_event := e1\<rparr>) = (e2, m2)" by fastforce
  have inv2: "manager_inv (m2\<lparr>process_joined_event := e2\<rparr>)"
    using create_event_inv [OF inv1 2] by (simp add: manager_inv_names)
  have "locals (m2\<lparr>process_joined_event := e2\<rparr>) = []"
    using 1 2 by (auto simp: create_event_def empty_manager_def split: prod.splits)
  then have inv3: "manager_inv (expand_locals 1 (m2\<lparr>process_joined_event := e2\<rparr>))"
    by (intro expand_locals_inv [OF inv2]) simp
  obtain pid m4 where 4: "new_process ids pml4 (expand_locals 1 (m2\<lparr>process_joined_event := e2\<rparr>)) = (pid, m4)" by fastforce
  have inv4: "manager_inv (m4\<lparr>kernel_pid := pid\<rparr>)"
    using new_process_inv [OF inv3 4] by (simp add: manager_inv_names)
  from assms 1 2 4 obtain m5 l where 5: "capture_context 0 lapic ctx1 ctx2 idle stack (m4\<lparr>kernel_pid := pid\<rparr>) = Some m5"
    and l: "get_local m5 0 = Some l" and m: "m = m5\<lparr>event_processor := this_thread l\<rparr>"
    by (auto simp: manager_init_def Let_def split: Option.bind_split_asm)
  have inv5: "manager_inv m5" by (rule capture_context_inv [OF inv4 5])
  have "\<exists>t. m_heap m5 p = Some t \<and> \<not> zombie t" if "this_thread l = Some p" for p
    using manager_inv_current [OF inv5 l that] by metis
  with inv5 show ?thesis by (simp add: m manager_inv_def zombie_inv_def)
qed

lemma reachable_manager_inv: "reachable m \<Longrightarrow> manager_inv m"
  by (induction rule: reachable.induct) (use manager_init_inv exec_inv in blast)+

text \<open>The constructor evaluated.\<close>

lemma new_local_eq: "new_local = \<lparr> this_thread = None, run_queue = [[], [], [], [], []], lapic_id = 0 \<rparr>"
  by (simp add: new_local_def max_nice_def numeral_eq_Suc)

lemma nice_to_index_0: "nice_to_index 0 = 2"
  by (simp add: nice_to_index_valid is_valid_nice_def max_nice_def)

lemma list_update_2: "[a, b, c, d, e][2 := x] = [a, b, x, d, e]"
  by (simp add: numeral_2_eq_2)

lemma manager_init_state:
  "\<exists>m. manager_init regs mem ids pml4 lapic ctx1 ctx2 idle stack = Some m
    \<and> locals m = [\<lparr> this_thread = Some 0, run_queue = [[], [], [0, 1], [], []], lapic_id = lapic \<rparr>]
    \<and> m_heap m = [0 \<mapsto> (new_thread 0 0 ctx1)\<lparr>running_on := Some 0, movable := False\<rparr>,
                 1 \<mapsto> (new_thread 1 0 (init_context 1 idle 0 pml4 stack))\<lparr>running_on := Some 0, movable := False\<rparr>]
    \<and> event_processor m = Some 0 \<and> events m = [Some [], Some []] \<and> thread_joined_event m = 0 \<and> kernel_pid m = 0
    \<and> m_tick m = 0 \<and> messages m = []"
  by (simp add: manager_init_def empty_manager_def create_event_def find_empty_slot_def dm_store_def Let_def
      expand_locals_def new_local_eq new_process_def capture_context_def get_local_def set_local_def
      capture_this_context_def create_thread_def create_thread_ptr_def dm_get_def wakeup_thread_def
      find_alive_thread_def find_thread_def wakeup_thread_ptr_def new_thread_def push_to_run_queue_def queue_update_def
      nice_to_index_0 list_update_2 pin_thread_def create_idle_thread_def create_thread_with_context_def)

subsection \<open>Properties\<close>

text \<open>C2. The data structures of the process manager stay consistent: in every state reachable from the
  constructor by admissible operations of any processors in any order, a thread is in exactly the run
  queue its \<open>running_on\<close> and \<open>nice\<close> fields name, once; the current thread of a processor runs there; the
  wait lists and the event lists of the living threads mirror each other; dead threads run nowhere; and
  the threads are exactly those in the slots of the processes.\<close>

theorem process_manager_consistent: "reachable m \<Longrightarrow> manager_inv m"
  by (rule reachable_manager_inv)

theorem process_manager_consistent_witness: "\<exists>m. reachable m \<and> manager_inv m"
proof -
  obtain m where "manager_init (\<lambda>_. sample_cpu) (\<lambda>_. 0) [] 0 0 zero_context zero_context 0 0 = Some m"
    using manager_init_state by blast
  then have "reachable m" by (rule reachable.start)
  with process_manager_consistent [OF this] show ?thesis by blast
qed

lemma manager_inv_live:
  assumes "manager_inv m"
  shows "c < length (locals m) \<Longrightarrow> this_thread (locals m ! c) = Some p \<Longrightarrow> m_heap m p \<noteq> None"
    and "c < length (locals m) \<Longrightarrow> q \<in> set (run_queue (locals m ! c)) \<Longrightarrow> p \<in> set q \<Longrightarrow> m_heap m p \<noteq> None"
    and "dm_get (events m) e = Some ws \<Longrightarrow> p \<in> set ws \<Longrightarrow> m_heap m p \<noteq> None"
    and "event_processor m = Some p \<Longrightarrow> m_heap m p \<noteq> None"
proof -
  from assms have q: "queue_inv (m_heap m) (locals m)" and "current_inv (m_heap m) (locals m)"
    and ev: "event_inv (m_heap m) (events m)" and z: "zombie_inv {} (m_heap m) (event_processor m)"
    by (simp_all add: manager_inv_def)
  then show "c < length (locals m) \<Longrightarrow> this_thread (locals m ! c) = Some p \<Longrightarrow> m_heap m p \<noteq> None"
    by (auto simp: current_inv_def)
  show "m_heap m p \<noteq> None" if "c < length (locals m)" "q \<in> set (run_queue (locals m ! c))" "p \<in> set q"
    using queue_invD(1) [OF q that(1)] queue_invD(3) [OF q that(1), of _ p] that(2,3)
    by (auto simp: in_set_conv_nth [of q])
  show "m_heap m p \<noteq> None" if "dm_get (events m) e = Some ws" "p \<in> set ws"
  proof -
    have "waits (events m) e p" using that by (auto simp: waits_def)
    with ev show ?thesis by (auto simp: event_inv_def wants_def)
  qed
  show "event_processor m = Some p \<Longrightarrow> m_heap m p \<noteq> None"
    using z by (auto simp: zombie_inv_def)
qed

text \<open>C3. No dangling thread pointers: although \<open>wait_thread\<close> frees threads while run queues, wait lists and
  processors hold raw pointers to threads, no reachable state has a pointer to a freed thread in the
  current thread of a processor, in a run queue, in a wait list or as the event processor.\<close>

theorem no_dangling_threads:
  assumes "reachable m"
  shows "(\<forall>c p. c < length (locals m) \<longrightarrow> this_thread (locals m ! c) = Some p \<longrightarrow> m_heap m p \<noteq> None)
     \<and> (\<forall>c q p. c < length (locals m) \<longrightarrow> q \<in> set (run_queue (locals m ! c)) \<longrightarrow> p \<in> set q \<longrightarrow> m_heap m p \<noteq> None)
     \<and> (\<forall>e ws p. dm_get (events m) e = Some ws \<longrightarrow> p \<in> set ws \<longrightarrow> m_heap m p \<noteq> None)
     \<and> (\<forall>p. event_processor m = Some p \<longrightarrow> m_heap m p \<noteq> None)"
  using manager_inv_live [OF reachable_manager_inv [OF assms]] by blast

theorem no_dangling_threads_witness: "\<exists>m. reachable m \<and> event_processor m = Some 0 \<and> m_heap m 0 \<noteq> None"
proof -
  obtain m where m: "manager_init (\<lambda>_. sample_cpu) (\<lambda>_. 0) [] 0 0 zero_context zero_context 0 0 = Some m"
    "event_processor m = Some 0" using manager_init_state by blast
  then have "reachable m" by (intro reachable.start)
  with no_dangling_threads [OF this] m(2) show ?thesis by blast
qed

text \<open>C14. Notification wakes everybody: \<open>notify_event\<close> on an existing event succeeds, empties its wait list,
  and leaves every thread that was on it in a run queue and no longer registered for the event; a sleeping
  waiter runs on the notifying processor, a running one stays where it is; no other thread changes.\<close>

theorem notify_event_wakes_all:
  assumes "manager_inv m" "c < length (locals m)" "dm_get (events m) e = Some ws"
  shows "\<exists>m'. notify_event c e m = Some (Success, m') \<and> manager_inv m' \<and> dm_get (events m') e = Some []
     \<and> (\<forall>p\<in>set ws. \<exists>t t'. m_heap m p = Some t \<and> m_heap m' p = Some t' \<and> e \<notin> set (t_events t')
          \<and> running_on t' = Some (case running_on t of None \<Rightarrow> c | Some r \<Rightarrow> r)
          \<and> p \<in> set (run_queue (locals m' ! (the (running_on t'))) ! nice_to_index (nice t)))
     \<and> (\<forall>p. p \<notin> set ws \<longrightarrow> m_heap m' p = m_heap m p)"
proof -
  from notify_event_spec [OF assms] obtain m' where m': "notify_event c e m = Some (Success, m')" "manager_inv m'"
    "only_threads (m\<lparr>events := dm_store (events m) e []\<rparr>) m'"
    "\<And>x. m_heap m' x = (if x \<in> set ws then map_option (woken c e) (m_heap m x) else m_heap m x)" by blast
  have ev: "dm_get (events m') e = Some []"
    using only_threadsD(1) [OF m'(3)] by (simp add: dm.lookup_store [OF assms(3)])
  have q': "queue_inv (m_heap m') (locals m')" using m'(2) by (simp add: manager_inv_def)
  have "\<exists>t t'. m_heap m p = Some t \<and> m_heap m' p = Some t' \<and> e \<notin> set (t_events t')
          \<and> running_on t' = Some (case running_on t of None \<Rightarrow> c | Some r \<Rightarrow> r)
          \<and> p \<in> set (run_queue (locals m' ! (the (running_on t'))) ! nice_to_index (nice t))" if p: "p \<in> set ws" for p
  proof -
    from manager_inv_live(3) [OF assms(1,3) p] obtain t where t: "m_heap m p = Some t" by blast
    let ?t = "woken c e t"
    have t': "m_heap m' p = Some ?t" using m'(4) p t by simp
    have r: "running_on ?t = Some (case running_on t of None \<Rightarrow> c | Some r \<Rightarrow> r)" "nice ?t = nice t" "e \<notin> set (t_events ?t)"
      by (simp_all add: woken_def)
    have d: "(case running_on t of None \<Rightarrow> c | Some r \<Rightarrow> r) < length (locals m')"
      using queue_inv_cpu [OF q' t' r(1)] .
    have j: "nice_to_index (nice t) < 5" using nice_to_index_less [OF queue_inv_nice [OF q' t']] r(2) by simp
    have "p \<in> set (run_queue (locals m' ! (the (running_on ?t))) ! nice_to_index (nice t))"
      using queue_invD(3) [OF q' d j, of p] t' r by simp
    with t t' r show ?thesis by blast
  qed
  with m' ev show ?thesis by auto
qed

text \<open>The kernel thread of a fresh manager waits for event 0.\<close>

lemma init_wait_event:
  assumes m: "manager_init (\<lambda>_. sample_cpu) (\<lambda>_. 0) [] 0 0 zero_context zero_context 0 0 = Some m"
    "locals m = [\<lparr> this_thread = Some 0, run_queue = [[], [], [0, 1], [], []], lapic_id = 0 \<rparr>]"
    "m_heap m = [0 \<mapsto> (new_thread 0 0 zero_context)\<lparr>running_on := Some 0, movable := False\<rparr>,
                 1 \<mapsto> (new_thread 1 0 (init_context 1 0 0 0 0))\<lparr>running_on := Some 0, movable := False\<rparr>]"
    "events m = [Some [], Some []]" "m_tick m = 0"
  shows "\<exists>m'. wait_event 0 0 m = Some (Success, m') \<and> dm_get (events m') 0 = Some [0] \<and> length (locals m') = 1"
  using m(2-) by (simp add: wait_event_def get_local_def push_thread_to_events_def dm_get_def dm_store_def
      sleep_thread_ptr_def switch_thread_def update_this_thread_def queue_update_def new_thread_def
      nice_to_index_0 list_update_2 should_skip_def set_local_def Let_def)

theorem notify_event_wakes_all_witness:
  "\<exists>m m'. manager_inv m \<and> dm_get (events m) 0 = Some [0]
     \<and> notify_event 0 0 m = Some (Success, m') \<and> dm_get (events m') 0 = Some []"
proof -
  obtain m where m: "manager_init (\<lambda>_. sample_cpu) (\<lambda>_. 0) [] 0 0 zero_context zero_context 0 0 = Some m"
    "locals m = [\<lparr> this_thread = Some 0, run_queue = [[], [], [0, 1], [], []], lapic_id = 0 \<rparr>]"
    "m_heap m = [0 \<mapsto> (new_thread 0 0 zero_context)\<lparr>running_on := Some 0, movable := False\<rparr>,
                 1 \<mapsto> (new_thread 1 0 (init_context 1 0 0 0 0))\<lparr>running_on := Some 0, movable := False\<rparr>]"
    "events m = [Some [], Some []]" "m_tick m = 0" using manager_init_state by blast
  from init_wait_event [OF m] obtain m1 where w: "wait_event 0 0 m = Some (Success, m1)"
    "dm_get (events m1) 0 = Some [0]" "length (locals m1) = 1" by blast
  have inv: "manager_inv m1" by (rule wait_event_inv [OF manager_init_inv [OF m(1)] w(1)])
  from notify_event_wakes_all [OF inv _ w(2), of 0] w(3) inv w(2) show ?thesis by auto
qed

subsection \<open>Exit and join\<close>

text \<open>What a context switch and a sleep leave of every thread.\<close>

definition kept :: "manager \<Rightarrow> manager \<Rightarrow> bool" where
  "kept m m' \<longleftrightarrow> processes m' = processes m \<and> (\<forall>p t. m_heap m p = Some t \<longrightarrow>
     (\<exists>t'. m_heap m' p = Some t' \<and> zombie t' = zombie t \<and> t_process t' = t_process t \<and> t_id t' = t_id t))"

lemma keptD: "kept m m' \<Longrightarrow> m_heap m p = Some t \<Longrightarrow>
     \<exists>t'. m_heap m' p = Some t' \<and> zombie t' = zombie t \<and> t_process t' = t_process t \<and> t_id t' = t_id t"
  by (simp add: kept_def)

lemma kept_refl: "kept m m"
  by (simp add: kept_def)

lemma kept_trans: "kept m m1 \<Longrightarrow> kept m1 m2 \<Longrightarrow> kept m m2"
  unfolding kept_def by (metis (no_types, lifting))

lemma update_this_thread_kept:
  assumes "update_this_thread tick h l = Some (h', l')"
  shows "h p = Some t \<Longrightarrow> \<exists>t'. h' p = Some t' \<and> zombie t' = zombie t \<and> t_process t' = t_process t \<and> t_id t' = t_id t"
  using assms by (auto simp: update_this_thread_def split: Option.bind_split_asm)

lemma switch_thread_kept:
  assumes "switch_thread c m = Some m'"
  shows "kept m m'"
proof -
  from assms obtain l p h l' where u: "update_this_thread (m_tick m) (m_heap m) l = Some (h, l')"
    and m': "m' = (set_local c l' m)\<lparr>m_heap := h\<rparr> \<or>
      (\<exists>t x y. h p = Some t \<and> m' = (set_local c l' m)\<lparr>m_heap := h(p \<mapsto> t\<lparr>t_context := x\<rparr>), cpus := y\<rparr>)"
    unfolding switch_thread_def
    by (auto simp: Let_def split: Option.bind_split_asm prod.split_asm if_split_asm) blast+
  note uk = update_this_thread_kept [OF u]
  from m' show ?thesis
  proof (elim disjE exE conjE)
    assume "m' = (set_local c l' m)\<lparr>m_heap := h\<rparr>"
    with uk show ?thesis by (simp add: kept_def set_local_def)
  next
    fix t x y assume t: "h p = Some t" and m': "m' = (set_local c l' m)\<lparr>m_heap := h(p \<mapsto> t\<lparr>t_context := x\<rparr>), cpus := y\<rparr>"
    have "\<exists>t'. (h(p \<mapsto> t\<lparr>t_context := x\<rparr>)) q = Some t' \<and> zombie t' = zombie u \<and> t_process t' = t_process u \<and> t_id t' = t_id u"
      if "m_heap m q = Some u" for q u using uk [OF that] t by (cases "q = p") auto
    then show ?thesis by (simp add: kept_def set_local_def m')
  qed
qed

lemma sleep_thread_ptr_kept:
  assumes "sleep_thread_ptr c p m = Some m'"
  shows "kept m m'"
proof -
  from assms obtain t where t: "m_heap m p = Some t" by (auto simp: sleep_thread_ptr_def split: Option.bind_split_asm)
  have k: "kept m (put_thread p (t\<lparr>running_on := None\<rparr>) m)" using t by (auto simp: kept_def)
  from assms t show ?thesis
  proof (cases "running_on t")
    case (Some r)
    show ?thesis
    proof (cases "get_local m c \<bind> this_thread = Some p")
      case True
      with assms t Some have "switch_thread c (put_thread p (t\<lparr>running_on := None\<rparr>) m) = Some m'"
        by (auto simp: sleep_thread_ptr_def split: Option.bind_split_asm)
      from kept_trans [OF k switch_thread_kept [OF this]] show ?thesis .
    next
      case False
      with assms t Some obtain l where "m' = set_local r l (put_thread p (t\<lparr>running_on := None\<rparr>) m)"
        by (auto simp: sleep_thread_ptr_def Let_def split: Option.bind_split_asm if_splits)
      with k show ?thesis by (simp add: kept_def set_local_def)
    qed
  qed (auto simp: sleep_thread_ptr_def kept_refl)
qed

text \<open>C15. Exit and join: once \<open>exit_thread\<close> of a living thread has completed, \<open>wait_thread\<close> for it, on any
  processor, returns success in its first pass, frees the thread and its identifier, and leaves the
  manager consistent.\<close>

theorem exit_then_join:
  assumes inv: "manager_inv m" and alive: "find_alive_thread pid tid m = Some (Inr p)"
    and adm: "admissible c (ExitThread pid tid) m" and ex: "exit_thread c pid tid m = Some (e, m')"
  shows "\<exists>m''. wait_thread_pass d pid tid m' = Some (Returns Success, m'')
     \<and> find_thread pid tid m'' = Inl NoSuchThread \<and> m_heap m'' p = None \<and> manager_inv m''"
proof -
  have c: "c < length (locals m)" and rs: "remote_safe c pid tid m"
    and ep0: "find_thread pid tid m \<noteq> Inr (the (event_processor m))" using adm by (simp_all add: admissible_def)
  obtain t where t: "find_thread pid tid m = Inr p" "m_heap m p = Some t" "\<not> zombie t"
    using find_alive_threadD [OF alive] by metis
  have ep: "event_processor m \<noteq> Some p" using ep0 t(1) by auto
  have x: "exit_thread_ptr c p m = Some m'" using ex alive by (auto simp: exit_thread_def)
  have inv': "manager_inv m'" by (rule exit_thread_inv [OF inv c rs ep0 ex])
  obtain m1 where m1: "cancel_events (t_events t) p (put_thread p (t\<lparr>zombie := True\<rparr>) m) = Some m1"
    "manager_inv_except {p} m1" "locals m1 = locals m" "m_heap m1 = (m_heap m)(p \<mapsto> t\<lparr>zombie := True\<rparr>)"
    "\<And>e. \<not> waits (events m1) e p"
    using exit_marks [OF inv t(2,3) ep] by metis
  from x t(2) m1(1) obtain e2 m2 where n: "notify_event c (thread_joined_event m1) m1 = Some (e2, m2)"
    and s: "sleep_thread_ptr c p m2 = Some m'"
    by (auto simp: exit_thread_ptr_def split: Option.bind_split_asm)
  have "m_heap m2 p = m_heap m1 p \<and> processes m2 = processes m1"
  proof (cases "dm_get (events m1) (thread_joined_event m1)")
    case (Some ws)
    have "p \<notin> set ws" using m1(5) [of "thread_joined_event m1"] Some by (auto simp: waits_def)
    moreover have "c < length (locals m1)" using c m1(3) by simp
    ultimately show ?thesis
      using notify_event_spec [OF m1(2) _ Some, of c] n only_threadsD(2) by fastforce
  next
    case None
    with n show ?thesis by (simp add: notify_event_def)
  qed
  then have "m_heap m2 p = Some (t\<lparr>zombie := True\<rparr>)" using m1(4) by simp
  from keptD [OF sleep_thread_ptr_kept [OF s] this] obtain t' where t': "m_heap m' p = Some t'" "zombie t'"
    "t_process t' = t_process t" "t_id t' = t_id t" by auto
  have id: "t_process t = pid" "t_id t = tid"
    using find_thread_thread [OF inv t(1)] t(2) by auto
  have own: "owns (processes m') pid tid p"
    using inv' t' id by (auto simp: manager_inv_def owner_inv_def named_def)
  then obtain pr where pr: "dm_get (processes m') pid = Some pr" "dm_get (p_threads pr) tid = Some p"
    by (auto simp: owns_def)
  let ?m = "m'\<lparr>processes := dm_store (processes m') pid (pr\<lparr>p_threads := dm_reset (p_threads pr) tid\<rparr>),
                m_heap := (m_heap m')(p := None)\<rparr>"
  have "wait_thread_pass d pid tid m' = Some (Returns Success, ?m)"
    using pr t' id by (simp add: wait_thread_pass_def find_thread_def)
  moreover have "find_thread pid tid ?m = Inl NoSuchThread"
    by (simp add: find_thread_def dm.lookup_store [OF pr(1)] dm.lookup_reset)
  ultimately show ?thesis
    using wait_thread_pass_inv [OF inv'] by (intro exI [of _ ?m]) auto
qed

lemma init_exit:
  assumes m: "locals m = [\<lparr> this_thread = Some 0, run_queue = [[], [], [0, 1], [], []], lapic_id = 0 \<rparr>]"
    "m_heap m = [0 \<mapsto> (new_thread 0 0 zero_context)\<lparr>running_on := Some 0, movable := False\<rparr>,
                 1 \<mapsto> (new_thread 1 0 (init_context 1 0 0 0 0))\<lparr>running_on := Some 0, movable := False\<rparr>]"
    "events m = [Some [], Some []]" "thread_joined_event m = 0" "event_processor m = Some 0"
    and f: "find_thread 0 1 m = Inr 1"
  shows "find_alive_thread 0 1 m = Some (Inr 1)" "admissible 0 (ExitThread 0 1) m"
    "\<exists>m'. exit_thread 0 0 1 m = Some (Success, m')"
proof -
  have dom: "((1 :: nat) = 0) = False" by simp
  show a: "find_alive_thread 0 1 m = Some (Inr 1)"
    by (simp add: find_alive_thread_def f [simplified] m(2) new_thread_def)
  show "admissible 0 (ExitThread 0 1) m"
    by (simp add: admissible_def remote_safe_def f [simplified] m)
  show "\<exists>m'. exit_thread 0 0 1 m = Some (Success, m')"
    using a by (simp add: exit_thread_def exit_thread_ptr_def m new_thread_def notify_event_def dm_get_def dm_store_def
        sleep_thread_ptr_def get_local_def erase_from_run_queue_def queue_update_def nice_to_index_0 Let_def)
qed

theorem exit_then_join_witness:
  "\<exists>m' m''. wait_thread_pass 0 0 1 m' = Some (Returns Success, m'') \<and> find_thread 0 1 m'' = Inl NoSuchThread"
proof -
  obtain m where m: "manager_init (\<lambda>_. sample_cpu) (\<lambda>_. 0) [] 0 0 zero_context zero_context 0 0 = Some m"
    "locals m = [\<lparr> this_thread = Some 0, run_queue = [[], [], [0, 1], [], []], lapic_id = 0 \<rparr>]"
    "m_heap m = [0 \<mapsto> (new_thread 0 0 zero_context)\<lparr>running_on := Some 0, movable := False\<rparr>,
                 1 \<mapsto> (new_thread 1 0 (init_context 1 0 0 0 0))\<lparr>running_on := Some 0, movable := False\<rparr>]"
    "events m = [Some [], Some []]" "thread_joined_event m = 0" "event_processor m = Some 0"
    using manager_init_state by blast
  have inv: "manager_inv m" by (rule manager_init_inv [OF m(1)])
  have "named (m_heap m) 0 1 1" by (simp add: named_def m(3) new_thread_def)
  then have f: "find_thread 0 1 m = Inr 1"
    using inv by (simp add: find_thread_owns manager_inv_def owner_inv_def)
  note x = init_exit [OF m(2-) f]
  from x(3) obtain m' where "exit_thread 0 0 1 m = Some (Success, m')" ..
  from exit_then_join [OF inv x(1,2) this, of 0] show ?thesis by blast
qed

subsection \<open>Suspension\<close>

text \<open>A suspended thread is skipped for exactly the requested number of ticks: after
  \<open>suspend_thread_for_tick\<close> at tick \<open>T\<close> with a wait of \<open>w\<close> ticks, the scheduler skips the thread at tick
  \<open>T + k\<close> if and only if \<open>k < w\<close>, also when the tick counter wraps; except that a thread suspended at tick 0
  is not skipped in that very tick.\<close>

theorem suspended_for_exactly:
  assumes "m_heap m p = Some t" "get_local m c = Some l" "this_thread l \<noteq> Some p" "w \<noteq> 0"
  shows "\<exists>m' t'. suspend_thread_for_tick c p w m = Some m' \<and> m_heap m' p = Some t'
     \<and> should_skip t' (m_tick m + k) = (k < w \<and> (m_tick m = 0 \<longrightarrow> k \<noteq> 0))"
proof -
  define t' where "t' = t\<lparr>suspend_from := (if m_tick m = 0 then 1 else m_tick m),
     suspend_for := (if m_tick m = 0 then w - 1 else w)\<rparr>"
  have s: "suspend_thread_for_tick c p w m = Some (put_thread p t' m)"
    using assms by (auto simp: suspend_thread_for_tick_def get_local_Some t'_def Let_def)
      (auto simp: get_local_def)
  have "should_skip t' (m_tick m + k) = (k < w \<and> (m_tick m = 0 \<longrightarrow> k \<noteq> 0))"
  proof (cases "m_tick m = 0")
    case False
    then show ?thesis by (simp add: should_skip_def t'_def Let_def)
  next
    case True
    have w1: "unat (w - 1) = unat w - 1" using assms(4) by (simp add: unat_minus_one)
    show ?thesis
    proof (cases "k = 0")
      case True
      have "\<not> (- 1 :: u64) < w - 1" using word_order.extremum [of "w - 1"] by (simp add: not_less)
      with True \<open>m_tick m = 0\<close> show ?thesis by (simp add: should_skip_def t'_def)
    next
      case False
      then have "unat (k - 1) = unat k - 1" "0 < unat k" "0 < unat w"
        using assms(4) by (simp_all add: unat_minus_one unat_gt_0)
      with w1 have "k - 1 < w - 1 \<longleftrightarrow> k < w" by (simp add: word_less_nat_alt) arith
      with False True show ?thesis by (simp add: should_skip_def t'_def)
    qed
  qed
  with s show ?thesis by auto
qed

theorem suspended_for_exactly_witness:
  "\<exists>m' t'. suspend_thread_for_tick 0 1 3 livelock_manager = Some m' \<and> m_heap m' 1 = Some t'
     \<and> should_skip t' (m_tick livelock_manager + 2)"
proof -
  have d: "distinct (concat (map snd [(0, [0, 1]), (2, [2]), (3, [3, 4]), (6, [5, 6 :: nat])] :: nat list list))" by simp
  have h: "m_heap livelock_manager 1 = Some (sample_thread [0, 2, 3, 5] 0 1)"
    unfolding livelock_manager_def by (subst sample_heap_iff) (auto intro!: exI [of _ 0])
  have l: "get_local livelock_manager 0 = Some (sample_cpu_local (0, [0, 1]))" "m_tick livelock_manager = 0"
    by (simp_all add: livelock_manager_def sample_manager_def get_local_def empty_manager_def)
  from suspended_for_exactly [OF h l(1), of 3 2] l(2) show ?thesis
    by (simp add: sample_cpu_local_def)
qed

subsection \<open>Where the code departs from its intent\<close>

text \<open>Nice values are lost at boot: the constructor asks for nice -2 for the kernel thread and nice 2 for
  the idle thread, but both end up with nice 0 in the same run queue, so that the idle thread takes
  its turn with every other thread.\<close>

theorem boot_threads_share_a_queue:
  "\<exists>m t0 t1. manager_init regs mem ids pml4 lapic ctx1 ctx2 idle stack = Some m
     \<and> m_heap m 0 = Some t0 \<and> nice t0 = 0 \<and> m_heap m 1 = Some t1 \<and> nice t1 = 0
     \<and> map run_queue (locals m) = [[[], [], [0, 1], [], []]]"
  using manager_init_state [of regs mem ids pml4 lapic ctx1 ctx2 idle stack] by auto

text \<open>Two processors; thread 1 is current on the second.\<close>

definition remote_manager :: manager where
  "remote_manager = sample_manager [0, 2] [(0, [0]), (1, [2, 1])]"

text \<open>Putting a thread to sleep by name while it is current on another processor, and waking it again,
  makes two processors run it: from a consistent state, the sleep and the wake-up both report success,
  and after the next switch the thread is current on both processors.\<close>

theorem remote_sleep_runs_twice:
  "manager_inv remote_manager \<and>
   (\<exists>m1 m2 m3. sleep_thread 0 0 1 remote_manager = Some (Success, m1)
     \<and> wakeup_thread 0 0 1 0 m1 = Some (Success, m2) \<and> switch_thread 0 m2 = Some m3
     \<and> get_this_thread 0 m3 = Some 1 \<and> get_this_thread 1 m3 = Some 1)"
proof
  show "manager_inv remote_manager"
    unfolding remote_manager_def by (rule sample_manager_inv) (auto simp: numeral_eq_Suc lessThan_Suc)
  show "\<exists>m1 m2 m3. sleep_thread 0 0 1 remote_manager = Some (Success, m1)
     \<and> wakeup_thread 0 0 1 0 m1 = Some (Success, m2) \<and> switch_thread 0 m2 = Some m3
     \<and> get_this_thread 0 m3 = Some 1 \<and> get_this_thread 1 m3 = Some 1"
    by (simp add: remote_manager_def sample_manager_def empty_manager_def sample_thread_def sample_cpu_local_def
        sleep_thread_def find_thread_def dm_get_def sleep_thread_ptr_def get_local_def new_thread_def
        erase_from_run_queue_def queue_update_def nice_to_index_0 list_update_2 set_local_def wakeup_thread_def
        find_alive_thread_def wakeup_thread_ptr_def push_to_run_queue_def switch_thread_def update_this_thread_def
        should_skip_def get_this_thread_def Let_def)
qed

end
