(* ===== verification/Fs_Types.thy ===== *)
theory Fs_Types
  imports Klee_Prelude
begin

text \<open>
  The vocabulary of the file system layer: file types, attributes and abstracts of
  \<^verbatim>\<open>src/fs/file-abstract.hpp\<close>, device types and operations of \<^verbatim>\<open>src/fs/driver.hpp\<close>, and the open counts
  of a file with \<^verbatim>\<open>try_open\<close> of \<^verbatim>\<open>src/fs/handle.hpp\<close> and their release in \<^verbatim>\<open>Manager::close\<close>. The last
  section relates the counts to the handles that are open.
\<close>

datatype open_level = Block | Single | Multi

record attributes =
  read_level :: open_level
  write_level :: open_level
  exclusive :: bool
  volume_root :: bool
  cache :: bool
  keep_on_close :: bool

datatype file_type = Regular | Directory | Device | FileTypeEnd

definition default_attributes :: attributes where
  "default_attributes = \<lparr> read_level = Single, write_level = Single, exclusive = True,
     volume_root = False, cache = True, keep_on_close = False \<rparr>"

definition volume_root_attributes :: attributes where
  "volume_root_attributes = \<lparr> read_level = Single, write_level = Single, exclusive = True,
     volume_root = True, cache = True, keep_on_close = False \<rparr>"

record file_abstract =
  fa_name :: string
  fa_filesize :: nat
  fa_type :: file_type
  fa_blocksize_exp :: nat
  fa_attributes :: attributes

text \<open>\<^verbatim>\<open>FileAbstractWithDriverData\<close>; driver data are numbers, 0 standing for \<^verbatim>\<open>nullptr\<close>.\<close>

type_synonym file_abstract_data = "file_abstract \<times> nat"

datatype device_type = DevNone | Framebuffer | Keyboard | Mouse | BlockDev

datatype device_operation = GetSize | GetDirectPointer | Swap | IsDoubleBuffered | GetBytesPerSector

record open_mode =
  om_read :: bool
  om_write :: bool

definition open_ro :: open_mode where "open_ro = \<lparr> om_read = True, om_write = False \<rparr>"
definition open_wo :: open_mode where "open_wo = \<lparr> om_read = False, om_write = True \<rparr>"
definition open_rw :: open_mode where "open_rw = \<lparr> om_read = True, om_write = True \<rparr>"

text \<open>\<^verbatim>\<open>FileOperator::Count\<close>, two 32-bit counters.\<close>

record count =
  read_count :: u32
  write_count :: u32

definition no_count :: count where
  "no_count = \<lparr> read_count = 0, write_count = 0 \<rparr>"

text \<open>The two \<^verbatim>\<open>switch\<close> statements of \<open>try_open\<close>; \<open>Single\<close> falls through to \<open>Multi\<close>.\<close>

definition check_level :: "open_level \<Rightarrow> bool \<Rightarrow> u32 \<Rightarrow> u32 \<Rightarrow> error_code" where
  "check_level level excl same other =
     (case level of
        Block \<Rightarrow> InvalidOpenMode
      | Single \<Rightarrow> if same \<noteq> 0 then FileOpened else if excl \<and> other \<noteq> 0 then FileOpened else Success
      | Multi \<Rightarrow> if excl \<and> other \<noteq> 0 then FileOpened else Success)"

definition try_open :: "attributes \<Rightarrow> open_mode \<Rightarrow> count \<Rightarrow> error_code \<times> count" where
  "try_open a mode c =
     (let e = (if om_read mode then check_level (read_level a) (exclusive a) (read_count c) (write_count c) else Success)
      in if e \<noteq> Success then (e, c)
      else let e = (if om_write mode then check_level (write_level a) (exclusive a) (write_count c) (read_count c) else Success)
      in if e \<noteq> Success then (e, c)
      else (Success, \<lparr> read_count = (if om_read mode then read_count c + 1 else read_count c),
                       write_count = (if om_write mode then write_count c + 1 else write_count c) \<rparr>))"

text \<open>The counts part of \<open>Manager::close\<close>.\<close>

definition release_counts :: "open_mode \<Rightarrow> count \<Rightarrow> count" where
  "release_counts mode c =
     \<lparr> read_count = (if om_read mode then read_count c - 1 else read_count c),
       write_count = (if om_write mode then write_count c - 1 else write_count c) \<rparr>"

subsection \<open>Counts and open handles\<close>

text \<open>The number of handles of a file open for reading and for writing.\<close>

abbreviation readers :: "open_mode list \<Rightarrow> nat" where
  "readers hs \<equiv> length (filter om_read hs)"

abbreviation writers :: "open_mode list \<Rightarrow> nat" where
  "writers hs \<equiv> length (filter om_write hs)"

definition counts_match :: "open_mode list \<Rightarrow> count \<Rightarrow> bool" where
  "counts_match hs c \<longleftrightarrow> unat (read_count c) = readers hs \<and> unat (write_count c) = writers hs"

text \<open>What the attributes promise about the handles open at the same time.\<close>

definition level_ok :: "open_level \<Rightarrow> nat \<Rightarrow> bool" where
  "level_ok level n \<longleftrightarrow> (case level of Block \<Rightarrow> n = 0 | Single \<Rightarrow> n \<le> 1 | Multi \<Rightarrow> True)"

definition unmixed :: "open_mode list \<Rightarrow> bool" where
  "unmixed hs \<longleftrightarrow> (\<forall>i<length hs. \<forall>j<length hs. i \<noteq> j \<longrightarrow> \<not> (om_read (hs ! i) \<and> om_write (hs ! j)))"

definition sharing_ok :: "attributes \<Rightarrow> open_mode list \<Rightarrow> bool" where
  "sharing_ok a hs \<longleftrightarrow> level_ok (read_level a) (readers hs) \<and> level_ok (write_level a) (writers hs)
     \<and> (exclusive a \<longrightarrow> unmixed hs)"

text \<open>The states of a file: its open handles (newest first) and its counts, starting with none; a handle
  is opened by \<open>try_open\<close> and any handle may be closed. The counters are below their limit.\<close>

inductive file_state :: "attributes \<Rightarrow> open_mode list \<Rightarrow> count \<Rightarrow> bool" for a where
  fs_new: "file_state a [] no_count"
| fs_open: "file_state a hs c \<Longrightarrow> length hs + 1 < 2 ^ 32 \<Longrightarrow> try_open a mode c = (Success, c') \<Longrightarrow>
     file_state a (mode # hs) c'"
| fs_close: "file_state a (hs @ mode # hs') c \<Longrightarrow> file_state a (hs @ hs') (release_counts mode c)"

lemma unat_Suc_u32: "unat (w :: u32) + 1 < 2 ^ 32 \<Longrightarrow> unat (w + 1) = unat w + 1"
  by (simp add: unat_plus_if_size word_size)

lemma unat_pred_u32: "0 < unat (w :: u32) \<Longrightarrow> unat (w - 1) = unat w - 1"
  by (metis unat_0 unat_minus_one less_numeral_extra(3))

lemma file_state_counts: "file_state a hs c \<Longrightarrow> counts_match hs c"
proof (induction rule: file_state.induct)
  case fs_new
  then show ?case by (simp add: counts_match_def no_count_def)
next
  case (fs_open hs c mode c')
  have "readers hs \<le> length hs" "writers hs \<le> length hs" by simp_all
  then have "unat (read_count c) + 1 < 2 ^ 32" "unat (write_count c) + 1 < 2 ^ 32"
    using fs_open unfolding counts_match_def by linarith+
  then have "unat (read_count c + 1) = unat (read_count c) + 1" "unat (write_count c + 1) = unat (write_count c) + 1"
    by (simp_all only: unat_Suc_u32)
  with fs_open show ?case
    by (auto simp: counts_match_def try_open_def Let_def split: if_splits)
next
  case (fs_close hs mode hs' c)
  then show ?case
    by (auto simp: counts_match_def release_counts_def unat_pred_u32)
qed

lemma level_ok_le: "level_ok level n \<Longrightarrow> k \<le> n \<Longrightarrow> level_ok level k"
  by (cases level) (auto simp: level_ok_def)

lemma unmixed_remove:
  assumes "unmixed (hs @ m # hs')"
  shows "unmixed (hs @ hs')"
  unfolding unmixed_def
proof (intro allI impI)
  fix i j assume ij: "i < length (hs @ hs')" "j < length (hs @ hs')" "i \<noteq> j"
  define f where "f k = (if k < length hs then k else Suc k)" for k
  have "(hs @ m # hs') ! f k = (hs @ hs') ! k" for k
    by (auto simp: f_def nth_append Suc_diff_le)
  moreover have "f i < length (hs @ m # hs')" "f j < length (hs @ m # hs')" "f i \<noteq> f j"
    using ij by (auto simp: f_def)
  ultimately show "\<not> (om_read ((hs @ hs') ! i) \<and> om_write ((hs @ hs') ! j))"
    using assms unfolding unmixed_def by metis
qed

lemma unmixed_Cons:
  assumes "unmixed hs" "om_read mode \<Longrightarrow> writers hs = 0" "om_write mode \<Longrightarrow> readers hs = 0"
  shows "unmixed (mode # hs)"
  unfolding unmixed_def
proof (intro allI impI)
  fix i j assume ij: "i < length (mode # hs)" "j < length (mode # hs)" "i \<noteq> j"
  then consider k l where "i = Suc k" "j = Suc l" "k \<noteq> l" "k < length hs" "l < length hs"
    | l where "i = 0" "j = Suc l" "l < length hs" | k where "i = Suc k" "j = 0" "k < length hs"
    by (cases i; cases j) auto
  then show "\<not> (om_read ((mode # hs) ! i) \<and> om_write ((mode # hs) ! j))"
  proof cases
    case (1 k l)
    with assms(1) show ?thesis by (simp add: unmixed_def)
  next
    case (2 l)
    then have "hs ! l \<in> set hs" by simp
    with 2 assms(2) show ?thesis by (auto simp: filter_empty_conv)
  next
    case (3 k)
    then have "hs ! k \<in> set hs" by simp
    with 3 assms(3) show ?thesis by (auto simp: filter_empty_conv)
  qed
qed

text \<open>C18. Sharing rules of open files: whatever sequence of opens and closes a file has seen, its counts
  are the numbers of reading and writing handles, a file with a \<open>Single\<close> level has at most one such
  handle, one with a \<open>Block\<close> level none, and on an exclusive file no handle reads while another writes.\<close>

theorem open_handles_respect_sharing:
  assumes "file_state a hs c"
  shows "counts_match hs c \<and> sharing_ok a hs"
proof
  show "counts_match hs c" using assms by (rule file_state_counts)
  show "sharing_ok a hs"
    using assms
  proof (induction rule: file_state.induct)
    case fs_new
    show ?case by (simp add: sharing_ok_def level_ok_def unmixed_def split: open_level.split)
  next
    case (fs_open hs c mode c')
    have cm: "counts_match hs c" by (rule file_state_counts [OF fs_open.hyps(1)])
    have zero: "read_count c = 0 \<longleftrightarrow> readers hs = 0" "write_count c = 0 \<longleftrightarrow> writers hs = 0"
      using cm by (auto simp: counts_match_def unat_eq_zero)
    have r: "om_read mode \<Longrightarrow> check_level (read_level a) (exclusive a) (read_count c) (write_count c) = Success"
      and w: "om_write mode \<Longrightarrow> check_level (write_level a) (exclusive a) (write_count c) (read_count c) = Success"
      using fs_open.hyps(3) by (auto simp: try_open_def Let_def split: if_splits)
    have rl: "level_ok (read_level a) (readers (mode # hs))" "exclusive a \<Longrightarrow> om_read mode \<Longrightarrow> writers hs = 0"
      using r zero fs_open.IH
      by (auto simp: check_level_def level_ok_def sharing_ok_def split: open_level.splits if_splits)
    have wl: "level_ok (write_level a) (writers (mode # hs))" "exclusive a \<Longrightarrow> om_write mode \<Longrightarrow> readers hs = 0"
      using w zero fs_open.IH
      by (auto simp: check_level_def level_ok_def sharing_ok_def split: open_level.splits if_splits)
    have "unmixed (mode # hs)" if e: "exclusive a"
      by (rule unmixed_Cons) (use rl(2) wl(2) e fs_open.IH in \<open>auto simp: sharing_ok_def\<close>)
    with rl wl show ?case unfolding sharing_ok_def by blast
  next
    case (fs_close hs mode hs' c)
    have "readers (hs @ hs') \<le> readers (hs @ mode # hs')" "writers (hs @ hs') \<le> writers (hs @ mode # hs')" by simp_all
    with fs_close.IH show ?case unfolding sharing_ok_def by (auto intro: level_ok_le unmixed_remove)
  qed
qed

theorem open_handles_respect_sharing_witness:
  "\<exists>c. counts_match [open_rw] c \<and> sharing_ok default_attributes [open_rw]"
proof -
  have t: "try_open default_attributes open_rw no_count = (Success, \<lparr> read_count = 1, write_count = 1 \<rparr>)"
    by (simp add: try_open_def default_attributes_def open_rw_def no_count_def check_level_def)
  have "file_state default_attributes [open_rw] \<lparr> read_count = 1, write_count = 1 \<rparr>"
    by (rule fs_open [OF fs_new _ t]) simp
  from open_handles_respect_sharing [OF this] show ?thesis by blast
qed

end
