(* ===== verification/Page_Cache.thy ===== *)
theory Page_Cache
  imports Klee_Prelude
begin

text \<open>
  The page cache of files: \<^verbatim>\<open>CachePage\<close> and the cache providers of \<^verbatim>\<open>src/fs/pagecache.hpp\<close> and
  \<^verbatim>\<open>src/fs/drivers/dev/block.hpp\<close>, and \<^verbatim>\<open>FileOperator::prepare_cache\<close> and \<^verbatim>\<open>FileOperator::copy\<close> of
  \<^verbatim>\<open>src/fs/fs.hpp\<close>. The virtual methods of \<^verbatim>\<open>CacheProvider\<close> are a record of operations on the state of
  the cache; the locale \<open>cache_provider\<close> states what \<open>copy\<close> relies on and is interpreted for the plain
  provider and for the one that shows a partition of another provider's pages. Within the locale,
  \<open>copy\<close> is shown to read and write the file as a flat array of bytes.
  Numbers are natural numbers below \<open>2 ^ 64\<close>; the sums the source forms are reduced modulo \<open>2 ^ 64\<close>.
  Frames come from \<^verbatim>\<open>memory::allocate_single\<close>: the outcomes of its successive calls, with the contents
  of the new frames, are a list that the operations consume.
\<close>

datatype cache_page = Uninitialized | Clean "u8 list" | Dirty "u8 list"

text \<open>\<open>get_frame\<close>: a page without a frame has none.\<close>

fun get_frame :: "cache_page \<Rightarrow> u8 list option" where
  "get_frame Uninitialized = None"
| "get_frame (Clean b) = Some b"
| "get_frame (Dirty b) = Some b"

text \<open>A store through the frame pointer; the state is not changed by it.\<close>

fun set_frame :: "cache_page \<Rightarrow> u8 list \<Rightarrow> cache_page" where
  "set_frame Uninitialized b = Uninitialized"
| "set_frame (Clean _) b = Clean b"
| "set_frame (Dirty _) b = Dirty b"

record 's provider =
  p_at :: "'s \<Rightarrow> nat \<Rightarrow> cache_page option"
  p_put :: "'s \<Rightarrow> nat \<Rightarrow> cache_page \<Rightarrow> 's"
  p_capacity :: "'s \<Rightarrow> nat"
  p_ensure :: "'s \<Rightarrow> nat \<Rightarrow> 's"

text \<open>\<open>DefaultCacheProvider\<close>: a vector; \<open>ensure_capacity\<close> is \<^verbatim>\<open>resize\<close>.\<close>

definition resize :: "cache_page list \<Rightarrow> nat \<Rightarrow> cache_page list" where
  "resize cs n = take n cs @ replicate (n - length cs) Uninitialized"

definition default_provider :: "cache_page list provider" where
  "default_provider = \<lparr>
     p_at = (\<lambda>cs i. if i < length cs then Some (cs ! i) else None),
     p_put = (\<lambda>cs i c. cs[i := c]),
     p_capacity = length,
     p_ensure = resize \<rparr>"

text \<open>\<open>PartitionCacheProvider\<close>: the pages of \<open>base\<close> from \<open>page_offset\<close> on.\<close>

definition partition_provider :: "nat \<Rightarrow> 's provider \<Rightarrow> 's provider" where
  "partition_provider page_offset base = \<lparr>
     p_at = (\<lambda>s i. p_at base s (page_offset + i)),
     p_put = (\<lambda>s i c. p_put base s (page_offset + i) c),
     p_capacity = (\<lambda>s. let sz = p_capacity base s in if sz > page_offset then sz - page_offset else 0),
     p_ensure = (\<lambda>s n. p_ensure base s (page_offset + n)) \<rparr>"

definition partition_page_offset :: "nat \<Rightarrow> nat \<Rightarrow> nat" where
  "partition_page_offset block_offset blocks_per_page = block_offset div blocks_per_page"

subsection \<open>Preparing the cache\<close>

datatype initialize = InitNone | InitAll | InitHeadTail

definition ceil_div :: "nat \<Rightarrow> nat \<Rightarrow> nat" where
  "ceil_div a b = (a + b - 1) mod 2 ^ 64 div b"

type_synonym frames = "u8 list result list"

text \<open>
  \<open>dread\<close> is the driver's \<open>read\<close> on the file: it is given the driver data of the handle, the first block and the
  number of blocks, and returns the driver data as the call leaves it, which is passed by reference, with the bytes or
  an error.
\<close>

type_synonym driver_read = "nat \<Rightarrow> nat \<Rightarrow> nat \<Rightarrow> nat \<times> u8 list result"

definition must_load :: "initialize \<Rightarrow> nat \<Rightarrow> nat \<Rightarrow> nat \<Rightarrow> nat \<Rightarrow> bool" where
  "must_load ini begin_page end_page filesize p \<longleftrightarrow>
     (ini = InitAll \<or> ini = InitHeadTail \<and> (p = begin_page \<or> p = end_page - 1))
     \<and> p * bytes_per_page < filesize"

definition load_page ::
  "driver_read \<Rightarrow> nat \<Rightarrow> nat \<Rightarrow> nat \<Rightarrow> nat \<Rightarrow> u8 list \<Rightarrow> nat \<times> u8 list result" where
  "load_page dread blocksize_exp filesize p h page =
     (let blocksize = 2 ^ blocksize_exp;
          blocks_per_page = bytes_per_page div 2 ^ blocksize_exp;
          filesize_blocks = ceil_div filesize blocksize;
          block_begin = p * blocks_per_page;
          blocks_read = min blocks_per_page (filesize_blocks - block_begin)
      in (case dread h block_begin blocks_read of
            (h, Inl e) \<Rightarrow> (h, Inl e)
          | (h, Inr bytes) \<Rightarrow> (h, Inr (bytes @ drop (length bytes) page))))"

fun prepare_pages ::
  "'s provider \<Rightarrow> driver_read \<Rightarrow> nat \<Rightarrow> nat \<Rightarrow> (nat \<Rightarrow> bool) \<Rightarrow> nat list \<Rightarrow> nat \<Rightarrow> 's \<Rightarrow> frames
    \<Rightarrow> (error_code \<times> nat \<times> 's \<times> frames) option" where
  "prepare_pages pv dread bs filesize load [] h s fr = Some (Success, h, s, fr)"
| "prepare_pages pv dread bs filesize load (p # ps) h s fr =
     (case p_at pv s p of
        None \<Rightarrow> None
      | Some Uninitialized \<Rightarrow>
          (case fr of
             [] \<Rightarrow> Some (NoEnoughMemory, h, s, [])
           | Inl e # fr \<Rightarrow> Some (e, h, s, fr)
           | Inr page # fr \<Rightarrow>
               (case (if load p then load_page dread bs filesize p h page else (h, Inr page)) of
                  (h, Inl e) \<Rightarrow> Some (e, h, s, fr)
                | (h, Inr page) \<Rightarrow> prepare_pages pv dread bs filesize load ps h (p_put pv s p (Clean page)) fr))
      | Some _ \<Rightarrow> prepare_pages pv dread bs filesize load ps h s fr)"

definition prepare_cache ::
  "'s provider \<Rightarrow> driver_read \<Rightarrow> nat \<Rightarrow> nat \<Rightarrow> nat \<Rightarrow> nat \<Rightarrow> initialize \<Rightarrow> nat \<Rightarrow> 's \<Rightarrow> frames
    \<Rightarrow> (error_code \<times> nat \<times> 's \<times> frames) option" where
  "prepare_cache pv dread blocksize_exp filesize begin_page end_page ini h s fr =
     (let s = (if p_capacity pv s < end_page then p_ensure pv s end_page else s) in
      if 2 ^ blocksize_exp > bytes_per_page then Some (NotImplemented, h, s, fr)
      else prepare_pages pv dread blocksize_exp filesize
             (must_load ini begin_page end_page filesize) [begin_page..<end_page] h s fr)"

subsection \<open>Copying\<close>

text \<open>\<^verbatim>\<open>memcpy(dst + i, src, n)\<close> with \<open>ys\<close> the \<open>n\<close> bytes of the source.\<close>

definition splice_at :: "'a list \<Rightarrow> nat \<Rightarrow> 'a list \<Rightarrow> 'a list" where
  "splice_at xs i ys = take i xs @ ys @ drop (i + length ys) xs"

text \<open>One \<^verbatim>\<open>memcpy\<close> between the page and the buffer at position \<open>pos\<close>.\<close>

definition copy_page ::
  "'s provider \<Rightarrow> bool \<Rightarrow> nat \<Rightarrow> nat \<Rightarrow> nat \<Rightarrow> nat \<Rightarrow> 's \<times> u8 list \<Rightarrow> ('s \<times> u8 list) option" where
  "copy_page pv write page off pos len sb = (case sb of (s, buf) \<Rightarrow> do {
     c \<leftarrow> p_at pv s page;
     frame \<leftarrow> get_frame c;
     if write then Some (p_put pv s page (set_frame c (splice_at frame off (take len (drop pos buf)))), buf)
     else Some (s, splice_at buf pos (take len (drop off frame))) })"

function copy_body ::
  "'s provider \<Rightarrow> bool \<Rightarrow> nat \<Rightarrow> nat \<Rightarrow> nat \<Rightarrow> 's \<times> u8 list \<Rightarrow> (nat \<times> nat \<times> nat \<times> 's \<times> u8 list) option" where
  "copy_body pv write page pos copy sb =
     (if copy \<ge> bytes_per_page then do {
        sb \<leftarrow> copy_page pv write page 0 pos bytes_per_page sb;
        copy_body pv write (page + 1) (pos + bytes_per_page) (copy - bytes_per_page) sb }
      else Some (page, pos, copy, sb))"
  by pat_completeness auto
termination
  by (relation "measure (\<lambda>(pv, w, page, pos, copy, sb). copy)") (auto simp: bytes_per_page_def)

declare copy_body.simps [simp del]

text \<open>\<open>FileOperator::copy\<close>. Without the cache the request goes to the driver as a whole: \<open>raw\<close> is its \<open>read\<close>
  or \<open>write\<close> and returns the driver data of the handle and the number of blocks.\<close>

definition copy_uncached :: "(nat \<Rightarrow> nat \<Rightarrow> nat \<Rightarrow> nat \<times> nat result) \<Rightarrow> nat \<Rightarrow> nat \<Rightarrow> nat \<Rightarrow> nat \<Rightarrow> nat \<times> nat result" where
  "copy_uncached raw blocksize_exp offset sz h =
     (if offset mod 2 ^ blocksize_exp \<noteq> 0 \<or> sz mod 2 ^ blocksize_exp \<noteq> 0 then (h, Inl InvalidSize)
      else (case raw h (offset div 2 ^ blocksize_exp) (sz div 2 ^ blocksize_exp) of
              (h, Inl e) \<Rightarrow> (h, Inl e)
            | (h, Inr n) \<Rightarrow> (h, Inr (n * 2 ^ blocksize_exp mod 2 ^ 64))))"

text \<open>The part of the copy up to the next page boundary: the next page, the position in the buffer, the
  bytes left.\<close>

definition copy_head ::
  "'s provider \<Rightarrow> bool \<Rightarrow> nat \<Rightarrow> nat \<Rightarrow> 's \<times> u8 list \<Rightarrow> (nat \<times> nat \<times> nat \<times> 's \<times> u8 list) option" where
  "copy_head pv write offset copyable sb =
     (let page = offset div bytes_per_page in
      if offset mod bytes_per_page \<noteq> 0 then do {
        let offset_in_page = offset mod bytes_per_page;
        let size_in_page = bytes_per_page - offset_in_page;
        let len = min copyable size_in_page;
        sb \<leftarrow> copy_page pv write page offset_in_page 0 len sb;
        Some (page + 1, len, copyable - len, sb) }
      else Some (page, 0, copyable, sb))"

definition copy_range :: "'s provider \<Rightarrow> bool \<Rightarrow> nat \<Rightarrow> nat \<Rightarrow> 's \<times> u8 list \<Rightarrow> ('s \<times> u8 list) option" where
  "copy_range pv write offset copyable sb = do {
     (page, pos, copy, sb) \<leftarrow> copy_head pv write offset copyable sb;
     (page, pos, copy, sb) \<leftarrow> (if copy \<noteq> 0 then copy_body pv write page pos copy sb else Some (page, pos, copy, sb));
     (if copy \<noteq> 0 then copy_page pv write page 0 pos copy sb else Some sb) }"

definition copy_cached ::
  "'s provider \<Rightarrow> driver_read \<Rightarrow> nat \<Rightarrow> nat \<Rightarrow> nat \<Rightarrow> nat \<Rightarrow> bool \<Rightarrow> u8 list \<Rightarrow> nat \<Rightarrow> 's \<Rightarrow> frames
    \<Rightarrow> (nat result \<times> u8 list \<times> nat \<times> 's \<times> frames) option" where
  "copy_cached pv dread blocksize_exp filesize offset sz write buf h s fr =
     (if sz = 0 then Some (Inr 0, buf, h, s, fr)
      else if (offset + sz) mod 2 ^ 64 > filesize then Some (Inl IndexOutOfRange, buf, h, s, fr)
      else do {
        let cache_begin = offset div bytes_per_page;
        let cache_end = ceil_div ((offset + sz) mod 2 ^ 64) bytes_per_page;
        (e, h, s, fr) \<leftarrow> prepare_cache pv dread blocksize_exp filesize cache_begin cache_end
                           (if write then InitHeadTail else InitAll) h s fr;
        if e \<noteq> Success then Some (Inl e, buf, h, s, fr)
        else do {
          let copyable = min sz (nat ((int filesize - int offset) mod 2 ^ 64));
          (s, buf) \<leftarrow> copy_range pv write offset copyable (s, buf);
          Some (Inr copyable, buf, h, s, fr) } })"

subsection \<open>What \<open>copy\<close> relies on\<close>

locale cache_provider =
  fixes pv :: "'s provider"
  assumes at_iff: "p_at pv s i \<noteq> None \<longleftrightarrow> i < p_capacity pv s"
    and at_put: "i < p_capacity pv s \<Longrightarrow> p_at pv (p_put pv s i c) j = (if j = i then Some c else p_at pv s j)"
    and capacity_put: "p_capacity pv (p_put pv s i c) = p_capacity pv s"
    and capacity_ensure: "p_capacity pv s < n \<Longrightarrow> p_capacity pv (p_ensure pv s n) = n"
    and at_ensure: "p_capacity pv s < n \<Longrightarrow> i < n \<Longrightarrow>
          p_at pv (p_ensure pv s n) i = (if i < p_capacity pv s then p_at pv s i else Some Uninitialized)"

text \<open>
  The file as a flat array: the byte at position \<open>i\<close> is in the cache when its page has a frame, and on the
  device otherwise.
\<close>

definition page_ready :: "'s provider \<Rightarrow> 's \<Rightarrow> nat \<Rightarrow> bool" where
  "page_ready pv s p \<longleftrightarrow> (case p_at pv s p of Some c \<Rightarrow> c \<noteq> Uninitialized | None \<Rightarrow> False)"

definition file_byte :: "'s provider \<Rightarrow> (nat \<Rightarrow> u8) \<Rightarrow> 's \<Rightarrow> nat \<Rightarrow> u8" where
  "file_byte pv dev s i =
     (case p_at pv s (i div bytes_per_page) of
        None \<Rightarrow> dev i
      | Some c \<Rightarrow> (case get_frame c of None \<Rightarrow> dev i | Some f \<Rightarrow> f ! (i mod bytes_per_page)))"

lemma file_byte_cong:
  "p_at pv s (i div bytes_per_page) = p_at pv' s' (j div bytes_per_page) \<Longrightarrow>
     i mod bytes_per_page = j mod bytes_per_page \<Longrightarrow> dev i = dev' j \<Longrightarrow> file_byte pv dev s i = file_byte pv' dev' s' j"
  by (simp add: file_byte_def split: option.split)

definition cache_ok :: "'s provider \<Rightarrow> 's \<Rightarrow> bool" where
  "cache_ok pv s \<longleftrightarrow> (\<forall>p c f. p_at pv s p = Some c \<longrightarrow> get_frame c = Some f \<longrightarrow> length f = bytes_per_page)"

text \<open>
  The driver returns the device's bytes for every run of blocks inside the file, whenever the driver data of the handle
  is in order (\<open>pos_ok\<close>), and leaves it in order.
\<close>

definition reads_device :: "(nat \<Rightarrow> bool) \<Rightarrow> driver_read \<Rightarrow> nat \<Rightarrow> nat \<Rightarrow> (nat \<Rightarrow> u8) \<Rightarrow> bool" where
  "reads_device pos_ok dread blocksize_exp filesize dev \<longleftrightarrow>
     (\<forall>h b n. pos_ok h \<longrightarrow> b + n \<le> ceil_div filesize (2 ^ blocksize_exp) \<longrightarrow>
        (\<exists>h'. dread h b n = (h', Inr (map dev [b * 2 ^ blocksize_exp..<(b + n) * 2 ^ blocksize_exp])) \<and> pos_ok h'))"

definition frames_for :: "nat \<Rightarrow> frames \<Rightarrow> bool" where
  "frames_for n fr \<longleftrightarrow> n \<le> length fr \<and> (\<forall>x \<in> set (take n fr). \<exists>f. x = Inr f \<and> length f = bytes_per_page)"

text \<open>
  A sequence of reads through one handle: the request, with the buffer and the frames the allocator will hand out, and
  the outcome of each. The handle and the cache go from one to the next.
\<close>

definition read_request :: "nat \<Rightarrow> nat \<times> nat \<times> u8 list \<times> frames \<Rightarrow> bool" where
  "read_request filesize r \<longleftrightarrow>
     (case r of (offset, n, buf, fr) \<Rightarrow>
        0 < n \<and> offset + n \<le> filesize \<and> n \<le> length buf
        \<and> frames_for (ceil_div (offset + n) bytes_per_page - offset div bytes_per_page) fr)"

fun cached_reads ::
  "'s provider \<Rightarrow> driver_read \<Rightarrow> nat \<Rightarrow> nat \<Rightarrow> (nat \<times> nat \<times> u8 list \<times> frames) list \<Rightarrow> nat \<Rightarrow> 's
    \<Rightarrow> (nat result \<times> u8 list) list option" where
  "cached_reads pv dread e filesize [] h s = Some []"
| "cached_reads pv dread e filesize ((offset, n, buf, fr) # rs) h s = do {
     (r, buf, h, s, _) \<leftarrow> copy_cached pv dread e filesize offset n False buf h s fr;
     rest \<leftarrow> cached_reads pv dread e filesize rs h s;
     Some ((r, buf) # rest) }"

text \<open>What a transfer of \<open>len\<close> bytes between file position \<open>base\<close> and buffer position \<open>pos\<close> does.\<close>

definition copied ::
  "'s provider \<Rightarrow> (nat \<Rightarrow> u8) \<Rightarrow> bool \<Rightarrow> nat \<Rightarrow> nat \<Rightarrow> nat \<Rightarrow> 's \<times> u8 list \<Rightarrow> 's \<times> u8 list \<Rightarrow> bool" where
  "copied pv dev write base pos len sb sb' \<longleftrightarrow>
     (if write
      then snd sb' = snd sb
           \<and> (\<forall>i. file_byte pv dev (fst sb') i =
                 (if base \<le> i \<and> i < base + len then snd sb ! (pos + (i - base)) else file_byte pv dev (fst sb) i))
           \<and> page_ready pv (fst sb') = page_ready pv (fst sb)
           \<and> (cache_ok pv (fst sb) \<longrightarrow> cache_ok pv (fst sb'))
      else fst sb' = fst sb
           \<and> snd sb' = splice_at (snd sb) pos (map (file_byte pv dev (fst sb)) [base..<base + len]))"

lemma length_splice [simp]: "i + length ys \<le> length xs \<Longrightarrow> length (splice_at xs i ys) = length xs"
  by (simp add: splice_at_def)

lemma splice_Nil [simp]: "i \<le> length xs \<Longrightarrow> splice_at xs i [] = xs"
  by (simp add: splice_at_def)

lemma splice_splice:
  "i + length ys + length zs \<le> length xs \<Longrightarrow> splice_at (splice_at xs i ys) (i + length ys) zs = splice_at xs i (ys @ zs)"
  by (simp add: splice_at_def min_def ac_simps) (cases ys; simp)

lemma nth_splice:
  "i + length ys \<le> length xs \<Longrightarrow> k < length xs \<Longrightarrow>
     splice_at xs i ys ! k = (if i \<le> k \<and> k < i + length ys then ys ! (k - i) else xs ! k)"
  by (auto simp: splice_at_def nth_append min_def)

lemma copied_length: "copied pv dev w base pos len sb sb' \<Longrightarrow> pos + len \<le> length (snd sb) \<Longrightarrow> length (snd sb') = length (snd sb)"
  by (auto simp: copied_def split: if_splits)

lemma copied_ready: "copied pv dev w base pos len sb sb' \<Longrightarrow> page_ready pv (fst sb') = page_ready pv (fst sb)"
  by (auto simp: copied_def split: if_splits)

lemma copied_ok: "copied pv dev w base pos len sb sb' \<Longrightarrow> cache_ok pv (fst sb) \<Longrightarrow> cache_ok pv (fst sb')"
  by (auto simp: copied_def split: if_splits)

lemma copied_zero: "pos \<le> length (snd sb) \<Longrightarrow> copied pv dev w base pos 0 sb sb"
  by (auto simp: copied_def)

lemma copied_trans:
  assumes "copied pv dev w base pos m sb sb1" "copied pv dev w (base + m) (pos + m) n sb1 sb2"
    and len: "pos + m + n \<le> length (snd sb)"
  shows "copied pv dev w base pos (m + n) sb sb2"
proof (cases w)
  case True
  then show ?thesis
    using assms by (auto simp: copied_def)
next
  case False
  have "map (file_byte pv dev (fst sb)) [base..<base + (m + n)]
      = map (file_byte pv dev (fst sb)) [base..<base + m] @ map (file_byte pv dev (fst sb)) [base + m..<base + m + n]"
    by (metis map_append upt_add_eq_append le_add1 add.assoc)
  with False assms splice_splice [of pos "map (file_byte pv dev (fst sb)) [base..<base + m]"
      "map (file_byte pv dev (fst sb)) [base + m..<base + m + n]" "snd sb"]
  show ?thesis
    by (simp add: copied_def ac_simps)
qed

lemma flat_index:
  assumes "i < bytes_per_page"
  shows "(p * bytes_per_page + i) div bytes_per_page = p" "(p * bytes_per_page + i) mod bytes_per_page = i"
  using assms by (simp_all add: bytes_per_page_def)

lemma in_page_iff: "off + len \<le> bytes_per_page \<Longrightarrow>
   (p * bytes_per_page + off \<le> i \<and> i < p * bytes_per_page + off + len) \<longleftrightarrow>
   (i div bytes_per_page = p \<and> off \<le> i mod bytes_per_page \<and> i mod bytes_per_page < off + len)"
proof -
  assume l: "off + len \<le> bytes_per_page"
  have m: "i = i div bytes_per_page * bytes_per_page + i mod bytes_per_page" "i mod bytes_per_page < bytes_per_page"
    by (simp_all add: bytes_per_page_def)
  have "i div bytes_per_page = p" if "p * bytes_per_page + off \<le> i" "i < p * bytes_per_page + off + len"
    using that l by (intro div_nat_eqI) (simp_all add: mult.commute)
  then show ?thesis
    using m by (smt (verit, best) add.assoc add_le_cancel_left add_less_cancel_left)
qed

text \<open>A page that a range touches but does not fill is its first or its last.\<close>

lemma head_or_tail:
  assumes "offset div bytes_per_page \<le> i div bytes_per_page"
    and "i div bytes_per_page < (offset + n + bytes_per_page - 1) div bytes_per_page"
    and "\<not> (offset \<le> i \<and> i < offset + n)"
  shows "i div bytes_per_page = offset div bytes_per_page
       \<or> i div bytes_per_page = (offset + n + bytes_per_page - 1) div bytes_per_page - 1"
  using assms div_le_mono [of i offset bytes_per_page]
    div_le_mono [of "offset + n + bytes_per_page - 1" "i + bytes_per_page" bytes_per_page]
  by (auto simp: bytes_per_page_def)

lemma ready_frame:
  "page_ready pv s p \<Longrightarrow> cache_ok pv s \<Longrightarrow>
     \<exists>c f. p_at pv s p = Some c \<and> get_frame c = Some f \<and> length f = bytes_per_page \<and> c \<noteq> Uninitialized"
  unfolding page_ready_def cache_ok_def
  by (auto split: option.splits) (metis get_frame.elims)

lemma frame_bytes:
  "p_at pv s p = Some c \<Longrightarrow> get_frame c = Some f \<Longrightarrow> length f = bytes_per_page \<Longrightarrow> off + len \<le> bytes_per_page \<Longrightarrow>
     take len (drop off f) = map (file_byte pv dev s) [p * bytes_per_page + off..<p * bytes_per_page + off + len]"
  by (rule nth_equalityI) (simp_all add: file_byte_def add.assoc flat_index del: add_mult_distrib)

text \<open>Loading a page puts the device's bytes of the file's part of the page into the frame.\<close>

lemma ceil_div_ge: "a + b \<le> 2 ^ 64 \<Longrightarrow> 0 < b \<Longrightarrow> a \<le> ceil_div a b * b"
proof -
  assume a: "a + b \<le> 2 ^ 64" "0 < b"
  then have "ceil_div a b = (a + b - 1) div b"
    by (simp add: ceil_div_def)
  then show ?thesis
    using a div_mult_mod_eq [of "a + b - 1" b] mod_less_divisor [OF a(2), of "a + b - 1"]
    by (simp only:)
qed

lemma ceil_div_gt: "a + b \<le> 2 ^ 64 \<Longrightarrow> 0 < b \<Longrightarrow> k * b < a \<Longrightarrow> k < ceil_div a b"
  using ceil_div_ge [of a b] by (meson le_less_trans less_le_trans mult_less_cancel2 not_le)

lemma load_page_ok:
  assumes dev: "reads_device pos_ok dread e filesize dev" and e: "2 ^ e \<le> bytes_per_page" and fs: "filesize + bytes_per_page \<le> 2 ^ 64"
    and h: "pos_ok h" and page: "length page = bytes_per_page" and p: "p * bytes_per_page < filesize"
  shows "\<exists>h' page'. load_page dread e filesize p h page = (h', Inr page') \<and> pos_ok h' \<and> length page' = bytes_per_page
           \<and> (\<forall>i < filesize. i div bytes_per_page = p \<longrightarrow> page' ! (i mod bytes_per_page) = dev i)"
proof -
  let ?bs = "2 ^ e :: nat" and ?bpp = "bytes_per_page div 2 ^ e" and ?n = "ceil_div filesize (2 ^ e)"
  have "?bs dvd bytes_per_page"
    using e power_le_imp_le_exp [of "2 :: nat" e 12] le_imp_power_dvd [of e 12 "2 :: nat"]
    by (simp add: bytes_per_page_def)
  then have bpp: "?bpp * ?bs = bytes_per_page"
    by simp
  have n: "filesize \<le> ?n * ?bs"
    using fs e by (intro ceil_div_ge) auto
  let ?b = "p * ?bpp"
  let ?k = "min ?bpp (?n - ?b)"
  have b: "?b * ?bs = p * bytes_per_page"
    using bpp by (metis mult.assoc)
  have "?b * ?bs < ?n * ?bs"
    using p n b by linarith
  then have lt: "?b < ?n"
    by simp
  obtain h' where rd: "dread h ?b ?k = (h', Inr (map dev [?b * ?bs..<(?b + ?k) * ?bs]))" "pos_ok h'"
    using dev lt h unfolding reads_device_def by (metis add_diff_inverse_nat add_le_cancel_left less_or_eq_imp_le min.cobounded2 not_less)
  let ?page = "map dev [?b * ?bs..<(?b + ?k) * ?bs] @ drop (?k * ?bs) page"
  have kb: "?k * ?bs \<le> bytes_per_page"
    using bpp by (metis min.cobounded1 mult_le_mono1)
  have len: "length ?page = bytes_per_page"
    using kb page by (simp add: distrib_right)
  have byte: "?page ! (i mod bytes_per_page) = dev i" if "i < filesize" "i div bytes_per_page = p" for i
  proof -
    have i: "i = p * bytes_per_page + i mod bytes_per_page" "i mod bytes_per_page < bytes_per_page"
      using that by (auto simp: bytes_per_page_def)
    have "i mod bytes_per_page < ?k * ?bs"
    proof (cases "?bpp \<le> ?n - ?b")
      case True
      then show ?thesis using i bpp by simp
    next
      case False
      then have "?k * ?bs = ?n * ?bs - p * bytes_per_page"
        using b by (simp only: min_def if_False diff_mult_distrib)
      then show ?thesis using i(1) that(1) n by linarith
    qed
    moreover have "?b * ?bs + i mod bytes_per_page = i"
      unfolding b by (rule i(1) [symmetric])
    ultimately show ?thesis
      by (simp add: nth_append distrib_right)
  qed
  show ?thesis
    using rd byte len by (intro exI [of _ h'] exI [of _ ?page]) (simp add: load_page_def Let_def distrib_right)
qed

context cache_provider
begin

lemma ready_capacity: "page_ready pv s p \<Longrightarrow> p < p_capacity pv s"
  using at_iff [of s p] by (auto simp: page_ready_def split: option.splits)

lemma copy_page_copied:
  assumes ready: "page_ready pv s p" and ok: "cache_ok pv s"
    and off: "off + len \<le> bytes_per_page" and pos: "pos + len \<le> length buf"
  shows "\<exists>sb'. copy_page pv w p off pos len (s, buf) = Some sb'
           \<and> copied pv dev w (p * bytes_per_page + off) pos len (s, buf) sb'"
proof -
  obtain c f where c: "p_at pv s p = Some c" "get_frame c = Some f" "length f = bytes_per_page" "c \<noteq> Uninitialized"
    using ready_frame [OF ready ok] by blast
  show ?thesis
  proof (cases w)
    case False
    then show ?thesis
      using c frame_bytes [OF c(1-3) off, of dev] by (simp add: copy_page_def copied_def)
  next
    case True
    let ?f = "splice_at f off (take len (drop pos buf))"
    let ?s = "p_put pv s p (set_frame c ?f)"
    have at: "p_at pv ?s q = (if q = p then Some (set_frame c ?f) else p_at pv s q)" for q
      using at_put ready_capacity [OF ready] by simp
    have fr: "get_frame (set_frame c ?f) = Some ?f" "set_frame c ?f \<noteq> Uninitialized"
      using c by (cases c; simp)+
    have lf: "length ?f = bytes_per_page"
      using c(3) off pos by simp
    have "file_byte pv dev ?s i =
            (if p * bytes_per_page + off \<le> i \<and> i < p * bytes_per_page + off + len
             then buf ! (pos + (i - (p * bytes_per_page + off))) else file_byte pv dev s i)" for i
    proof (cases "i div bytes_per_page = p")
      case True
      then have i: "i = p * bytes_per_page + i mod bytes_per_page" "i mod bytes_per_page < bytes_per_page"
        by (auto simp: bytes_per_page_def)
      have "i - (p * bytes_per_page + off) = i mod bytes_per_page - off"
        using i(1) by linarith
      moreover have "?f ! (i mod bytes_per_page) =
          (if off \<le> i mod bytes_per_page \<and> i mod bytes_per_page < off + len
           then buf ! (pos + (i mod bytes_per_page - off)) else f ! (i mod bytes_per_page))"
        using c off pos i(2) by (subst nth_splice) auto
      ultimately show ?thesis
        unfolding in_page_iff [OF off] using True c by (simp add: file_byte_def at fr)
    next
      case False
      then show ?thesis
        unfolding in_page_iff [OF off] by (simp add: file_byte_def at)
    qed
    moreover have "page_ready pv ?s = page_ready pv s"
      using ready fr(2) by (auto simp: page_ready_def at fun_eq_iff)
    moreover have "cache_ok pv ?s"
      using ok fr lf by (auto simp: cache_ok_def at split: if_splits)
    ultimately show ?thesis
      using True c by (simp add: copy_page_def copied_def)
  qed
qed

lemma copy_body_copied:
  assumes "\<And>p. page \<le> p \<Longrightarrow> p < page + copy div bytes_per_page \<Longrightarrow> page_ready pv (fst sb) p"
    and "cache_ok pv (fst sb)" and "pos + copy \<le> length (snd sb)"
  shows "\<exists>sb'. copy_body pv w page pos copy sb
             = Some (page + copy div bytes_per_page, pos + copy div bytes_per_page * bytes_per_page,
                     copy mod bytes_per_page, sb')
           \<and> copied pv dev w (page * bytes_per_page) pos (copy div bytes_per_page * bytes_per_page) sb sb'"
  using assms
proof (induction copy arbitrary: page pos sb rule: less_induct)
  case (less copy)
  show ?case
  proof (cases "bytes_per_page \<le> copy")
    case False
    then show ?thesis
      using less.prems by (simp add: copy_body.simps copied_zero)
  next
    case True
    have d: "copy div bytes_per_page = Suc ((copy - bytes_per_page) div bytes_per_page)"
       "copy mod bytes_per_page = (copy - bytes_per_page) mod bytes_per_page"
      using True by (auto simp: bytes_per_page_def le_div_geq le_mod_geq)
    obtain s buf where sb: "sb = (s, buf)"
      by force
    obtain sb1 where sb1: "copy_page pv w page 0 pos bytes_per_page sb = Some sb1"
        "copied pv dev w (page * bytes_per_page) pos bytes_per_page sb sb1"
      using copy_page_copied [of s page 0 bytes_per_page pos buf w dev] less.prems True d sb by auto
    have "\<exists>sb'. copy_body pv w (page + 1) (pos + bytes_per_page) (copy - bytes_per_page) sb1
             = Some (page + 1 + (copy - bytes_per_page) div bytes_per_page,
                     pos + bytes_per_page + (copy - bytes_per_page) div bytes_per_page * bytes_per_page,
                     (copy - bytes_per_page) mod bytes_per_page, sb')
           \<and> copied pv dev w ((page + 1) * bytes_per_page) (pos + bytes_per_page)
               ((copy - bytes_per_page) div bytes_per_page * bytes_per_page) sb1 sb'"
      using less.prems True d copied_ready [OF sb1(2)] copied_ok [OF sb1(2)] copied_length [OF sb1(2)]
      by (intro less.IH) (auto simp: bytes_per_page_def)
    then obtain sb' where sb': "copy_body pv w (page + 1) (pos + bytes_per_page) (copy - bytes_per_page) sb1
             = Some (page + 1 + (copy - bytes_per_page) div bytes_per_page,
                     pos + bytes_per_page + (copy - bytes_per_page) div bytes_per_page * bytes_per_page,
                     (copy - bytes_per_page) mod bytes_per_page, sb')"
        "copied pv dev w ((page + 1) * bytes_per_page) (pos + bytes_per_page)
               ((copy - bytes_per_page) div bytes_per_page * bytes_per_page) sb1 sb'"
      by blast
    have le: "(copy - bytes_per_page) div bytes_per_page * bytes_per_page \<le> copy - bytes_per_page"
      by simp
    have "pos + bytes_per_page + (copy - bytes_per_page) div bytes_per_page * bytes_per_page \<le> length (snd sb)"
      using less.prems(3) True le by linarith
    then have "copied pv dev w (page * bytes_per_page) pos
            (bytes_per_page + (copy - bytes_per_page) div bytes_per_page * bytes_per_page) sb sb'"
      by (intro copied_trans [OF sb1(2)]) (use sb'(2) in \<open>simp_all add: add.commute\<close>)
    then show ?thesis
      using True sb1(1) sb'(1) d by (subst copy_body.simps) (simp add: add.assoc add.commute)
  qed
qed

lemma prepare_pages_ready:
  assumes dev: "reads_device pos_ok dread e filesize dev" and e: "2 ^ e \<le> bytes_per_page" and fs: "filesize + bytes_per_page \<le> 2 ^ 64"
  shows "pos_ok h \<Longrightarrow> distinct ps \<Longrightarrow> (\<And>p. p \<in> set ps \<Longrightarrow> p < p_capacity pv s) \<Longrightarrow> cache_ok pv s \<Longrightarrow> frames_for (length ps) fr \<Longrightarrow>
     (\<And>p. load p \<Longrightarrow> p * bytes_per_page < filesize) \<Longrightarrow>
     \<exists>h' s' fr'. prepare_pages pv dread e filesize load ps h s fr = Some (Success, h', s', fr') \<and> pos_ok h' \<and> cache_ok pv s'
       \<and> page_ready pv s' = (\<lambda>p. p \<in> set ps \<or> page_ready pv s p)
       \<and> (\<forall>i < filesize. i div bytes_per_page \<notin> set ps \<or> load (i div bytes_per_page) \<or> page_ready pv s (i div bytes_per_page)
             \<longrightarrow> file_byte pv dev s' i = file_byte pv dev s i)"
proof (induction ps arbitrary: h s fr)
  case Nil
  then show ?case by simp
next
  case (Cons p ps)
  show ?case
  proof (cases "page_ready pv s p")
    case True
    obtain c where c: "p_at pv s p = Some c" "c \<noteq> Uninitialized"
      using True by (auto simp: page_ready_def split: option.splits)
    then have eq: "prepare_pages pv dread e filesize load (p # ps) h s fr = prepare_pages pv dread e filesize load ps h s fr"
      by (cases c) simp_all
    have "frames_for (length ps) fr"
      using Cons.prems(5) set_take_subset_set_take [of "length ps" "Suc (length ps)" fr] by (auto simp: frames_for_def)
    with Cons.prems obtain h' s' fr' where s': "prepare_pages pv dread e filesize load ps h s fr = Some (Success, h', s', fr')"
       "pos_ok h'" "cache_ok pv s'" "page_ready pv s' = (\<lambda>p. p \<in> set ps \<or> page_ready pv s p)"
       "\<forall>i < filesize. i div bytes_per_page \<notin> set ps \<or> load (i div bytes_per_page) \<or> page_ready pv s (i div bytes_per_page)
             \<longrightarrow> file_byte pv dev s' i = file_byte pv dev s i"
      using Cons.IH [of h s fr] by auto
    show ?thesis
      using s' True eq by (intro exI [of _ h'] exI [of _ s'] exI [of _ fr']) (auto simp: fun_eq_iff)
  next
    case False
    have "p_at pv s p = Some Uninitialized"
      using False Cons.prems(3) [of p] at_iff [of s p] by (auto simp: page_ready_def split: option.splits)
    moreover obtain page fr1 where fr: "fr = Inr page # fr1" "length page = bytes_per_page" "frames_for (length ps) fr1"
      using Cons.prems(5) by (cases fr) (auto simp: frames_for_def)
    moreover obtain h1 page' where page': "(if load p then load_page dread e filesize p h page else (h, Inr page)) = (h1, Inr page')"
        "pos_ok h1" "length page' = bytes_per_page"
        "load p \<longrightarrow> (\<forall>i < filesize. i div bytes_per_page = p \<longrightarrow> page' ! (i mod bytes_per_page) = dev i)"
      using load_page_ok [OF dev e fs Cons.prems(1) fr(2) Cons.prems(6) [of p]] fr(2) Cons.prems(1) by (cases "load p") auto
    ultimately have eq: "prepare_pages pv dread e filesize load (p # ps) h s fr
        = prepare_pages pv dread e filesize load ps h1 (p_put pv s p (Clean page')) fr1"
      by simp
    let ?s = "p_put pv s p (Clean page')"
    have at: "p_at pv ?s q = (if q = p then Some (Clean page') else p_at pv s q)" for q
      using at_put Cons.prems(3) [of p] by simp
    have r: "page_ready pv ?s = (\<lambda>q. q = p \<or> page_ready pv s q)"
      by (auto simp: page_ready_def at fun_eq_iff)
    have ok: "cache_ok pv ?s"
      using Cons.prems(4) page'(3) by (auto simp: cache_ok_def at split: if_splits)
    obtain h' s' fr' where s': "prepare_pages pv dread e filesize load ps h1 ?s fr1 = Some (Success, h', s', fr')"
       "pos_ok h'" "cache_ok pv s'" "page_ready pv s' = (\<lambda>p. p \<in> set ps \<or> page_ready pv ?s p)"
       "\<forall>i < filesize. i div bytes_per_page \<notin> set ps \<or> load (i div bytes_per_page) \<or> page_ready pv ?s (i div bytes_per_page)
             \<longrightarrow> file_byte pv dev s' i = file_byte pv dev ?s i"
      using Cons.IH [of h1 ?s fr1] page'(2) Cons.prems ok fr(3) capacity_put by auto
    have same: "file_byte pv dev ?s i = file_byte pv dev s i" if "i < filesize" "i div bytes_per_page \<noteq> p \<or> load p" for i
      using that page'(4) \<open>p_at pv s p = Some Uninitialized\<close> by (auto simp: file_byte_def at)
    show ?thesis
      using s' False eq r same Cons.prems(2)
      by (intro exI [of _ h'] exI [of _ s'] exI [of _ fr']) (auto simp: fun_eq_iff)
  qed
qed

lemma prepare_cache_ready:
  assumes dev: "reads_device pos_ok dread e filesize dev" and e: "2 ^ e \<le> bytes_per_page" and fs: "filesize + bytes_per_page \<le> 2 ^ 64"
    and h: "pos_ok h" and ok: "cache_ok pv s" and fr: "frames_for (b - a) fr"
  shows "\<exists>h' s' fr'. prepare_cache pv dread e filesize a b ini h s fr = Some (Success, h', s', fr') \<and> pos_ok h' \<and> cache_ok pv s'
       \<and> (\<forall>p. a \<le> p \<and> p < b \<longrightarrow> page_ready pv s' p)
       \<and> (\<forall>i < filesize. \<not> (a \<le> i div bytes_per_page \<and> i div bytes_per_page < b)
            \<or> must_load ini a b filesize (i div bytes_per_page)
             \<longrightarrow> file_byte pv dev s' i = file_byte pv dev s i)"
proof -
  define s1 where "s1 = (if p_capacity pv s < b then p_ensure pv s b else s)"
  have at1: "p_at pv s1 i = (if i < p_capacity pv s then p_at pv s i else if i < b then Some Uninitialized else None)" for i
    using at_ensure [of s b i] capacity_ensure [of s b] at_iff [of s1 i] at_iff [of s i]
    by (auto simp: s1_def split: if_splits)
  have at0: "p_at pv s i = None" if "\<not> i < p_capacity pv s" for i
    using at_iff [of s i] that by simp
  have ok1: "cache_ok pv s1"
    using ok by (auto simp: cache_ok_def at1 split: if_splits)
  have fb1: "file_byte pv dev s1 i = file_byte pv dev s i" for i
    by (auto simp: file_byte_def at1 at0)
  have cap: "p < p_capacity pv s1" if "p \<in> set [a..<b]" for p
    using that capacity_ensure [of s b] by (auto simp: s1_def)
  have ml: "must_load ini a b filesize p \<Longrightarrow> p * bytes_per_page < filesize" for p
    by (simp add: must_load_def)
  have ff: "frames_for (length [a..<b]) fr"
    using fr by simp
  obtain h' s' fr' where s': "prepare_pages pv dread e filesize (must_load ini a b filesize) [a..<b] h s1 fr = Some (Success, h', s', fr')"
     "pos_ok h'" "cache_ok pv s'" "page_ready pv s' = (\<lambda>p. p \<in> set [a..<b] \<or> page_ready pv s1 p)"
     "\<forall>i < filesize. i div bytes_per_page \<notin> set [a..<b] \<or> must_load ini a b filesize (i div bytes_per_page)
          \<or> page_ready pv s1 (i div bytes_per_page) \<longrightarrow> file_byte pv dev s' i = file_byte pv dev s1 i"
    using prepare_pages_ready [OF dev e fs h distinct_upt cap ok1 ff ml] by blast
  then show ?thesis
    using e by (intro exI [of _ h'] exI [of _ s'] exI [of _ fr']) (auto simp: prepare_cache_def s1_def [symmetric] fb1)
qed

text \<open>Once the pages are ready, the three phases move exactly the requested bytes.\<close>

lemma copy_head_copied:
  assumes ready: "page_ready pv s (offset div bytes_per_page)"
    and ok: "cache_ok pv s" and n: "0 < n" "n \<le> length buf"
  shows "\<exists>page pos sb. copy_head pv w offset n (s, buf) = Some (page, pos, n - pos, sb)
        \<and> copied pv dev w offset 0 pos (s, buf) sb \<and> pos \<le> n \<and> offset div bytes_per_page \<le> page
        \<and> (pos < n \<longrightarrow> offset + pos = page * bytes_per_page)"
proof (cases "offset mod bytes_per_page = 0")
  case True
  then have "offset = offset div bytes_per_page * bytes_per_page"
    by (metis add.right_neutral div_mult_mod_eq)
  with True show ?thesis
    by (auto simp: copy_head_def Let_def copied_zero)
next
  case False
  let ?o = "offset mod bytes_per_page" and ?p = "offset div bytes_per_page"
  let ?len = "min n (bytes_per_page - ?o)"
  have B: "?o < bytes_per_page"
    by (simp add: bytes_per_page_def)
  have l: "?o + ?len \<le> bytes_per_page" "0 + ?len \<le> length buf"
    using n B by (auto simp: min_def)
  obtain sb where sb: "copy_page pv w ?p ?o 0 ?len (s, buf) = Some sb"
      "copied pv dev w (?p * bytes_per_page + ?o) 0 ?len (s, buf) sb"
    using copy_page_copied [OF ready ok l, of w dev] by blast
  have "offset + ?len = (?p + 1) * bytes_per_page" if "?len < n"
  proof -
    have "offset = ?p * bytes_per_page + ?o" by simp
    moreover have "?len = bytes_per_page - ?o"
      using that by simp
    ultimately show ?thesis
      using B unfolding distrib_right by linarith
  qed
  then show ?thesis
    using False sb by (intro exI [of _ "?p + 1"] exI [of _ ?len] exI [of _ sb]) (simp add: copy_head_def Let_def)
qed

lemma copy_range_copied:
  assumes ready: "\<And>p. offset div bytes_per_page \<le> p \<Longrightarrow> p * bytes_per_page < offset + n \<Longrightarrow> page_ready pv s p"
    and ok: "cache_ok pv s" and n: "0 < n" "n \<le> length buf"
  shows "\<exists>sb. copy_range pv w offset n (s, buf) = Some sb \<and> copied pv dev w offset 0 n (s, buf) sb"
proof -
  have r0: "page_ready pv s (offset div bytes_per_page)"
    using n by (intro ready) (auto simp: le_imp_less_Suc intro: le_less_trans [OF div_times_less_eq_dividend])
  obtain page pos sb1 where h: "copy_head pv w offset n (s, buf) = Some (page, pos, n - pos, sb1)"
      "copied pv dev w offset 0 pos (s, buf) sb1" "pos \<le> n" "offset div bytes_per_page \<le> page"
      "pos < n \<Longrightarrow> offset + pos = page * bytes_per_page"
    using copy_head_copied [OF r0 ok n, of w dev] by blast
  show ?thesis
  proof (cases "pos = n")
    case True
    then show ?thesis
      using h(1,2) by (auto simp: copy_range_def)
  next
    case False
    let ?m = "(n - pos) div bytes_per_page * bytes_per_page" and ?r = "(n - pos) mod bytes_per_page"
    let ?q = "page + (n - pos) div bytes_per_page"
    have base: "offset + pos = page * bytes_per_page" and mr: "n - pos = ?m + ?r"
      using h(3,5) False by auto
    have rd: "page_ready pv (fst sb1) p" if "page \<le> p" "p * bytes_per_page < offset + n" for p
      using copied_ready [OF h(2)] ready [of p] h(4) that by simp
    have ok1: "cache_ok pv (fst sb1)" and l1: "length (snd sb1) = length buf"
      using copied_ok [OF h(2)] copied_length [OF h(2)] ok h(3) n by auto
    have q: "?q * bytes_per_page = offset + pos + ?m"
      using base by (simp add: distrib_right)
    have "\<exists>sb2. copy_body pv w page pos (n - pos) sb1 = Some (?q, pos + ?m, ?r, sb2)
        \<and> copied pv dev w (page * bytes_per_page) pos ?m sb1 sb2"
    proof (rule copy_body_copied [OF _ ok1])
      fix p assume p: "page \<le> p" "p < ?q"
      then have "Suc p * bytes_per_page \<le> ?q * bytes_per_page"
        by (intro mult_right_mono) auto
      then have "p * bytes_per_page < offset + n"
        using q mr h(3) False by (simp add: bytes_per_page_def)
      then show "page_ready pv (fst sb1) p"
        by (rule rd [OF p(1)])
    qed (use l1 n h(3) in simp)
    then obtain sb2 where b: "copy_body pv w page pos (n - pos) sb1 = Some (?q, pos + ?m, ?r, sb2)"
        "copied pv dev w (offset + pos) pos ?m sb1 sb2"
      using base by auto
    have pm: "pos + ?m \<le> length buf" "pos + ?m + ?r \<le> length buf"
      using mr h(3) n by linarith+
    have c2: "copied pv dev w offset 0 (pos + ?m) (s, buf) sb2"
      using copied_trans [OF h(2), of ?m sb2] b(2) pm(1) by simp
    show ?thesis
    proof (cases "?r = 0")
      case True
      then show ?thesis
        using h(1,3) b(1) c2 mr False by (auto simp: copy_range_def)
    next
      case r: False
      have "?q * bytes_per_page < offset + n"
        using q mr r h(3) by linarith
      then have rq: "page_ready pv (fst sb2) ?q"
        using copied_ready [OF b(2)] rd [of ?q] by simp
      have ok2: "cache_ok pv (fst sb2)" and l2: "length (snd sb2) = length buf"
        using copied_ok [OF b(2)] copied_length [OF b(2)] ok1 l1 pm by auto
      obtain s2 buf2 where s2: "sb2 = (s2, buf2)" by force
      have "?r \<le> bytes_per_page"
        by (simp add: bytes_per_page_def less_imp_le)
      then obtain sb3 where t: "copy_page pv w ?q 0 (pos + ?m) ?r sb2 = Some sb3"
          "copied pv dev w (?q * bytes_per_page) (pos + ?m) ?r sb2 sb3"
        using copy_page_copied [of s2 ?q 0 ?r "pos + ?m" buf2 w dev] rq ok2 l2 pm s2 by auto
      have "copied pv dev w offset 0 (pos + ?m + ?r) (s, buf) sb3"
        using copied_trans [OF c2, of ?r sb3] t(2) q pm by (simp add: add.assoc)
      moreover have "pos + ?m + ?r = n"
        using mr h(3) by linarith
      ultimately show ?thesis
        using h(1,3) b(1) t(1) r False by (auto simp: copy_range_def)
    qed
  qed
qed

lemma copy_cached_copied:
  assumes dev: "reads_device pos_ok dread e filesize dev" and e: "2 ^ e \<le> bytes_per_page" and fs: "filesize + bytes_per_page \<le> 2 ^ 64"
    and h: "pos_ok h" and ok: "cache_ok pv s" and n: "0 < n" "offset + n \<le> filesize" "n \<le> length buf"
    and fr: "frames_for (ceil_div (offset + n) bytes_per_page - offset div bytes_per_page) fr"
  shows "\<exists>s1 h' s' buf' fr'. copy_cached pv dread e filesize offset n w buf h s fr = Some (Inr n, buf', h', s', fr') \<and> pos_ok h'
     \<and> copied pv dev w offset 0 n (s1, buf) (s', buf') \<and> cache_ok pv s'
     \<and> (\<forall>i < filesize. \<not> w \<or> \<not> (offset \<le> i \<and> i < offset + n) \<longrightarrow> file_byte pv dev s1 i = file_byte pv dev s i)"
proof -
  let ?a = "offset div bytes_per_page" and ?b = "ceil_div (offset + n) bytes_per_page"
  let ?ini = "if w then InitHeadTail else InitAll"
  have B: "0 < bytes_per_page" by (simp add: bytes_per_page_def)
  have ov: "(offset + n) mod 2 ^ 64 = offset + n"
    using n fs B by simp
  have b: "?b = (offset + n + bytes_per_page - 1) div bytes_per_page"
    using n fs B by (simp add: ceil_div_def)
  obtain h' s1 fr' where p: "prepare_cache pv dread e filesize ?a ?b ?ini h s fr = Some (Success, h', s1, fr')"
     "cache_ok pv s1" "\<And>p. ?a \<le> p \<Longrightarrow> p < ?b \<Longrightarrow> page_ready pv s1 p"
     "\<And>i. i < filesize \<Longrightarrow> \<not> (?a \<le> i div bytes_per_page \<and> i div bytes_per_page < ?b)
         \<or> must_load ?ini ?a ?b filesize (i div bytes_per_page) \<Longrightarrow> file_byte pv dev s1 i = file_byte pv dev s i" "pos_ok h'"
    using prepare_cache_ready [OF dev e fs h ok fr, of ?ini] by blast
  have lt: "p < ?b" if "p * bytes_per_page < offset + n" for p
    using that n fs B by (intro ceil_div_gt) auto
  obtain s' buf' where c: "copy_range pv w offset n (s1, buf) = Some (s', buf')"
      "copied pv dev w offset 0 n (s1, buf) (s', buf')"
    using copy_range_copied [OF p(3) p(2) n(1,3), of offset w dev] lt by auto
  have copyable: "min n (nat ((int filesize - int offset) mod 2 ^ 64)) = n"
    using n fs by (subst mod_pos_pos_trivial) (auto simp: bytes_per_page_def)
  have "file_byte pv dev s1 i = file_byte pv dev s i"
    if i: "i < filesize" "\<not> w \<or> \<not> (offset \<le> i \<and> i < offset + n)" for i
  proof (rule p(4) [OF i(1)])
    have *: "i div bytes_per_page = ?a \<or> i div bytes_per_page = ?b - 1"
      if "?a \<le> i div bytes_per_page" "i div bytes_per_page < ?b" "\<not> (offset \<le> i \<and> i < offset + n)"
      using that head_or_tail [of offset i n] b by auto
    show "\<not> (?a \<le> i div bytes_per_page \<and> i div bytes_per_page < ?b) \<or> must_load ?ini ?a ?b filesize (i div bytes_per_page)"
      using i * by (auto simp: must_load_def intro: le_less_trans [OF div_times_less_eq_dividend])
  qed
  then show ?thesis
    using p(1,5) c n ov copyable copied_ok [OF c(2)] p(2)
    by (intro exI [of _ s1] exI [of _ h'] exI [of _ s'] exI [of _ buf'] exI [of _ fr'])
       (simp add: copy_cached_def Let_def)
qed

theorem read_cached:
  assumes "reads_device pos_ok dread e filesize dev" "2 ^ e \<le> bytes_per_page" "filesize + bytes_per_page \<le> 2 ^ 64"
    and "pos_ok h" "cache_ok pv s" "0 < n" "offset + n \<le> filesize" "n \<le> length buf"
    and "frames_for (ceil_div (offset + n) bytes_per_page - offset div bytes_per_page) fr"
  shows "\<exists>h' s' fr'. copy_cached pv dread e filesize offset n False buf h s fr
       = Some (Inr n, map (file_byte pv dev s) [offset..<offset + n] @ drop n buf, h', s', fr')
     \<and> pos_ok h' \<and> cache_ok pv s' \<and> (\<forall>i < filesize. file_byte pv dev s' i = file_byte pv dev s i)"
proof -
  obtain s1 h' s' buf' fr' where c: "copy_cached pv dread e filesize offset n False buf h s fr = Some (Inr n, buf', h', s', fr')" "pos_ok h'"
     "copied pv dev False offset 0 n (s1, buf) (s', buf')" "cache_ok pv s'"
     "\<forall>i < filesize. file_byte pv dev s1 i = file_byte pv dev s i"
    using copy_cached_copied [OF assms, of False] by blast
  have "s' = s1" "buf' = splice_at buf 0 (map (file_byte pv dev s1) [offset..<offset + n])"
    using c(3) by (simp_all add: copied_def)
  moreover have "map (file_byte pv dev s1) [offset..<offset + n] = map (file_byte pv dev s) [offset..<offset + n]"
    using c(5) assms(7) by simp
  ultimately show ?thesis
    using c by (auto simp: splice_at_def)
qed

theorem write_cached:
  assumes "reads_device pos_ok dread e filesize dev" "2 ^ e \<le> bytes_per_page" "filesize + bytes_per_page \<le> 2 ^ 64"
    and "pos_ok h" "cache_ok pv s" "0 < n" "offset + n \<le> filesize" "n \<le> length buf"
    and "frames_for (ceil_div (offset + n) bytes_per_page - offset div bytes_per_page) fr"
  shows "\<exists>h' s' fr'. copy_cached pv dread e filesize offset n True buf h s fr = Some (Inr n, buf, h', s', fr')
     \<and> pos_ok h' \<and> cache_ok pv s' \<and> (\<forall>i < filesize. file_byte pv dev s' i =
          (if offset \<le> i \<and> i < offset + n then buf ! (i - offset) else file_byte pv dev s i))"
proof -
  obtain s1 h' s' buf' fr' where c: "copy_cached pv dread e filesize offset n True buf h s fr = Some (Inr n, buf', h', s', fr')" "pos_ok h'"
     "copied pv dev True offset 0 n (s1, buf) (s', buf')" "cache_ok pv s'"
     "\<forall>i < filesize. \<not> (offset \<le> i \<and> i < offset + n) \<longrightarrow> file_byte pv dev s1 i = file_byte pv dev s i"
    using copy_cached_copied [OF assms, of True] by blast
  then show ?thesis
    by (intro exI [of _ h'] exI [of _ s'] exI [of _ fr']) (auto simp: copied_def)
qed

lemma cached_reads_file:
  assumes "reads_device pos_ok dread e filesize dev" "2 ^ e \<le> bytes_per_page" "filesize + bytes_per_page \<le> 2 ^ 64"
    and "pos_ok h" "cache_ok pv s" "\<forall>r \<in> set rs. read_request filesize r"
  shows "cached_reads pv dread e filesize rs h s
       = Some (map (\<lambda>(offset, n, buf, fr). (Inr n, map (file_byte pv dev s) [offset..<offset + n] @ drop n buf)) rs)"
  using assms(4-6)
proof (induction rs arbitrary: h s)
  case (Cons r rs)
  obtain offset n buf fr where r: "r = (offset, n, buf, fr)" by (cases r)
  have req: "0 < n" "offset + n \<le> filesize" "n \<le> length buf"
    "frames_for (ceil_div (offset + n) bytes_per_page - offset div bytes_per_page) fr"
    using Cons.prems(3) by (simp_all add: r read_request_def)
  obtain h' s' fr' where c: "copy_cached pv dread e filesize offset n False buf h s fr
       = Some (Inr n, map (file_byte pv dev s) [offset..<offset + n] @ drop n buf, h', s', fr')"
    "pos_ok h'" "cache_ok pv s'" "\<forall>i < filesize. file_byte pv dev s' i = file_byte pv dev s i"
    using read_cached [OF assms(1-3) Cons.prems(1,2) req] by blast
  have same: "map (file_byte pv dev s') [o'..<o' + k] = map (file_byte pv dev s) [o'..<o' + k]"
    if "(o', k, b, f) \<in> set rs" for o' k b f
    using Cons.prems(3) that c(4) by (fastforce simp: read_request_def)
  have "cached_reads pv dread e filesize rs h' s'
      = Some (map (\<lambda>(offset, n, buf, fr). (Inr n, map (file_byte pv dev s) [offset..<offset + n] @ drop n buf)) rs)"
    using Cons.IH [OF c(2,3)] Cons.prems(3) same by (auto intro!: map_cong)
  then show ?case
    using c(1) by (simp add: r)
qed simp

lemma partition_cache_provider: "cache_provider (partition_provider k pv)"
proof
  show "(p_at (partition_provider k pv) s i \<noteq> None) = (i < p_capacity (partition_provider k pv) s)" for s i
    using at_iff [of s "k + i"] by (auto simp: partition_provider_def Let_def)
next
  show "p_at (partition_provider k pv) (p_put (partition_provider k pv) s i c) j
      = (if j = i then Some c else p_at (partition_provider k pv) s j)"
    if "i < p_capacity (partition_provider k pv) s" for s i c j
    using that at_put [of "k + i" s c "k + j"] by (auto simp: partition_provider_def Let_def split: if_splits)
next
  show "p_capacity (partition_provider k pv) (p_put (partition_provider k pv) s i c)
      = p_capacity (partition_provider k pv) s" for s i c
    by (simp add: partition_provider_def capacity_put)
next
  show "p_capacity (partition_provider k pv) (p_ensure (partition_provider k pv) s n) = n"
    if "p_capacity (partition_provider k pv) s < n" for s n
    using that capacity_ensure [of s "k + n"] by (auto simp: partition_provider_def Let_def split: if_splits)
next
  show "p_at (partition_provider k pv) (p_ensure (partition_provider k pv) s n) i
      = (if i < p_capacity (partition_provider k pv) s then p_at (partition_provider k pv) s i else Some Uninitialized)"
    if "p_capacity (partition_provider k pv) s < n" "i < n" for s n i
    using that at_ensure [of s "k + n" "k + i"] by (auto simp: partition_provider_def Let_def split: if_splits)
qed

end

text \<open>The plain provider keeps the laws, and so does a partition of it.\<close>

interpretation dp: cache_provider default_provider
  by unfold_locales (auto simp: default_provider_def resize_def nth_append)

interpretation pp: cache_provider "partition_provider k default_provider" for k
  by (rule dp.partition_cache_provider)

section \<open>Properties\<close>

text \<open>
  C19. A cached read inside the file returns, in the caller's buffer, exactly the bytes the file shows at that
  moment (cached where a page is loaded, on the device elsewhere), whatever the new frames contained, reports the
  full length, and leaves every byte of the file as it was. The driver may keep a position in the handle and change it
  with every page it loads; all it has to do is deliver the device's bytes while that position is in order.
\<close>

theorem cached_read_returns_file:
  assumes "reads_device pos_ok dread e filesize dev" "2 ^ e \<le> bytes_per_page" "filesize + bytes_per_page \<le> 2 ^ 64"
    and "pos_ok h" "cache_ok default_provider s" "0 < n" "offset + n \<le> filesize" "n \<le> length buf"
    and "frames_for (ceil_div (offset + n) bytes_per_page - offset div bytes_per_page) fr"
  shows "\<exists>h' s' fr'. copy_cached default_provider dread e filesize offset n False buf h s fr
       = Some (Inr n, map (file_byte default_provider dev s) [offset..<offset + n] @ drop n buf, h', s', fr')
     \<and> pos_ok h' \<and> cache_ok default_provider s'
     \<and> (\<forall>i < filesize. file_byte default_provider dev s' i = file_byte default_provider dev s i)"
  by (rule dp.read_cached [OF assms])

text \<open>
  C20. A cached write inside the file stores the buffer's bytes at exactly the positions asked for and changes no
  other byte of the file, although the pages in between are never loaded from the device.
\<close>

theorem cached_write_updates_file:
  assumes "reads_device pos_ok dread e filesize dev" "2 ^ e \<le> bytes_per_page" "filesize + bytes_per_page \<le> 2 ^ 64"
    and "pos_ok h" "cache_ok default_provider s" "0 < n" "offset + n \<le> filesize" "n \<le> length buf"
    and "frames_for (ceil_div (offset + n) bytes_per_page - offset div bytes_per_page) fr"
  shows "\<exists>h' s' fr'. copy_cached default_provider dread e filesize offset n True buf h s fr = Some (Inr n, buf, h', s', fr')
     \<and> pos_ok h' \<and> cache_ok default_provider s' \<and> (\<forall>i < filesize. file_byte default_provider dev s' i =
          (if offset \<le> i \<and> i < offset + n then buf ! (i - offset) else file_byte default_provider dev s i))"
  by (rule dp.write_cached [OF assms])

text \<open>A device of zeros, read in blocks of 512 bytes, for the witnesses.\<close>

definition zero_device :: driver_read where
  "zero_device h b n = (h + n, Inr (map (\<lambda>_. 0) [b * 2 ^ 9..<(b + n) * 2 ^ 9]))"

lemma reads_zero_device: "reads_device (\<lambda>_. True) zero_device 9 filesize (\<lambda>_. 0)"
  by (simp add: reads_device_def zero_device_def)

theorem cached_read_returns_file_witness:
  "\<exists>h' s' fr'. copy_cached default_provider zero_device 9 10000 5000 2 False [7, 7, 7] 0 [] [Inr (replicate 4096 9)]
     = Some (Inr 2, [0, 0, 7], h', s', fr')"
  using cached_read_returns_file [OF reads_zero_device, of 10000 "[]" 2 5000 "[7, 7, 7]" "[Inr (replicate 4096 9)]" 0]
  by (auto simp: bytes_per_page_def cache_ok_def default_provider_def frames_for_def ceil_div_def file_byte_def upt_rec)

theorem cached_write_updates_file_witness:
  "\<exists>h' s' fr'. copy_cached default_provider zero_device 9 10000 5000 2 True [5, 6, 7] 0 [] [Inr (replicate 4096 9)]
     = Some (Inr 2, [5, 6, 7], h', s', fr') \<and> file_byte default_provider (\<lambda>_. 0) s' 5001 = 6"
  using cached_write_updates_file [OF reads_zero_device, of 10000 "[]" 2 5000 "[5, 6, 7]" "[Inr (replicate 4096 9)]" 0]
  by (auto simp: bytes_per_page_def cache_ok_def default_provider_def frames_for_def ceil_div_def)

text \<open>
  C35. A partition's device shows the same bytes through the shared cache as the whole disk does at the partition's
  place, in every state of the cache and for every disk, exactly when the partition starts on a page boundary;
  for any other first sector there are cache states in which the two disagree.
\<close>

theorem partition_view_coherent_iff_aligned:
  assumes "e \<le> 12"
  shows "(\<forall>dev s i. file_byte (partition_provider (partition_page_offset first_sector (bytes_per_page div 2 ^ e)) default_provider)
            (\<lambda>i. dev (first_sector * 2 ^ e + i)) s i
          = file_byte default_provider dev s (first_sector * 2 ^ e + i))
     \<longleftrightarrow> bytes_per_page div 2 ^ e dvd first_sector"
proof -
  let ?bpp = "bytes_per_page div 2 ^ e" and ?k = "first_sector div (bytes_per_page div 2 ^ e)"
  have bpp: "?bpp * 2 ^ e = bytes_per_page"
    using le_imp_power_dvd [OF assms, of "2 :: nat"] by (simp add: bytes_per_page_def)
  have pos: "first_sector * 2 ^ e = ?k * bytes_per_page + (first_sector mod ?bpp) * 2 ^ e"
    by (metis add_mult_distrib bpp div_mult_mod_eq mult.assoc)
  have nz: "bytes_per_page \<noteq> 0"
    by (simp add: bytes_per_page_def)
  have lt: "(first_sector mod ?bpp) * 2 ^ e < bytes_per_page"
    by (metis bpp bytes_per_page_def mod_less_divisor mult_eq_0_iff mult_less_cancel2 neq0_conv zero_neq_numeral)
  show ?thesis
  proof
    assume al: "?bpp dvd first_sector"
    then have "first_sector * 2 ^ e = ?k * bytes_per_page"
      using pos by simp
    then have f: "(first_sector * 2 ^ e + i) div bytes_per_page = ?k + i div bytes_per_page"
      "(first_sector * 2 ^ e + i) mod bytes_per_page = i mod bytes_per_page" for i
      by (simp_all only: div_mult_self3 [OF nz] mod_mult_self3)
    have p: "p_at (partition_provider (partition_page_offset first_sector ?bpp) default_provider) s j
        = p_at default_provider s (?k + j)" for s j
      by (simp only: partition_provider_def partition_page_offset_def provider.simps)
    show "\<forall>dev s i. file_byte (partition_provider (partition_page_offset first_sector ?bpp) default_provider)
            (\<lambda>i. dev (first_sector * 2 ^ e + i)) s i = file_byte default_provider dev s (first_sector * 2 ^ e + i)"
    proof (intro allI)
      fix dev s i
      show "file_byte (partition_provider (partition_page_offset first_sector ?bpp) default_provider)
            (\<lambda>i. dev (first_sector * 2 ^ e + i)) s i = file_byte default_provider dev s (first_sector * 2 ^ e + i)"
        by (rule file_byte_cong) (simp_all only: p f)
    qed
  next
    let ?f = "1 # replicate 4095 (0 :: u8)"
    let ?s = "replicate ?k Uninitialized @ [Clean ?f]"
    assume a: "\<forall>dev s i. file_byte (partition_provider (partition_page_offset first_sector ?bpp) default_provider)
            (\<lambda>i. dev (first_sector * 2 ^ e + i)) s i = file_byte default_provider dev s (first_sector * 2 ^ e + i)"
    have eq: "file_byte (partition_provider ?k default_provider) (\<lambda>_. 0) ?s 0
            = file_byte default_provider (\<lambda>_. 0) ?s (first_sector * 2 ^ e)"
      using a [rule_format, of "\<lambda>_. 0" ?s 0] by (simp only: partition_page_offset_def add_0_right)
    have "(first_sector mod ?bpp) * 2 ^ e = 0"
    proof (rule ccontr)
      assume "(first_sector mod ?bpp) * 2 ^ e \<noteq> 0"
      then obtain r where r: "(first_sector mod ?bpp) * 2 ^ e = Suc r"
        using not0_implies_Suc by blast
      then have "r < 4095"
        using lt by (simp add: bytes_per_page_def)
      then show False
        using eq flat_index [OF lt, of ?k] r
        by (simp add: file_byte_def partition_provider_def default_provider_def pos nth_append)
    qed
    then show "?bpp dvd first_sector"
      by (simp add: dvd_eq_mod_eq_0)
  qed
qed

theorem partition_view_coherent_iff_aligned_witness:
  "\<not> (\<forall>dev s i. file_byte (partition_provider (partition_page_offset 34 (bytes_per_page div 2 ^ 9)) default_provider)
            (\<lambda>i. dev (34 * 2 ^ 9 + i)) s i = file_byte default_provider dev s (34 * 2 ^ 9 + i))"
  using partition_view_coherent_iff_aligned [of 9 34] by (simp add: bytes_per_page_def)

text \<open>
  A write that fails half way is not harmless: when the frame for the last page cannot be allocated, the pages
  between head and tail have already been marked clean without being loaded, so from then on the file shows the
  stale contents of the frame there, although nothing was written and the device holds the right bytes.
\<close>

theorem failed_write_exposes_stale_frames:
  assumes "reads_device pos_ok dread 9 12288 dev" "pos_ok h" "length head = 4096" "length stale = 4096" "length buf = 12288"
  shows "\<exists>h' s'. copy_cached default_provider dread 9 12288 0 12288 True buf h [] [Inr head, Inr stale, Inl NoEnoughMemory]
            = Some (Inl NoEnoughMemory, buf, h', s', [])
       \<and> (\<forall>i < 4096. file_byte default_provider dev s' (4096 + i) = stale ! i)"
proof -
  obtain h' head' where h: "load_page dread 9 12288 0 h head = (h', Inr head')"
    using load_page_ok [OF assms(1), of h head 0] assms(2,3) by (auto simp: bytes_per_page_def)
  let ?s = "[Clean head', Clean stale, Uninitialized]"
  have three: "[0..<3] = [0, 1, 2 :: nat]" "resize [] 3 = [Uninitialized, Uninitialized, Uninitialized]"
    by (simp_all add: upt_rec resize_def numeral_3_eq_3)
  have "prepare_cache default_provider dread 9 12288 0 3 InitHeadTail h [] [Inr head, Inr stale, Inl NoEnoughMemory]
            = Some (NoEnoughMemory, h', ?s, [])"
    using h three by (simp add: prepare_cache_def default_provider_def must_load_def bytes_per_page_def)
  then have "copy_cached default_provider dread 9 12288 0 12288 True buf h [] [Inr head, Inr stale, Inl NoEnoughMemory]
            = Some (Inl NoEnoughMemory, buf, h', ?s, [])"
    by (simp add: copy_cached_def ceil_div_def bytes_per_page_def)
  moreover have "\<forall>i < 4096. file_byte default_provider dev ?s (4096 + i) = stale ! i"
    using flat_index [of _ 1] by (simp add: file_byte_def default_provider_def bytes_per_page_def)
  ultimately show ?thesis
    by blast
qed

theorem failed_write_exposes_stale_frames_witness:
  "\<exists>h' s'. copy_cached default_provider zero_device 9 12288 0 12288 True (replicate 12288 1) 0 []
            [Inr (replicate 4096 2), Inr (replicate 4096 3), Inl NoEnoughMemory]
          = Some (Inl NoEnoughMemory, replicate 12288 1, h', s', [])
       \<and> file_byte default_provider (\<lambda>_. 0) s' 5000 = 3"
proof -
  obtain h' s' where "copy_cached default_provider zero_device 9 12288 0 12288 True (replicate 12288 1) 0 []
            [Inr (replicate 4096 2), Inr (replicate 4096 3), Inl NoEnoughMemory]
          = Some (Inl NoEnoughMemory, replicate 12288 1, h', s', [])"
      "\<forall>i < 4096. file_byte default_provider (\<lambda>_. 0) s' (4096 + i) = replicate 4096 3 ! i"
    using failed_write_exposes_stale_frames [OF reads_zero_device TrueI length_replicate length_replicate length_replicate]
    by blast
  moreover from this(2) have "file_byte default_provider (\<lambda>_. 0) s' 5000 = 3"
    by (elim allE [of _ 904]) simp
  ultimately show ?thesis
    by blast
qed

end
