(* ===== verification/Byte_Layout.thy ===== *)
theory Byte_Layout
  imports Klee_Prelude
begin

text \<open>
  Bytes as the kernel reads and writes them: little-endian numbers and the packed structures that the source
  lays over buffers with \<^verbatim>\<open>std::bit_cast\<close>. A structure is its list of members with their sizes in bytes, in
  the order of the declaration; the offsets follow from it. The lemmas give the value of a member after a
  store to the same or to another member, and the round trips between numbers and bytes.
\<close>

section \<open>Little-endian numbers\<close>

fun le_nat :: "u8 list \<Rightarrow> nat" where
  "le_nat [] = 0"
| "le_nat (b # bs) = unat b + 256 * le_nat bs"

fun le_bytes :: "nat \<Rightarrow> nat \<Rightarrow> u8 list" where
  "le_bytes 0 v = []"
| "le_bytes (Suc n) v = of_nat v # le_bytes n (v div 256)"

lemma length_le_bytes [simp]: "length (le_bytes n v) = n"
  by (induction n arbitrary: v) simp_all

lemma le_nat_lt: "le_nat bs < 256 ^ length bs"
proof (induction bs)
  case (Cons b bs)
  have "unat b < 256"
    using unsigned_less [of b] by simp
  with Cons show ?case
    by simp
qed simp

lemma unat_of_nat_u8: "unat (of_nat v :: u8) = v mod 256"
  by (simp add: unat_of_nat take_bit_eq_mod)

lemma le_nat_le_bytes: "le_nat (le_bytes n v) = v mod 256 ^ n"
  by (induction n arbitrary: v) (simp_all add: unat_of_nat_u8 mod_mult2_eq)

lemma le_bytes_le_nat: "le_bytes (length bs) (le_nat bs) = bs"
proof (induction bs)
  case (Cons b bs)
  have b: "unat b < 256"
    using unsigned_less [of b] by simp
  then have "(unat b + 256 * le_nat bs) div 256 = le_nat bs"
    by simp
  moreover have "of_nat (unat b + 256 * le_nat bs) = b"
  proof (rule word_unat_eq_iff [THEN iffD2])
    show "unat (of_nat (unat b + 256 * le_nat bs) :: u8) = unat b"
      using b by (simp only: unat_of_nat_u8) simp
  qed
  ultimately show ?case
    using Cons by simp
qed simp

lemma le_nat_append: "le_nat (xs @ ys) = le_nat xs + 256 ^ length xs * le_nat ys"
  by (induction xs) (simp_all add: algebra_simps)

lemma le_nat_replicate_0 [simp]: "le_nat (replicate n 0) = 0"
  by (induction n) simp_all

lemma le_bytes_numeral: "le_bytes (numeral n) v = of_nat v # le_bytes (pred_numeral n) (v div 256)"
  by (simp only: numeral_eq_Suc [of n] le_bytes.simps)

lemma replicate_numeral: "replicate (numeral n) x = x # replicate (pred_numeral n) x"
  by (simp only: numeral_eq_Suc [of n] replicate.simps)

section \<open>Packed structures\<close>

type_synonym layout = "(string \<times> nat) list"

definition struct_size :: "layout \<Rightarrow> nat" where
  "struct_size l = sum_list (map snd l)"

text \<open>Offset and size of a member.\<close>

fun locate :: "layout \<Rightarrow> string \<Rightarrow> (nat \<times> nat) option" where
  "locate [] f = None"
| "locate ((g, n) # l) f =
     (if f = g then Some (0, n) else map_option (\<lambda>(off, k). (n + off, k)) (locate l f))"

definition get_bytes :: "layout \<Rightarrow> string \<Rightarrow> u8 list \<Rightarrow> u8 list" where
  "get_bytes l f bs = (case locate l f of None \<Rightarrow> [] | Some (off, n) \<Rightarrow> take n (drop off bs))"

definition get_num :: "layout \<Rightarrow> string \<Rightarrow> u8 list \<Rightarrow> nat" where
  "get_num l f bs = le_nat (get_bytes l f bs)"

definition put_bytes :: "layout \<Rightarrow> string \<Rightarrow> u8 list \<Rightarrow> u8 list \<Rightarrow> u8 list" where
  "put_bytes l f v bs =
     (case locate l f of None \<Rightarrow> bs | Some (off, n) \<Rightarrow> take off bs @ v @ drop (off + n) bs)"

definition put_num :: "layout \<Rightarrow> string \<Rightarrow> nat \<Rightarrow> u8 list \<Rightarrow> u8 list" where
  "put_num l f v bs =
     (case locate l f of None \<Rightarrow> bs | Some (off, n) \<Rightarrow> take off bs @ le_bytes n v @ drop (off + n) bs)"

lemma locate_bound: "locate l f = Some (off, n) \<Longrightarrow> off + n \<le> struct_size l"
proof (induction l arbitrary: off)
  case (Cons x l)
  then show ?case
    by (cases x) (fastforce simp: struct_size_def split: if_splits)
qed simp

lemma locate_disjoint:
  "locate l f = Some (off, n) \<Longrightarrow> locate l g = Some (off', n') \<Longrightarrow> f \<noteq> g \<Longrightarrow> off + n \<le> off' \<or> off' + n' \<le> off"
proof (induction l arbitrary: off off')
  case (Cons x l)
  obtain h k where x: "x = (h, k)" by force
  show ?case
  proof (cases "f = h \<or> g = h")
    case True
    then show ?thesis using Cons.prems x by (auto split: if_splits)
  next
    case False
    then obtain o1 o2 where o: "locate l f = Some (o1, n)" "off = k + o1" "locate l g = Some (o2, n')" "off' = k + o2"
      using Cons.prems x by auto
    then show ?thesis
      using Cons.IH [OF o(1,3) Cons.prems(3)] by simp
  qed
qed simp

lemma put_num_eq: "locate l f = Some (off, n) \<Longrightarrow> put_num l f v bs = put_bytes l f (le_bytes n v) bs"
  by (simp add: put_num_def put_bytes_def)

lemma length_put_bytes:
  "locate l f = Some (off, n) \<Longrightarrow> length bs = struct_size l \<Longrightarrow> length v = n \<Longrightarrow> length (put_bytes l f v bs) = struct_size l"
  using locate_bound [of l f off n] by (simp add: put_bytes_def)

lemma length_put_num [simp]: "length bs = struct_size l \<Longrightarrow> length (put_num l f v bs) = struct_size l"
  using locate_bound [of l f] by (auto simp: put_num_def split: option.split)

lemma get_put_same:
  "locate l f = Some (off, n) \<Longrightarrow> struct_size l \<le> length bs \<Longrightarrow> length v = n \<Longrightarrow> get_bytes l f (put_bytes l f v bs) = v"
  using locate_bound [of l f off n] by (simp add: get_bytes_def put_bytes_def)

lemma get_put_other:
  assumes "locate l f = Some (off, n)" "f \<noteq> g" "struct_size l \<le> length bs" "length v = n"
  shows "get_bytes l g (put_bytes l f v bs) = get_bytes l g bs"
proof (cases "locate l g")
  case (Some p)
  obtain off' n' where p: "locate l g = Some (off', n')"
    using Some by (cases p) auto
  have b: "off + n \<le> struct_size l" "off' + n' \<le> struct_size l"
    using locate_bound assms(1) p by auto
  consider "off + n \<le> off'" | "off' + n' \<le> off"
    using locate_disjoint [OF assms(1) p assms(2)] by blast
  then have "take n' (drop off' (take off bs @ v @ drop (off + n) bs)) = take n' (drop off' bs)"
  proof cases
    case 1
    then show ?thesis using assms b by (simp add: drop_append)
  next
    case 2
    then show ?thesis using assms b by (simp add: take_drop)
  qed
  then show ?thesis
    using assms(1) p by (simp add: get_bytes_def put_bytes_def)
qed (simp add: get_bytes_def)

lemma get_put_num_same:
  assumes "locate l f = Some (off, n)" "struct_size l \<le> length bs"
  shows "get_num l f (put_num l f v bs) = v mod 256 ^ n"
  using assms get_put_same [OF assms, of "le_bytes n v"] by (simp add: get_num_def put_num_eq le_nat_le_bytes)

lemma get_put_num_other:
  assumes "f \<noteq> g" "struct_size l \<le> length bs"
  shows "get_num l g (put_num l f v bs) = get_num l g bs"
proof (cases "locate l f")
  case None
  then show ?thesis by (simp add: put_num_def)
next
  case (Some p)
  obtain off n where "locate l f = Some (off, n)"
    using Some by (cases p) auto
  then show ?thesis
    using assms by (simp add: get_num_def put_num_eq get_put_other)
qed

lemma length_get_bytes:
  "locate l f = Some (off, n) \<Longrightarrow> struct_size l \<le> length bs \<Longrightarrow> length (get_bytes l f bs) = n"
  using locate_bound [of l f off n] by (simp add: get_bytes_def)

lemma get_num_lt: "locate l f = Some (off, n) \<Longrightarrow> get_num l f bs < 256 ^ n"
  unfolding get_num_def get_bytes_def
  by simp (rule less_le_trans [OF le_nat_lt], simp add: power_increasing)

section \<open>Trailing zeros\<close>

text \<open>\<^verbatim>\<open>std::countr_zero\<close> of a 64-bit number.\<close>

fun count_trailing :: "nat \<Rightarrow> nat" where
  "count_trailing n = (if n = 0 \<or> odd n then 0 else Suc (count_trailing (n div 2)))"

declare count_trailing.simps [simp del]

definition countr_zero :: "nat \<Rightarrow> nat" where
  "countr_zero n = (if n = 0 then 64 else count_trailing n)"

lemma count_trailing_exp: "count_trailing (2 ^ e) = e"
  by (induction e) (simp_all add: count_trailing.simps)

lemma countr_zero_exp [simp]: "countr_zero (2 ^ e) = e"
  by (simp add: countr_zero_def count_trailing_exp)

end
