(* ===== verification/Fat.thy ===== *)
theory Fat
  imports Byte_Layout Fs_Types
begin

text \<open>
  The FAT32 driver: the on-disk structures of \<^verbatim>\<open>src/fs/drivers/fat/fat.hpp\<close>, the name conversion of
  \<^verbatim>\<open>src/util/encoding.hpp\<close>, and the driver of \<^verbatim>\<open>src/fs/drivers/fat/driver.hpp\<close>. The handle of the block device
  is a parameter \<open>dev\<close>: \<open>dev pos n\<close> is what \<^verbatim>\<open>Handle::read\<close> delivers at byte \<open>pos\<close>, and its length the number it
  returns. Numbers are natural numbers; where the source computes in 16 or 32 bits the reduction is written out.
\<close>

section \<open>On-disk structures\<close>

definition bpb_layout :: layout where
  "bpb_layout = [(''jump_boot'', 3), (''oem_name'', 8), (''bytes_per_sector'', 2), (''sectors_per_cluster'', 1),
     (''reserved_sector_count'', 2), (''num_fats'', 1), (''root_entry_count'', 2), (''total_sectors_16'', 2),
     (''media'', 1), (''fat_size_16'', 2), (''sectors_per_track'', 2), (''num_heads'', 2), (''hidden_sectors'', 4),
     (''total_sectors_32'', 4), (''fat_size_32'', 4), (''ext_flags'', 2), (''fs_version'', 2), (''root_cluster'', 4),
     (''fs_info'', 2), (''backup_boot_sector'', 2), (''reserved'', 12), (''drive_number'', 1), (''reserved1'', 1),
     (''boot_signature'', 1), (''volume_id'', 4), (''volume_label'', 11), (''fs_type'', 8), (''loader'', 420),
     (''signature'', 2)]"

record bpb_summary =
  bytes_per_sector :: nat
  reserved_sector_count :: nat
  total_sectors_32 :: nat
  fat_size_32 :: nat
  root_cluster :: nat
  sectors_per_cluster :: nat
  num_fats :: nat

definition summary :: "u8 list \<Rightarrow> bpb_summary" where
  "summary b = \<lparr> bytes_per_sector = get_num bpb_layout ''bytes_per_sector'' b,
     reserved_sector_count = get_num bpb_layout ''reserved_sector_count'' b,
     total_sectors_32 = get_num bpb_layout ''total_sectors_32'' b,
     fat_size_32 = get_num bpb_layout ''fat_size_32'' b,
     root_cluster = get_num bpb_layout ''root_cluster'' b,
     sectors_per_cluster = get_num bpb_layout ''sectors_per_cluster'' b,
     num_fats = get_num bpb_layout ''num_fats'' b \<rparr>"

definition attr_Directory :: u8 where "attr_Directory = 0x10"
definition attr_LongName :: u8 where "attr_LongName = 0x0F"

definition dentry_layout :: layout where
  "dentry_layout = [(''name'', 11), (''attr'', 1), (''ntres'', 1), (''create_time_tenth'', 1), (''create_time'', 2),
     (''create_date'', 2), (''last_access_date'', 2), (''first_cluster_high'', 2), (''write_time'', 2),
     (''write_date'', 2), (''first_cluster_low'', 2), (''file_size'', 4)]"

definition dentry_size :: nat where
  "dentry_size = 32"

definition dentry_name :: "u8 list \<Rightarrow> u8 list" where
  "dentry_name d = get_bytes dentry_layout ''name'' d"

definition dentry_attr :: "u8 list \<Rightarrow> u8" where
  "dentry_attr d = of_nat (get_num dentry_layout ''attr'' d)"

definition calc_checksum :: "u8 list \<Rightarrow> u8" where
  "calc_checksum d = foldl (\<lambda>sum c. drop_bit 1 sum + push_bit 7 sum + c) 0 (dentry_name d)"

definition short_name :: "u8 list \<Rightarrow> string" where
  "short_name d =
     (let base = takeWhile (\<lambda>c. c \<noteq> 0x20) (take 8 (dentry_name d));
          ext = takeWhile (\<lambda>c. c \<noteq> 0x20) (take 3 (drop 8 (dentry_name d)));
          str = map (\<lambda>c. char_of (unat c))
      in if ext = [] then str base else str base @ ''.'' @ str ext)"

definition lfn_layout :: layout where
  "lfn_layout = [(''number'', 1), (''name1'', 10), (''attr'', 1), (''type'', 1), (''checksum'', 1), (''name2'', 12),
     (''first_cluster_low'', 2), (''name3'', 4)]"

fun char16s :: "u8 list \<Rightarrow> nat list" where
  "char16s (a # b # bs) = (unat a + 256 * unat b) # char16s bs"
| "char16s _ = []"

text \<open>\<^verbatim>\<open>LFNEntry::to_string\<close>: the three pieces up to the first null.\<close>

definition lfn_helper :: "nat list \<Rightarrow> nat list \<times> bool" where
  "lfn_helper cs = (let r = takeWhile (\<lambda>c. c \<noteq> 0) cs in (r, length r < length cs))"

definition lfn_to_string :: "u8 list \<Rightarrow> nat list" where
  "lfn_to_string d =
     (let (r1, stop1) = lfn_helper (char16s (get_bytes lfn_layout ''name1'' d)) in
      if stop1 then r1 else
      let (r2, stop2) = lfn_helper (char16s (get_bytes lfn_layout ''name2'' d)) in
      if stop2 then r1 @ r2 else
      let (r3, stop3) = lfn_helper (char16s (get_bytes lfn_layout ''name3'' d)) in
      r1 @ r2 @ r3)"

definition u16tou8 :: "nat list \<Rightarrow> string" where
  "u16tou8 str = map (\<lambda>c. char_of (c mod 256)) str"

section \<open>Driver data\<close>

record directory_info =
  di_cluster :: nat
  di_size :: nat
  di_name :: string
  di_attribute :: u8

datatype fat_entry_type = FatFree | FatReserved | FatUsed | FatBad | FatLast

definition eof_cluster :: nat where
  "eof_cluster = 0x0FFFFFF8"

definition get_fat_entry_type :: "nat \<Rightarrow> fat_entry_type" where
  "get_fat_entry_type fate =
     (if fate = 0 then FatFree
      else if fate = 1 then FatReserved
      else if fate = 0x0FFFFFF7 then FatBad
      else if fate \<ge> 0x0FFFFFF8 \<and> fate \<le> 0x0FFFFFFF then FatLast
      else FatUsed)"

text \<open>The three structures that \<^verbatim>\<open>std::bit_cast\<close> turns into the 64-bit driver and handle data.\<close>

record fop_data =
  fd_type :: nat
  fd_cluster :: nat
  fd_filesize :: nat

definition file_type_num :: "file_type \<Rightarrow> nat" where
  "file_type_num t = (case t of Regular \<Rightarrow> 0 | Directory \<Rightarrow> 1 | Device \<Rightarrow> 2 | FileTypeEnd \<Rightarrow> 3)"

definition make_fop_data :: "file_type \<Rightarrow> nat \<Rightarrow> nat \<Rightarrow> fop_data" where
  "make_fop_data t c sz = \<lparr> fd_type = file_type_num t, fd_cluster = c mod 2 ^ 28, fd_filesize = sz mod 2 ^ 32 \<rparr>"

definition pack_fop :: "fop_data \<Rightarrow> nat" where
  "pack_fop d = fd_type d + 2 ^ 4 * fd_cluster d + 2 ^ 32 * fd_filesize d"

definition unpack_fop :: "nat \<Rightarrow> fop_data" where
  "unpack_fop n = \<lparr> fd_type = n mod 2 ^ 4, fd_cluster = n div 2 ^ 4 mod 2 ^ 28, fd_filesize = n div 2 ^ 32 \<rparr>"

record handle_data =
  hd_cluster :: nat
  hd_cluster_number :: nat

definition handle_from_fop :: "fop_data \<Rightarrow> handle_data" where
  "handle_from_fop d = \<lparr> hd_cluster = fd_cluster d, hd_cluster_number = 0 \<rparr>"

definition pack_handle :: "handle_data \<Rightarrow> nat" where
  "pack_handle h = hd_cluster h + 2 ^ 32 * hd_cluster_number h"

definition unpack_handle :: "nat \<Rightarrow> handle_data" where
  "unpack_handle n = \<lparr> hd_cluster = n mod 2 ^ 32, hd_cluster_number = n div 2 ^ 32 \<rparr>"

record dir_handle =
  dh_cluster :: nat
  dh_index :: nat
  dh_dentry_index :: nat

definition dir_handle_from_fop :: "fop_data \<Rightarrow> dir_handle" where
  "dir_handle_from_fop d = \<lparr> dh_cluster = fd_cluster d, dh_index = 0, dh_dentry_index = 0 \<rparr>"

definition pack_dir_handle :: "dir_handle \<Rightarrow> nat" where
  "pack_dir_handle h = dh_cluster h + 2 ^ 32 * dh_index h + 2 ^ 48 * dh_dentry_index h"

definition unpack_dir_handle :: "nat \<Rightarrow> dir_handle" where
  "unpack_dir_handle n =
     \<lparr> dh_cluster = n mod 2 ^ 32, dh_index = n div 2 ^ 32 mod 2 ^ 16, dh_dentry_index = n div 2 ^ 48 \<rparr>"

section \<open>Reading clusters and chains\<close>

type_synonym device_read = "nat \<Rightarrow> nat \<Rightarrow> u8 list result"

definition device_io :: "device_read \<Rightarrow> nat \<Rightarrow> nat \<Rightarrow> u8 list result" where
  "device_io dev pos n =
     (case dev pos n of
        Inl e \<Rightarrow> Inl e
      | Inr bytes \<Rightarrow> if length bytes \<noteq> n then Inl IOError else Inr bytes)"

definition data_begin :: "bpb_summary \<Rightarrow> nat" where
  "data_begin b = (reserved_sector_count b + fat_size_32 b * num_fats b) mod 2 ^ 32"

definition cluster_begin :: "bpb_summary \<Rightarrow> nat \<Rightarrow> nat" where
  "cluster_begin b cluster =
     (data_begin b + (cluster + 2 ^ 32 - 2) mod 2 ^ 32 * sectors_per_cluster b) mod 2 ^ 32"

definition copy_cluster :: "device_read \<Rightarrow> bpb_summary \<Rightarrow> nat \<Rightarrow> nat \<Rightarrow> nat \<Rightarrow> u8 list result" where
  "copy_cluster dev b cluster offset n =
     (if (cluster_begin b cluster + n div bytes_per_sector b) mod 2 ^ 32 \<ge> total_sectors_32 b then Inl IndexOutOfRange
      else device_io dev ((cluster_begin b cluster * bytes_per_sector b + offset) mod 2 ^ 32) n)"

definition read_fat_entry :: "device_read \<Rightarrow> bpb_summary \<Rightarrow> nat \<Rightarrow> nat result" where
  "read_fat_entry dev b cluster =
     (let sector = reserved_sector_count b + cluster * 4 div bytes_per_sector b;
          offset = cluster * 4 mod bytes_per_sector b
      in (case device_io dev (sector * bytes_per_sector b + offset) 4 of
            Inl e \<Rightarrow> Inl e
          | Inr bytes \<Rightarrow> Inr (le_nat bytes mod 2 ^ 28)))"

definition get_next_cluster :: "device_read \<Rightarrow> bpb_summary \<Rightarrow> nat \<Rightarrow> nat result" where
  "get_next_cluster dev b cluster =
     (case read_fat_entry dev b cluster of
        Inl e \<Rightarrow> Inl e
      | Inr fate \<Rightarrow>
          (case get_fat_entry_type fate of
             FatUsed \<Rightarrow> Inr fate
           | FatLast \<Rightarrow> Inl EndOfFile
           | _ \<Rightarrow> Inl BrokenFATEntry))"

text \<open>The loop of \<^verbatim>\<open>seek_cluster_chain\<close>: \<open>n\<close> is the distance to the cluster wanted.\<close>

fun follow_chain :: "device_read \<Rightarrow> bpb_summary \<Rightarrow> nat \<Rightarrow> nat \<Rightarrow> nat result" where
  "follow_chain dev b 0 cluster = Inr cluster"
| "follow_chain dev b (Suc n) cluster =
     (case get_next_cluster dev b cluster of
        Inl e \<Rightarrow> Inl e
      | Inr next_cluster \<Rightarrow> follow_chain dev b n next_cluster)"

definition seek_cluster_chain ::
  "device_read \<Rightarrow> bpb_summary \<Rightarrow> fop_data \<Rightarrow> handle_data \<Rightarrow> nat \<Rightarrow> handle_data result" where
  "seek_cluster_chain dev b d h new_cluster_number =
     (let (current_cluster, current_cluster_number) =
            (if new_cluster_number < hd_cluster_number h then (fd_cluster d, 0)
             else (hd_cluster h, hd_cluster_number h))
      in (case follow_chain dev b (new_cluster_number - current_cluster_number) current_cluster of
            Inl e \<Rightarrow> Inl e
          | Inr c \<Rightarrow> Inr \<lparr> hd_cluster = c, hd_cluster_number = new_cluster_number \<rparr>))"

definition bytes_per_cluster :: "bpb_summary \<Rightarrow> nat" where
  "bytes_per_cluster b = bytes_per_sector b * sectors_per_cluster b"

text \<open>\<^verbatim>\<open>Driver::read\<close>: the loop over the blocks, with the bytes of the buffer so far.\<close>

fun read_loop :: "device_read \<Rightarrow> bpb_summary \<Rightarrow> fop_data \<Rightarrow> nat \<Rightarrow> nat \<Rightarrow> handle_data \<Rightarrow> (handle_data \<times> u8 list) result" where
  "read_loop dev b d block 0 h = Inr (h, [])"
| "read_loop dev b d block (Suc count) h =
     (case seek_cluster_chain dev b d h (block mod 2 ^ 32) of
        Inl e \<Rightarrow> Inl e
      | Inr h \<Rightarrow>
          (case copy_cluster dev b (hd_cluster h) 0 (bytes_per_cluster b mod 2 ^ 32) of
             Inl e \<Rightarrow> Inl e
           | Inr bytes \<Rightarrow>
               (case read_loop dev b d (block + 1) count h of
                  Inl e \<Rightarrow> Inl e
                | Inr (h, rest) \<Rightarrow> Inr (h, bytes @ rest))))"

text \<open>The handle data after the call and the bytes, \<open>count\<close> blocks of them, or the error with the handle as it was.\<close>

definition fat_read :: "device_read \<Rightarrow> bpb_summary \<Rightarrow> nat \<Rightarrow> nat \<Rightarrow> nat \<Rightarrow> nat \<Rightarrow> nat \<times> u8 list result" where
  "fat_read dev b fop handle block count =
     (case read_loop dev b (unpack_fop fop) block count (unpack_handle handle) of
        Inl e \<Rightarrow> (handle, Inl e)
      | Inr (h, bytes) \<Rightarrow> (pack_handle h, Inr bytes))"

section \<open>Directories\<close>

text \<open>
  One entry of the loop of the private \<^verbatim>\<open>readdir\<close> (the \<^verbatim>\<open>do ... while(0)\<close> block): an error, or the new entry
  number, checksum and long name and, when the entry is the one wanted, its description.
\<close>

definition dentry_info :: "u8 list \<Rightarrow> u8 \<Rightarrow> nat list \<Rightarrow> directory_info" where
  "dentry_info d lfn_checksum lfn =
     \<lparr> di_cluster = get_num dentry_layout ''first_cluster_high'' d * 2 ^ 16 + get_num dentry_layout ''first_cluster_low'' d,
       di_size = get_num dentry_layout ''file_size'' d,
       di_name = (if lfn_checksum = calc_checksum d then u16tou8 lfn else short_name d),
       di_attribute = dentry_attr d \<rparr>"

definition dentry_step ::
  "u8 list \<Rightarrow> nat \<Rightarrow> nat \<Rightarrow> u8 \<Rightarrow> nat list \<Rightarrow> (nat \<times> u8 \<times> nat list \<times> directory_info option) result" where
  "dentry_step d index current_index lfn_checksum lfn =
     (if hd (dentry_name d) = 0xE5 then Inr (current_index, lfn_checksum, lfn, None)
      else if hd (dentry_name d) = 0 then Inl EndOfFile
      else let target = (current_index = index) in
      if dentry_attr d AND attr_LongName \<noteq> 0 then
        (if \<not> target then Inr (current_index, lfn_checksum, lfn, None)
         else if get_num lfn_layout ''number'' d div 64 mod 2 = 1 then
           Inr (current_index, of_nat (get_num lfn_layout ''checksum'' d), lfn_to_string d @ lfn, None)
         else if of_nat (get_num lfn_layout ''checksum'' d) \<noteq> lfn_checksum then Inl BadChecksum
         else Inr (current_index, lfn_checksum, lfn_to_string d @ lfn, None))
      else if \<not> target then Inr ((current_index + 1) mod 2 ^ 16, lfn_checksum, lfn, None)
      else Inr ((current_index + 1) mod 2 ^ 16, lfn_checksum, lfn, Some (dentry_info d lfn_checksum lfn)))"

text \<open>The step to the next cluster when the entries of this one are used up.\<close>

definition next_dir_cluster ::
  "device_read \<Rightarrow> bpb_summary \<Rightarrow> fop_data \<Rightarrow> nat \<Rightarrow> nat \<Rightarrow> bool \<Rightarrow> nat result" where
  "next_dir_cluster dev b d dentry_index cluster have_result =
     (if dentry_index mod (bytes_per_cluster b div dentry_size) = 0 then
        (case seek_cluster_chain dev b d \<lparr> hd_cluster = cluster, hd_cluster_number = 0 \<rparr> 1 of
           Inl e \<Rightarrow> if have_result \<and> e = EndOfFile then Inr eof_cluster else Inl e
         | Inr h \<Rightarrow> Inr (hd_cluster h))
      else Inr cluster)"

text \<open>
  The loop. \<open>None\<close> stands for a scan that never ends and for the two divisions by zero: the remainder by the size of a
  cluster, taken before the entry is read, and the one by the number of entries of a cluster, which is zero for a
  cluster smaller than an entry and only reached when the entry did not end the search.
\<close>

partial_function (option) readdir_loop ::
  "device_read \<Rightarrow> bpb_summary \<Rightarrow> fop_data \<Rightarrow> nat \<Rightarrow> nat \<Rightarrow> nat \<Rightarrow> nat \<Rightarrow> u8 \<Rightarrow> nat list
     \<Rightarrow> (dir_handle \<times> directory_info) result option" where
  "readdir_loop dev b d index cluster current_index dentry_index lfn_checksum lfn =
     (if bytes_per_cluster b = 0 then None
      else case copy_cluster dev b cluster (dentry_index * dentry_size mod bytes_per_cluster b) dentry_size of
        Inl e \<Rightarrow> Some (Inl e)
      | Inr dentry \<Rightarrow>
          (case dentry_step dentry index current_index lfn_checksum lfn of
             Inl e \<Rightarrow> Some (Inl e)
           | Inr (current_index', lfn_checksum', lfn', found) \<Rightarrow>
               if bytes_per_cluster b div dentry_size = 0 then None
               else (case next_dir_cluster dev b d ((dentry_index + 1) mod 2 ^ 16) cluster (found \<noteq> None) of
                  Inl e \<Rightarrow> Some (Inl e)
                | Inr cluster' \<Rightarrow>
                    (case found of
                       Some info \<Rightarrow>
                         Some (Inr (\<lparr> dh_cluster = cluster', dh_index = current_index',
                                      dh_dentry_index = (dentry_index + 1) mod 2 ^ 16 \<rparr>, info))
                     | None \<Rightarrow> readdir_loop dev b d index cluster' current_index' ((dentry_index + 1) mod 2 ^ 16)
                                 lfn_checksum' lfn'))))"

definition readdir_entry ::
  "device_read \<Rightarrow> bpb_summary \<Rightarrow> fop_data \<Rightarrow> dir_handle \<Rightarrow> nat \<Rightarrow> (dir_handle \<times> directory_info) result option" where
  "readdir_entry dev b d h index =
     (if dh_cluster h = eof_cluster then Some (Inl EndOfFile)
      else if dh_index h > index then readdir_loop dev b d index (fd_cluster d) 0 0 0 []
      else readdir_loop dev b d index (dh_cluster h) (dh_index h) (dh_dentry_index h) 0 [])"

section \<open>The driver interface\<close>

definition calc_blocksize_exp :: "bpb_summary \<Rightarrow> nat" where
  "calc_blocksize_exp b = countr_zero (bytes_per_cluster b)"

definition file_abstract_from_dinfo :: "bpb_summary \<Rightarrow> directory_info \<Rightarrow> file_abstract_data" where
  "file_abstract_from_dinfo b di =
     (let type = (if di_attribute di AND attr_Directory \<noteq> 0 then Directory else Regular);
          cluster = (if di_cluster di = 0 then root_cluster b else di_cluster di);
          sz = (if type = Directory then 0 else di_size di)
      in (\<lparr> fa_name = di_name di, fa_filesize = sz, fa_type = type, fa_blocksize_exp = calc_blocksize_exp b,
            fa_attributes = default_attributes \<rparr>, pack_fop (make_fop_data type cluster sz)))"

text \<open>\<^verbatim>\<open>Driver::init\<close>: the summary and the root, or an error; \<open>None\<close> is the division by zero of an empty cluster.\<close>

definition fat_init :: "device_read \<Rightarrow> (bpb_summary \<times> file_abstract_data) result option" where
  "fat_init dev =
     (case device_io dev 0 (struct_size bpb_layout) of
        Inl e \<Rightarrow> Some (Inl e)
      | Inr buf \<Rightarrow>
          if get_bytes bpb_layout ''signature'' buf \<noteq> [0x55, 0xAA] then Some (Inl NotFAT)
          else let b = summary buf; bpc = bytes_per_cluster b in
          if bpc = 0 then None
          else if (if 4096 \<ge> bpc then 4096 mod bpc \<noteq> 0 else bpc mod 4096 \<noteq> 0) then Some (Inl NotSupported)
          else Some (Inr (b, (\<lparr> fa_name = ''/'', fa_filesize = 0, fa_type = Directory, fa_blocksize_exp = 0,
                               fa_attributes = volume_root_attributes \<rparr>,
                             pack_fop (make_fop_data Directory (root_cluster b) 0)))))"

partial_function (option) find_loop ::
  "device_read \<Rightarrow> bpb_summary \<Rightarrow> fop_data \<Rightarrow> string \<Rightarrow> nat \<Rightarrow> dir_handle \<Rightarrow> file_abstract_data result option" where
  "find_loop dev b d name i h = do {
     r \<leftarrow> readdir_entry dev b d h i;
     (case r of
        Inl e \<Rightarrow> Some (Inl e)
      | Inr (h', di) \<Rightarrow>
          if di_name di = name then Some (Inr (file_abstract_from_dinfo b di))
          else find_loop dev b d name ((i + 1) mod 2 ^ 32) h') }"

definition fat_find :: "device_read \<Rightarrow> bpb_summary \<Rightarrow> nat \<Rightarrow> string \<Rightarrow> file_abstract_data result option" where
  "fat_find dev b fop name =
     (let d = unpack_fop fop in
      if fd_type d \<noteq> file_type_num Directory then Some (Inl NotDirectory)
      else find_loop dev b d name 0 (dir_handle_from_fop d))"

text \<open>The new handle data and the file.\<close>

definition fat_readdir :: "device_read \<Rightarrow> bpb_summary \<Rightarrow> nat \<Rightarrow> nat \<Rightarrow> nat \<Rightarrow> (nat \<times> file_abstract_data result) option" where
  "fat_readdir dev b fop handle index =
     (let d = unpack_fop fop in
      if fd_type d \<noteq> file_type_num Directory then Some (handle, Inl NotDirectory)
      else do {
        r \<leftarrow> readdir_entry dev b d (unpack_dir_handle handle) index;
        Some (case r of
           Inl e \<Rightarrow> (handle, Inl e)
         | Inr (h, di) \<Rightarrow> (pack_dir_handle h, Inr (file_abstract_from_dinfo b di))) })"

definition fat_create :: "nat \<Rightarrow> string \<Rightarrow> file_type \<Rightarrow> file_abstract_data result" where
  "fat_create fop name type = Inl NotSupported"

definition fat_remove :: "nat \<Rightarrow> string \<Rightarrow> error_code" where
  "fat_remove fop name = NotSupported"

definition fat_create_handle_data :: "nat \<Rightarrow> nat result" where
  "fat_create_handle_data fop =
     (let d = unpack_fop fop in
      if fd_type d = file_type_num Regular then Inr (pack_handle (handle_from_fop d))
      else if fd_type d = file_type_num Directory then Inr (pack_dir_handle (dir_handle_from_fop d))
      else Inl InvalidData)"

end
