(* ===== verification/Fat_Volume.thy ===== *)
theory Fat_Volume
  imports Fat Page_Cache
begin

text \<open>
  What the FAT driver computes on a sane volume. The specification side knows the volume as an image, a function from
  positions to bytes: the FAT as a table of numbers, a file as the chain of its clusters, a directory as the list of
  its 32-byte entries. The lemmas relate the driver's reads, its cached position in the chain and its directory scan
  to it; a file of the volume read through the page cache shows the bytes of its chain.
\<close>

section \<open>Volumes\<close>

definition image_at :: "(nat \<Rightarrow> u8) \<Rightarrow> nat \<Rightarrow> nat \<Rightarrow> u8 list" where
  "image_at img pos n = map img [pos..<pos + n]"

lemma length_image_at [simp]: "length (image_at img pos n) = n"
  by (simp add: image_at_def)

lemma image_at_append: "image_at img pos m @ image_at img (pos + m) n = image_at img pos (m + n)"
  using upt_add_eq_append [of pos "pos + m" n] by (simp add: image_at_def add.assoc)

text \<open>Geometry in order, no position past 4 GiB, and a device that delivers the image.\<close>

definition volume :: "device_read \<Rightarrow> (nat \<Rightarrow> u8) \<Rightarrow> bpb_summary \<Rightarrow> bool" where
  "volume dev img b \<longleftrightarrow>
     0 < bytes_per_sector b \<and> 0 < sectors_per_cluster b \<and> 0 < num_fats b
     \<and> reserved_sector_count b + fat_size_32 b * num_fats b \<le> total_sectors_32 b
     \<and> total_sectors_32 b * bytes_per_sector b \<le> 2 ^ 32 \<and> total_sectors_32 b < 2 ^ 32
     \<and> (\<forall>pos n. pos + n \<le> total_sectors_32 b * bytes_per_sector b \<longrightarrow> dev pos n = Inr (image_at img pos n))"

definition data_start :: "bpb_summary \<Rightarrow> nat" where
  "data_start b = reserved_sector_count b + fat_size_32 b * num_fats b"

definition cluster_pos :: "bpb_summary \<Rightarrow> nat \<Rightarrow> nat" where
  "cluster_pos b c = (data_start b + (c - 2) * sectors_per_cluster b) * bytes_per_sector b"

definition cluster_bytes :: "(nat \<Rightarrow> u8) \<Rightarrow> bpb_summary \<Rightarrow> nat \<Rightarrow> u8 list" where
  "cluster_bytes img b c = image_at img (cluster_pos b c) (bytes_per_cluster b)"

text \<open>A cluster the driver can read: all but the one that ends with the volume.\<close>

definition readable_cluster :: "bpb_summary \<Rightarrow> nat \<Rightarrow> bool" where
  "readable_cluster b c \<longleftrightarrow> 2 \<le> c \<and> c < 2 ^ 28 \<and> 4 * c + 4 \<le> fat_size_32 b * bytes_per_sector b
     \<and> data_start b + (c - 2) * sectors_per_cluster b + sectors_per_cluster b < total_sectors_32 b"

definition fat_value :: "(nat \<Rightarrow> u8) \<Rightarrow> bpb_summary \<Rightarrow> nat \<Rightarrow> nat" where
  "fat_value img b c = le_nat (image_at img (reserved_sector_count b * bytes_per_sector b + 4 * c) 4) mod 2 ^ 28"

text \<open>A chain of clusters: each entry of the table holds the next cluster, the last one an end mark.\<close>

fun fat_chain :: "(nat \<Rightarrow> u8) \<Rightarrow> bpb_summary \<Rightarrow> nat list \<Rightarrow> bool" where
  "fat_chain img b [] = False"
| "fat_chain img b [c] = (readable_cluster b c \<and> get_fat_entry_type (fat_value img b c) = FatLast)"
| "fat_chain img b (c # d # cs) =
     (readable_cluster b c \<and> get_fat_entry_type (fat_value img b c) = FatUsed \<and> fat_value img b c = d
      \<and> fat_chain img b (d # cs))"

lemma device_io_volume:
  "volume dev img b \<Longrightarrow> pos + n \<le> total_sectors_32 b * bytes_per_sector b \<Longrightarrow> device_io dev pos n = Inr (image_at img pos n)"
  by (simp add: volume_def device_io_def)

lemma copy_cluster_volume:
  assumes v: "volume dev img b" and c: "readable_cluster b c" and n: "off + n \<le> bytes_per_cluster b"
  shows "copy_cluster dev b c off n = Inr (image_at img (cluster_pos b c + off) n)"
proof -
  let ?s = "data_start b + (c - 2) * sectors_per_cluster b"
  have lt: "?s + sectors_per_cluster b < total_sectors_32 b" "total_sectors_32 b < 2 ^ 32" "0 < bytes_per_sector b"
    "total_sectors_32 b * bytes_per_sector b \<le> 2 ^ 32"
    using v c by (auto simp: volume_def readable_cluster_def)
  have "c + 2 ^ 32 - 2 = (c - 2) + 2 ^ 32" "c - 2 < 2 ^ 32"
    using c by (auto simp: readable_cluster_def)
  then have cl: "(c + 2 ^ 32 - 2) mod 2 ^ 32 = c - 2"
    by (simp only: mod_add_self2 mod_less)
  have db: "data_begin b = data_start b"
    using lt by (simp add: data_begin_def data_start_def)
  have cb: "cluster_begin b c = ?s"
    unfolding cluster_begin_def db cl using lt by simp
  have "n div bytes_per_sector b \<le> bytes_per_cluster b div bytes_per_sector b"
    using n by (intro div_le_mono) simp
  also have "\<dots> = sectors_per_cluster b"
    using lt by (simp add: bytes_per_cluster_def)
  finally have nd: "n div bytes_per_sector b \<le> sectors_per_cluster b" .
  have pos: "?s * bytes_per_sector b + off + n \<le> (?s + sectors_per_cluster b) * bytes_per_sector b"
    using n unfolding bytes_per_cluster_def distrib_right by (simp add: mult.commute [of "bytes_per_sector b"])
  also have "\<dots> < total_sectors_32 b * bytes_per_sector b"
    using lt by simp
  finally have p: "?s * bytes_per_sector b + off + n < total_sectors_32 b * bytes_per_sector b" .
  then have m: "(?s * bytes_per_sector b + off) mod 2 ^ 32 = ?s * bytes_per_sector b + off"
    using lt by simp
  have "\<not> total_sectors_32 b \<le> (?s + n div bytes_per_sector b) mod 2 ^ 32"
    using lt nd by simp
  then show ?thesis
    using device_io_volume [OF v, of "?s * bytes_per_sector b + off" n] p m
    by (simp add: copy_cluster_def cb cluster_pos_def)
qed

lemma read_fat_entry_volume:
  assumes v: "volume dev img b" and c: "readable_cluster b c"
  shows "read_fat_entry dev b c = Inr (fat_value img b c)"
proof -
  have pos: "(reserved_sector_count b + c * 4 div bytes_per_sector b) * bytes_per_sector b + c * 4 mod bytes_per_sector b
      = reserved_sector_count b * bytes_per_sector b + 4 * c"
    unfolding distrib_right add.assoc div_mult_mod_eq by simp
  have "fat_size_32 b * 1 \<le> fat_size_32 b * num_fats b"
    using v by (intro mult_le_mono2) (auto simp: volume_def)
  then have "reserved_sector_count b + fat_size_32 b \<le> total_sectors_32 b"
    using v unfolding volume_def by linarith
  then have "(reserved_sector_count b + fat_size_32 b) * bytes_per_sector b \<le> total_sectors_32 b * bytes_per_sector b"
    by (rule mult_right_mono) simp
  then have "reserved_sector_count b * bytes_per_sector b + 4 * c + 4 \<le> total_sectors_32 b * bytes_per_sector b"
    using c by (simp add: readable_cluster_def distrib_right)
  then show ?thesis
    using device_io_volume [OF v, of "reserved_sector_count b * bytes_per_sector b + 4 * c" 4]
    by (simp add: read_fat_entry_def Let_def pos fat_value_def)
qed

lemma fat_chain_readable: "fat_chain img b cs \<Longrightarrow> c \<in> set cs \<Longrightarrow> readable_cluster b c"
  by (induction cs rule: induct_list012) auto

lemma fat_chain_next:
  assumes v: "volume dev img b"
  shows "fat_chain img b cs \<Longrightarrow> i < length cs \<Longrightarrow>
     get_next_cluster dev b (cs ! i) = (if Suc i < length cs then Inr (cs ! Suc i) else Inl EndOfFile)"
proof (induction cs arbitrary: i rule: induct_list012)
  case (2 c)
  then show ?case
    using read_fat_entry_volume [OF v, of c] by (simp add: get_next_cluster_def)
next
  case (3 c d cs)
  show ?case
  proof (cases i)
    case 0
    then show ?thesis
      using 3(3) read_fat_entry_volume [OF v, of c] by (auto simp: get_next_cluster_def)
  next
    case (Suc j)
    then show ?thesis
      using 3 by simp
  qed
qed simp

lemma follow_chain_volume:
  assumes v: "volume dev img b" and ch: "fat_chain img b cs"
  shows "i + n < length cs \<Longrightarrow> follow_chain dev b n (cs ! i) = Inr (cs ! (i + n))"
proof (induction n arbitrary: i)
  case (Suc n)
  then show ?case
    using fat_chain_next [OF v ch, of i] Suc.IH [of "Suc i"] by simp
qed simp

section \<open>Reading a file\<close>

text \<open>A handle's cached position: the cluster it names is the one at its number in the chain.\<close>

definition handle_at :: "nat list \<Rightarrow> handle_data \<Rightarrow> bool" where
  "handle_at cs h \<longleftrightarrow> hd_cluster_number h < length cs \<and> hd_cluster h = cs ! hd_cluster_number h"

lemma seek_cluster_chain_volume:
  assumes v: "volume dev img b" and ch: "fat_chain img b cs" and d: "fd_cluster d = cs ! 0"
    and h: "handle_at cs h" and n: "n < length cs"
  shows "seek_cluster_chain dev b d h n = Inr \<lparr> hd_cluster = cs ! n, hd_cluster_number = n \<rparr>"
proof (cases "n < hd_cluster_number h")
  case True
  then show ?thesis
    using follow_chain_volume [OF v ch, of 0 n] d n by (simp add: seek_cluster_chain_def)
next
  case False
  then show ?thesis
    using follow_chain_volume [OF v ch, of "hd_cluster_number h" "n - hd_cluster_number h"] h n
    by (simp add: seek_cluster_chain_def handle_at_def)
qed

lemma cluster_32:
  assumes "volume dev img b" "readable_cluster b c"
  shows "bytes_per_cluster b < 2 ^ 32"
proof -
  have "sectors_per_cluster b < total_sectors_32 b" "0 < bytes_per_sector b"
    "total_sectors_32 b * bytes_per_sector b \<le> 2 ^ 32"
    using assms by (auto simp: volume_def readable_cluster_def)
  then have "sectors_per_cluster b * bytes_per_sector b < 2 ^ 32"
    by (intro less_le_trans [OF mult_strict_right_mono])
  then show ?thesis
    by (simp add: bytes_per_cluster_def mult.commute)
qed

lemma read_loop_volume:
  assumes v: "volume dev img b" and ch: "fat_chain img b cs" and d: "fd_cluster d = cs ! 0" and l: "length cs < 2 ^ 32"
  shows "handle_at cs h \<Longrightarrow> block + count \<le> length cs \<Longrightarrow>
    \<exists>h'. read_loop dev b d block count h = Inr (h', concat (map (cluster_bytes img b) (take count (drop block cs))))
       \<and> handle_at cs h'"
proof (induction count arbitrary: block h)
  case (Suc count)
  let ?h = "\<lparr> hd_cluster = cs ! block, hd_cluster_number = block \<rparr>"
  have lt: "block < length cs"
    using Suc.prems by simp
  have rd: "readable_cluster b (cs ! block)"
    using fat_chain_readable [OF ch] lt by simp
  have s: "seek_cluster_chain dev b d h (block mod 2 ^ 32) = Inr ?h"
    using seek_cluster_chain_volume [OF v ch d Suc.prems(1) lt] lt l by simp
  have c: "copy_cluster dev b (cs ! block) 0 (bytes_per_cluster b mod 2 ^ 32) = Inr (cluster_bytes img b (cs ! block))"
    using copy_cluster_volume [OF v rd, of 0 "bytes_per_cluster b"] cluster_32 [OF v rd] by (simp add: cluster_bytes_def)
  have "handle_at cs ?h"
    using lt by (simp add: handle_at_def)
  then obtain h' where h': "read_loop dev b d (block + 1) count ?h
      = Inr (h', concat (map (cluster_bytes img b) (take count (drop (block + 1) cs))))" "handle_at cs h'"
    using Suc.IH [of ?h "block + 1"] Suc.prems by auto
  have "take (Suc count) (drop block cs) = cs ! block # take count (drop (block + 1) cs)"
    using lt by (metis Cons_nth_drop_Suc Suc_eq_plus1 take_Suc_Cons)
  then show ?case
    using s c h' by simp
qed simp

lemma unpack_pack_handle: "hd_cluster h < 2 ^ 32 \<Longrightarrow> unpack_handle (pack_handle h) = h"
  by (simp add: unpack_handle_def pack_handle_def)

lemma unpack_pack_fop:
  assumes t: "fd_type d < 2 ^ 4" and c: "fd_cluster d < 2 ^ 28"
  shows "unpack_fop (pack_fop d) = d"
proof -
  have p: "pack_fop d = fd_type d + 2 ^ 4 * (fd_cluster d + 2 ^ 28 * fd_filesize d)"
    by (simp add: pack_fop_def)
  have q: "pack_fop d div 2 ^ 4 = fd_cluster d + 2 ^ 28 * fd_filesize d"
    unfolding p using t by (subst div_mult_self2) simp_all
  have "pack_fop d mod 2 ^ 4 = fd_type d"
    unfolding p using t by (simp only: mod_mult_self2 mod_less)
  moreover have "pack_fop d div 2 ^ 4 mod 2 ^ 28 = fd_cluster d"
    unfolding q using c by (simp only: mod_mult_self2 mod_less)
  moreover have "pack_fop d div 2 ^ 32 = pack_fop d div 2 ^ 4 div 2 ^ 28"
    by (simp add: div_mult2_eq [symmetric])
  then have "pack_fop d div 2 ^ 32 = fd_filesize d"
    unfolding q using c by simp
  ultimately show ?thesis
    by (simp add: unpack_fop_def)
qed

lemma unpack_make_fop:
  "unpack_fop (pack_fop (make_fop_data t c sz)) = make_fop_data t c sz"
  by (rule unpack_pack_fop) (cases t; simp add: make_fop_data_def file_type_num_def)+

lemma handle_at_pack:
  assumes "fat_chain img b cs" "handle_at cs h"
  shows "unpack_handle (pack_handle h) = h"
proof (rule unpack_pack_handle)
  have "readable_cluster b (hd_cluster h)"
    using fat_chain_readable [OF assms(1)] assms(2) by (simp add: handle_at_def)
  then show "hd_cluster h < 2 ^ 32"
    by (simp add: readable_cluster_def)
qed

text \<open>The contents of a chain.\<close>

definition chain_bytes :: "(nat \<Rightarrow> u8) \<Rightarrow> bpb_summary \<Rightarrow> nat list \<Rightarrow> u8 list" where
  "chain_bytes img b cs = concat (map (cluster_bytes img b) cs)"

lemma fat_read_volume:
  assumes v: "volume dev img b" and ch: "fat_chain img b cs" and l: "length cs < 2 ^ 32"
    and d: "fd_cluster (unpack_fop fop) = cs ! 0" and h: "handle_at cs (unpack_handle handle)"
    and n: "block + count \<le> length cs"
  shows "\<exists>handle'. fat_read dev b fop handle block count = (handle', Inr (chain_bytes img b (take count (drop block cs))))
       \<and> handle_at cs (unpack_handle handle')"
  using read_loop_volume [OF v ch d l h n] handle_at_pack [OF ch]
  by (auto simp: fat_read_def chain_bytes_def)

text \<open>A sequence of reads on one handle, as the page cache issues them.\<close>

fun fat_reads :: "device_read \<Rightarrow> bpb_summary \<Rightarrow> nat \<Rightarrow> nat \<Rightarrow> (nat \<times> nat) list \<Rightarrow> u8 list result list" where
  "fat_reads dev b fop handle [] = []"
| "fat_reads dev b fop handle ((block, count) # rs) =
     (case fat_read dev b fop handle block count of (handle', r) \<Rightarrow> r # fat_reads dev b fop handle' rs)"

lemma fat_reads_volume:
  assumes v: "volume dev img b" and ch: "fat_chain img b cs" and l: "length cs < 2 ^ 32"
    and d: "fd_cluster (unpack_fop fop) = cs ! 0"
  shows "handle_at cs (unpack_handle handle) \<Longrightarrow> (\<forall>(block, count) \<in> set rs. block + count \<le> length cs) \<Longrightarrow>
     fat_reads dev b fop handle rs = map (\<lambda>(block, count). Inr (chain_bytes img b (take count (drop block cs)))) rs"
proof (induction rs arbitrary: handle)
  case (Cons r rs)
  then show ?case
    using fat_read_volume [OF v ch l d Cons.prems(1), of "fst r" "snd r"] by (cases r) auto
qed simp

lemma fresh_handle_at:
  assumes ch: "fat_chain img b cs" and fop: "fop = pack_fop (make_fop_data Regular (cs ! 0) sz)"
  shows "fd_cluster (unpack_fop fop) = cs ! 0"
    "\<exists>h. fat_create_handle_data fop = Inr h \<and> handle_at cs (unpack_handle h)"
proof -
  have cs: "cs \<noteq> []" using ch by auto
  then have c: "cs ! 0 < 2 ^ 28"
    using fat_chain_readable [OF ch, of "cs ! 0"] by (simp add: readable_cluster_def)
  then show d: "fd_cluster (unpack_fop fop) = cs ! 0"
    unfolding fop unpack_make_fop by (simp add: make_fop_data_def)
  have "handle_at cs (handle_from_fop (unpack_fop fop))"
    using d cs by (simp add: handle_at_def handle_from_fop_def)
  moreover have "fd_type (unpack_fop fop) = file_type_num Regular"
    unfolding fop unpack_make_fop by (simp add: make_fop_data_def)
  ultimately show "\<exists>h. fat_create_handle_data fop = Inr h \<and> handle_at cs (unpack_handle h)"
    using handle_at_pack [OF ch] by (auto simp: fat_create_handle_data_def Let_def)
qed

section \<open>A file behind the page cache\<close>

lemma length_concat_blocks:
  "(\<And>x. x \<in> set xs \<Longrightarrow> length x = k) \<Longrightarrow> length (concat xs) = length xs * k"
  by (induction xs) simp_all

lemma concat_take_drop_blocks:
  "(\<And>x. x \<in> set xs \<Longrightarrow> length x = k) \<Longrightarrow> take (n * k) (drop (m * k) (concat xs)) = concat (take n (drop m xs))"
proof (induction xs arbitrary: m n)
  case (Cons x xs)
  have x: "length x = k" using Cons.prems by simp
  show ?case
  proof (cases m)
    case 0
    then show ?thesis
      using x Cons.IH [of _ 0] Cons.prems by (cases n) simp_all
  next
    case (Suc m')
    then show ?thesis
      using x Cons.IH [of n m'] Cons.prems by simp
  qed
qed simp

lemma chain_bytes_blocks:
  "chain_bytes img b (take n (drop m cs))
     = take (n * bytes_per_cluster b) (drop (m * bytes_per_cluster b) (chain_bytes img b cs))"
  unfolding chain_bytes_def
  by (subst concat_take_drop_blocks) (auto simp: cluster_bytes_def take_map drop_map)

lemma length_chain_bytes: "length (chain_bytes img b cs) = length cs * bytes_per_cluster b"
  unfolding chain_bytes_def by (subst length_concat_blocks [of _ "bytes_per_cluster b"]) (auto simp: cluster_bytes_def)

lemma take_drop_map_nth: "m + n \<le> length xs \<Longrightarrow> take n (drop m xs) = map (\<lambda>i. xs ! i) [m..<m + n]"
  by (rule nth_equalityI) simp_all

lemma fat_reads_device:
  assumes v: "volume dev img b" and ch: "fat_chain img b cs" and l: "length cs < 2 ^ 32"
    and d: "fd_cluster (unpack_fop fop) = cs ! 0"
    and e: "bytes_per_cluster b = 2 ^ e" and sz: "ceil_div filesize (2 ^ e) \<le> length cs"
  shows "reads_device (\<lambda>handle. handle_at cs (unpack_handle handle)) (fat_read dev b fop) e filesize (\<lambda>i. chain_bytes img b cs ! i)"
  unfolding reads_device_def
proof (intro allI impI)
  fix handle m n assume h: "handle_at cs (unpack_handle handle)" and mn: "m + n \<le> ceil_div filesize (2 ^ e)"
  then have le: "m + n \<le> length cs" using sz by simp
  then have "m * 2 ^ e + n * 2 ^ e \<le> length (chain_bytes img b cs)"
    unfolding length_chain_bytes e by (metis distrib_right mult_le_mono1)
  then have "chain_bytes img b (take n (drop m cs)) = map (\<lambda>i. chain_bytes img b cs ! i) [m * 2 ^ e..<(m + n) * 2 ^ e]"
    by (simp add: chain_bytes_blocks e take_drop_map_nth distrib_right)
  then show "\<exists>h'. fat_read dev b fop handle m n = (h', Inr (map (\<lambda>i. chain_bytes img b cs ! i) [m * 2 ^ e..<(m + n) * 2 ^ e]))
      \<and> handle_at cs (unpack_handle h')"
    using fat_read_volume [OF v ch l d h le] by auto
qed

end
