(* ===== verification/Fat_Directory.thy ===== *)
theory Fat_Directory
  imports Fat_Volume
begin

text \<open>
  Directories of a FAT volume. The specification sees a directory as the list of its 32-byte entries and groups them:
  every short entry with the long-name entries before it, deleted entries left out, up to the end mark. The driver's
  scan over the clusters, its position kept between calls and its search by name are shown to agree with that list.
\<close>

section \<open>The list of entries\<close>

definition dir_entries :: "(nat \<Rightarrow> u8) \<Rightarrow> bpb_summary \<Rightarrow> nat list \<Rightarrow> u8 list list" where
  "dir_entries img b cs =
     concat (map (\<lambda>c. map (\<lambda>i. image_at img (cluster_pos b c + i * dentry_size) dentry_size)
                        [0..<bytes_per_cluster b div dentry_size]) cs)"

definition is_lfn :: "u8 list \<Rightarrow> bool" where
  "is_lfn d \<longleftrightarrow> dentry_attr d AND attr_LongName \<noteq> 0"

text \<open>The files of a directory, each with its long-name entries, and the long-name entries after the last file.\<close>

fun groups :: "u8 list list \<Rightarrow> u8 list list \<Rightarrow> (u8 list list \<times> u8 list) list \<times> u8 list list" where
  "groups pending [] = ([], pending)"
| "groups pending (d # ds) =
     (if hd (dentry_name d) = 0xE5 then groups pending ds
      else if hd (dentry_name d) = 0 then ([], pending)
      else if is_lfn d then groups (pending @ [d]) ds
      else (case groups [] ds of (gs, tr) \<Rightarrow> ((pending, d) # gs, tr)))"

text \<open>The checksum and name that a run of long-name entries gives.\<close>

fun lfn_fold :: "u8 \<times> nat list \<Rightarrow> u8 list list \<Rightarrow> (u8 \<times> nat list) result" where
  "lfn_fold (chk, lfn) [] = Inr (chk, lfn)"
| "lfn_fold (chk, lfn) (d # ds) =
     (if get_num lfn_layout ''number'' d div 64 mod 2 = 1
      then lfn_fold (of_nat (get_num lfn_layout ''checksum'' d), lfn_to_string d @ lfn) ds
      else if of_nat (get_num lfn_layout ''checksum'' d) \<noteq> chk then Inl BadChecksum
      else lfn_fold (chk, lfn_to_string d @ lfn) ds)"

definition group_info :: "u8 list list \<times> u8 list \<Rightarrow> directory_info result" where
  "group_info g = (case lfn_fold (0, []) (fst g) of Inl e \<Rightarrow> Inl e | Inr (chk, lfn) \<Rightarrow> Inr (dentry_info (snd g) chk lfn))"

definition end_error :: "u8 list list \<Rightarrow> error_code" where
  "end_error tr = (case lfn_fold (0, []) tr of Inl e \<Rightarrow> e | Inr _ \<Rightarrow> EndOfFile)"

text \<open>What the directory says about its \<open>n\<close>-th file.\<close>

definition dir_nth :: "(u8 list list \<times> u8 list) list \<times> u8 list list \<Rightarrow> nat \<Rightarrow> directory_info result" where
  "dir_nth g n =
     (if n < length (fst g) then group_info (fst g ! n)
      else if n = length (fst g) then Inl (end_error (snd g)) else Inl EndOfFile)"

lemma lfn_fold_append:
  "lfn_fold s (xs @ ys) = (case lfn_fold s xs of Inl e \<Rightarrow> Inl e | Inr s' \<Rightarrow> lfn_fold s' ys)"
  by (induction s xs rule: lfn_fold.induct) auto

section \<open>The scan\<close>

text \<open>The loop of \<open>readdir\<close> over a plain list of entries: the entries consumed, the next number, the file.\<close>

fun scan :: "u8 list list \<Rightarrow> nat \<Rightarrow> nat \<Rightarrow> nat \<Rightarrow> u8 \<Rightarrow> nat list \<Rightarrow> (nat \<times> nat \<times> directory_info) result" where
  "scan [] index j current_index chk lfn = Inl EndOfFile"
| "scan (d # ds) index j current_index chk lfn =
     (case dentry_step d index current_index chk lfn of
        Inl e \<Rightarrow> Inl e
      | Inr (current_index', chk', lfn', Some info) \<Rightarrow> Inr (j + 1, current_index', info)
      | Inr (current_index', chk', lfn', None) \<Rightarrow> scan ds index (j + 1) current_index' chk' lfn')"

lemma bad_prefix:
  "case groups p ds of ([], tr) \<Rightarrow> \<exists>more. tr = p @ more | (g # gs, tr) \<Rightarrow> \<exists>more. fst g = p @ more"
proof (induction ds arbitrary: p)
  case (Cons d ds)
  show ?case
    using Cons.IH [of p] Cons.IH [of "p @ [d]"] by (auto split: list.splits prod.splits)
qed simp

text \<open>What a scan from entry \<open>j\<close> on must return: the first of the groups, and the entries left are the other groups.\<close>

definition scanned ::
  "u8 list list \<Rightarrow> nat \<Rightarrow> nat \<Rightarrow> (u8 list list \<times> u8 list) list \<times> u8 list list \<Rightarrow> (nat \<times> nat \<times> directory_info) result \<Rightarrow> bool" where
  "scanned ds j index G r \<longleftrightarrow>
     (case fst G of
        [] \<Rightarrow> r = Inl (end_error (snd G))
      | g # gs \<Rightarrow>
          (case group_info g of
             Inl e \<Rightarrow> r = Inl e
           | Inr info \<Rightarrow> \<exists>m \<le> length ds. r = Inr (j + m, index + 1, info) \<and> groups [] (drop m ds) = (gs, snd G)))"

lemma scanned_Cons: "scanned ds (j + 1) index G r \<Longrightarrow> scanned (d # ds) j index G r"
  unfolding scanned_def by (auto split: list.splits sum.splits)

lemma scan_target:
  "index + length (fst (groups pending ds)) < 2 ^ 16 \<Longrightarrow> lfn_fold (0, []) pending = Inr (chk, lfn) \<Longrightarrow>
     scanned ds j index (groups pending ds) (scan ds index j index chk lfn)"
proof (induction ds arbitrary: pending chk lfn j)
  case Nil
  then show ?case by (simp add: scanned_def end_error_def)
next
  case (Cons d ds)
  let ?n = "hd (dentry_name d)"
  consider (del) "?n = 0xE5" | (fin) "?n \<noteq> 0xE5" "?n = 0"
    | (bad) "?n \<noteq> 0xE5" "?n \<noteq> 0" "is_lfn d" "lfn_fold (chk, lfn) [d] = Inl BadChecksum"
    | (long) s' l' where "?n \<noteq> 0xE5" "?n \<noteq> 0" "is_lfn d" "lfn_fold (chk, lfn) [d] = Inr (s', l')"
    | (short) "?n \<noteq> 0xE5" "?n \<noteq> 0" "\<not> is_lfn d"
    by (cases "lfn_fold (chk, lfn) [d]") (auto split: if_splits)
  then show ?case
  proof cases
    case del
    then have st: "scan (d # ds) index j index chk lfn = scan ds index (j + 1) index chk lfn"
      and g: "groups pending (d # ds) = groups pending ds"
      by (simp_all add: dentry_step_def)
    show ?thesis
      unfolding st g using Cons.prems(1) [unfolded g] Cons.prems(2) by (intro scanned_Cons Cons.IH) simp_all
  next
    case fin
    then show ?thesis using Cons.prems by (simp add: scanned_def dentry_step_def end_error_def)
  next
    case bad
    have st: "scan (d # ds) index j index chk lfn = Inl BadChecksum"
      using bad by (auto simp: dentry_step_def is_lfn_def Let_def split: if_splits)
    have f: "lfn_fold (0, []) (pending @ d # more) = Inl BadChecksum" for more
      using bad Cons.prems(2) lfn_fold_append [of "(0, [])" pending "d # more"] by (auto split: if_splits)
    then show ?thesis
      using bad st bad_prefix [of "pending @ [d]" ds]
      by (auto simp: scanned_def end_error_def group_info_def split: list.splits prod.splits)
  next
    case (long s' l')
    have st: "scan (d # ds) index j index chk lfn = scan ds index (j + 1) index s' l'"
      using long by (auto simp: dentry_step_def is_lfn_def Let_def split: if_splits)
    have f: "lfn_fold (0, []) (pending @ [d]) = Inr (s', l')"
      using long Cons.prems(2) by (simp add: lfn_fold_append)
    have g: "groups pending (d # ds) = groups (pending @ [d]) ds"
      using long by simp
    show ?thesis
      unfolding st g using Cons.prems(1) [unfolded g] f by (intro scanned_Cons Cons.IH) simp_all
  next
    case short
    have st: "scan (d # ds) index j index chk lfn = Inr (j + 1, index + 1, dentry_info d chk lfn)"
      using short Cons.prems by (simp add: dentry_step_def is_lfn_def split: prod.splits)
    then show ?thesis
      using short Cons.prems(2)
      by (auto simp: scanned_def group_info_def split: prod.splits intro!: exI [of _ 1])
  qed
qed

text \<open>Before the wanted file the scan counts files and skips everything else.\<close>

lemma scan_skip:
  "current + length gs < 2 ^ 16 \<Longrightarrow> current < index \<Longrightarrow> groups pending ds = (gs, tr) \<Longrightarrow>
     (if index - current < length gs \<or> index - current = length gs
      then scanned ds j index (drop (index - current) gs, tr) (scan ds index j current 0 [])
      else scan ds index j current 0 [] = Inl EndOfFile)"
proof (induction ds arbitrary: pending j current gs)
  case (Cons d ds)
  let ?n = "hd (dentry_name d)"
  consider (skip) pending' where "scan (d # ds) index j current 0 [] = scan ds index (j + 1) current 0 []"
      "groups pending' ds = (gs, tr)"
    | (fin) "scan (d # ds) index j current 0 [] = Inl EndOfFile" "gs = []"
    | (short) gs' where "scan (d # ds) index j current 0 [] = scan ds index (j + 1) (current + 1) 0 []"
      "groups [] ds = (gs', tr)" "length gs = Suc (length gs')" "tl gs = gs'"
    using Cons.prems by (auto simp: dentry_step_def is_lfn_def Let_def split: if_splits prod.splits)
  then show ?case
  proof cases
    case (skip pending')
    then show ?thesis
      using Cons.IH [of current gs pending' "j + 1"] Cons.prems by (auto intro: scanned_Cons)
  next
    case fin
    then show ?thesis
      using Cons.prems by simp
  next
    case (short gs')
    have dr: "drop (index - current) gs = drop (index - (current + 1)) gs'"
      using short(4) Cons.prems(2) by (cases gs) (auto simp: drop_Cons' Suc_diff_Suc)
    show ?thesis
    proof (cases "current + 1 = index")
      case True
      have "scanned ds (j + 1) index (groups [] ds) (scan ds index (j + 1) index 0 [])"
        using Cons.prems(1) True short(2,3) by (intro scan_target) simp_all
      then have "scanned (d # ds) j index (gs', tr) (scan (d # ds) index j current 0 [])"
        using short True by (simp add: scanned_Cons)
      moreover have "index - current = 1"
        using True by simp
      ultimately show ?thesis
        using short(3) dr True by auto
    next
      case False
      define k where "k = index - (current + 1)"
      have k: "index - current = Suc k"
        using Cons.prems(2) by (simp add: k_def)
      have "if k < length gs' \<or> k = length gs' then scanned ds (j + 1) index (drop k gs', tr) (scan ds index (j + 1) (current + 1) 0 [])
          else scan ds index (j + 1) (current + 1) 0 [] = Inl EndOfFile"
        unfolding k_def using Cons.prems(1,2) False short(2,3) by (intro Cons.IH [of _ _ "[]"]) simp_all
      moreover have "drop (Suc k) gs = drop k gs'"
        using dr unfolding k k_def .
      moreover have "scanned ds (j + 1) index G r \<Longrightarrow> scanned (d # ds) j index G r" for G r
        by (rule scanned_Cons)
      ultimately show ?thesis
        unfolding short(1) k short(3) by (auto split: if_splits)
    qed
  qed
qed simp

section \<open>Scanning the clusters\<close>

text \<open>A directory of the volume: a chain of clusters that hold whole entries, fewer than \<open>2 ^ 16\<close> of them.\<close>

definition directory :: "(nat \<Rightarrow> u8) \<Rightarrow> bpb_summary \<Rightarrow> nat list \<Rightarrow> bool" where
  "directory img b cs \<longleftrightarrow> fat_chain img b cs \<and> dentry_size dvd bytes_per_cluster b
     \<and> length (dir_entries img b cs) < 2 ^ 16 \<and> eof_cluster \<notin> set cs"

definition per_cluster :: "bpb_summary \<Rightarrow> nat" where
  "per_cluster b = bytes_per_cluster b div dentry_size"

lemma nth_concat_blocks:
  "(\<And>x. x \<in> set xs \<Longrightarrow> length x = k) \<Longrightarrow> j < length xs * k \<Longrightarrow> concat xs ! j = xs ! (j div k) ! (j mod k)"
proof (induction xs arbitrary: j)
  case (Cons x xs)
  have x: "length x = k" using Cons.prems by simp
  show ?case
  proof (cases "j < k")
    case True
    then show ?thesis using x by (simp add: nth_append)
  next
    case False
    moreover have "0 < k" using Cons.prems(2) by (cases k) simp_all
    ultimately have "j div k = Suc ((j - k) div k)" "j mod k = (j - k) mod k"
      by (simp_all add: le_div_geq le_mod_geq)
    then show ?thesis
      using False x Cons by (simp add: nth_append)
  qed
qed simp

lemma length_dir_entries: "length (dir_entries img b cs) = length cs * per_cluster b"
  unfolding dir_entries_def
  by (subst length_concat_blocks [of _ "per_cluster b"]) (auto simp: per_cluster_def)

lemma nth_dir_entries:
  assumes "j < length (dir_entries img b cs)"
  shows "dir_entries img b cs ! j
     = image_at img (cluster_pos b (cs ! (j div per_cluster b)) + j mod per_cluster b * dentry_size) dentry_size"
proof -
  have lt: "j < length cs * per_cluster b"
    using assms by (simp add: length_dir_entries)
  then have p: "0 < per_cluster b" "j div per_cluster b < length cs"
    by (auto simp: less_mult_imp_div_less intro: ccontr)
  have "dir_entries img b cs ! j = map (\<lambda>c. map (\<lambda>i. image_at img (cluster_pos b c + i * dentry_size) dentry_size)
        [0..<per_cluster b]) cs ! (j div per_cluster b) ! (j mod per_cluster b)"
    unfolding dir_entries_def per_cluster_def [symmetric]
    using lt by (subst nth_concat_blocks [of _ "per_cluster b"]) auto
  then show ?thesis
    using p by simp
qed

lemma read_dentry:
  assumes v: "volume dev img b" and d: "directory img b cs" and j: "j < length (dir_entries img b cs)"
  shows "copy_cluster dev b (cs ! (j div per_cluster b)) (j * dentry_size mod bytes_per_cluster b) dentry_size
       = Inr (dir_entries img b cs ! j)"
proof -
  let ?k = "per_cluster b"
  have k: "bytes_per_cluster b = ?k * dentry_size"
    using d by (simp add: directory_def per_cluster_def)
  have lt: "j div ?k < length cs" "0 < ?k"
    using j by (auto simp: length_dir_entries less_mult_imp_div_less intro: ccontr)
  have off: "j * dentry_size mod bytes_per_cluster b = j mod ?k * dentry_size"
    by (simp add: k mult_mod_left)
  have "j mod ?k < ?k" using lt by simp
  then have "(j mod ?k + 1) * dentry_size \<le> ?k * dentry_size"
    by (intro mult_right_mono) simp_all
  then have "j mod ?k * dentry_size + dentry_size \<le> bytes_per_cluster b"
    by (simp add: k)
  moreover have "readable_cluster b (cs ! (j div ?k))"
    using d lt fat_chain_readable by (auto simp: directory_def)
  ultimately show ?thesis
    using copy_cluster_volume [OF v] by (simp add: off nth_dir_entries [OF j])
qed

text \<open>The cluster the handle names after \<open>j\<close> entries.\<close>

definition cluster_at :: "(nat \<Rightarrow> u8) \<Rightarrow> bpb_summary \<Rightarrow> nat list \<Rightarrow> nat \<Rightarrow> nat" where
  "cluster_at img b cs j = (if j = length (dir_entries img b cs) then eof_cluster else cs ! (j div per_cluster b))"

lemma next_dir_cluster_volume:
  assumes v: "volume dev img b" and d: "directory img b cs" and j: "j < length (dir_entries img b cs)"
  shows "next_dir_cluster dev b fd (j + 1) (cs ! (j div per_cluster b)) have_result
       = (if j + 1 = length (dir_entries img b cs) \<and> \<not> have_result then Inl EndOfFile
          else Inr (cluster_at img b cs (j + 1)))"
proof -
  let ?k = "per_cluster b" and ?N = "length (dir_entries img b cs)"
  have lt: "j div ?k < length cs" "0 < ?k"
    using j by (auto simp: length_dir_entries less_mult_imp_div_less intro: ccontr)
  have nx: "seek_cluster_chain dev b fd \<lparr> hd_cluster = cs ! (j div ?k), hd_cluster_number = 0 \<rparr> 1
      = (if Suc (j div ?k) < length cs then Inr \<lparr> hd_cluster = cs ! Suc (j div ?k), hd_cluster_number = 1 \<rparr> else Inl EndOfFile)"
    using fat_chain_next [OF v _ lt(1)] d by (simp add: seek_cluster_chain_def directory_def)
  show ?thesis
  proof (cases "(j + 1) mod ?k = 0")
    case True
    then have dv: "(j + 1) div ?k = Suc (j div ?k)"
      by (simp add: div_Suc)
    moreover have "j + 1 = Suc (j div ?k) * ?k"
      using True dv by (metis dvd_div_mult_self dvd_eq_mod_eq_0)
    then have "j + 1 = ?N \<longleftrightarrow> Suc (j div ?k) * ?k = length cs * ?k"
      by (simp only: length_dir_entries)
    then have "j + 1 = ?N \<longleftrightarrow> Suc (j div ?k) = length cs"
      using lt(2) by (simp only: mult_cancel2) simp
    ultimately show ?thesis
      using True nx lt by (auto simp: next_dir_cluster_def per_cluster_def [symmetric] cluster_at_def)
  next
    case False
    then have dv: "(j + 1) div ?k = j div ?k"
      by (simp add: div_Suc)
    have "j + 1 \<noteq> ?N"
      using False by (auto simp: length_dir_entries)
    then show ?thesis
      using False dv by (simp add: next_dir_cluster_def per_cluster_def [symmetric] cluster_at_def)
  qed
qed

text \<open>The driver's loop is the scan of the list of entries.\<close>

lemma readdir_loop_scan:
  assumes v: "volume dev img b" and d: "directory img b cs"
  shows "j < length (dir_entries img b cs) \<Longrightarrow>
    readdir_loop dev b fd index (cs ! (j div per_cluster b)) current j chk lfn
      = Some (case scan (drop j (dir_entries img b cs)) index j current chk lfn of
                Inl e \<Rightarrow> Inl e
              | Inr (j', current', info) \<Rightarrow>
                  Inr (\<lparr> dh_cluster = cluster_at img b cs j', dh_index = current', dh_dentry_index = j' \<rparr>, info))"
proof (induction "length (dir_entries img b cs) - j" arbitrary: j current chk lfn)
  case (Suc n)
  let ?D = "dir_entries img b cs"
  have bpc: "bytes_per_cluster b \<noteq> 0" "bytes_per_cluster b div dentry_size \<noteq> 0"
  proof -
    have "0 < per_cluster b"
      using Suc.prems by (auto simp: length_dir_entries intro: ccontr)
    then show "bytes_per_cluster b div dentry_size \<noteq> 0"
      by (simp add: per_cluster_def)
    then show "bytes_per_cluster b \<noteq> 0"
      by (metis div_0)
  qed
  have dr: "drop j ?D = ?D ! j # drop (j + 1) ?D"
    using Suc.prems by (simp add: Cons_nth_drop_Suc)
  have j16: "(j + 1) mod 2 ^ 16 = j + 1"
    using Suc.prems d by (simp add: directory_def)
  note step = readdir_loop.simps [of dev b fd index "cs ! (j div per_cluster b)" current j chk lfn]
  show ?case
  proof (cases "dentry_step (?D ! j) index current chk lfn")
    case (Inl e)
    then show ?thesis
      unfolding step dr using bpc by (simp add: read_dentry [OF v d Suc.prems])
  next
    case (Inr r)
    obtain current' chk' lfn' found where r: "r = (current', chk', lfn', found)"
      by (cases r) auto
    show ?thesis
    proof (cases found)
      case (Some info)
      then show ?thesis
        unfolding step dr using bpc Inr r j16
        by (simp add: read_dentry [OF v d Suc.prems] next_dir_cluster_volume [OF v d Suc.prems, simplified])
    next
      case None
      show ?thesis
      proof (cases "j + 1 = length ?D")
        case True
        have "next_dir_cluster dev b fd (length ?D) (cs ! (j div per_cluster b)) False = Inl EndOfFile"
          using next_dir_cluster_volume [OF v d Suc.prems, of fd False] True by simp
        then show ?thesis
          unfolding step dr using bpc Inr r None j16 True by (simp add: read_dentry [OF v d Suc.prems])
      next
        case False
        then have lt: "j + 1 < length ?D" using Suc.prems by simp
        show ?thesis
          unfolding step dr using bpc Inr r None j16 False lt Suc.hyps(2) Suc.hyps(1) [of "j + 1" current' chk' lfn']
          by (simp add: read_dentry [OF v d Suc.prems] next_dir_cluster_volume [OF v d Suc.prems, simplified] cluster_at_def)
      qed
    qed
  qed
qed simp

section \<open>Reading a directory\<close>

definition dir_at :: "(nat \<Rightarrow> u8) \<Rightarrow> bpb_summary \<Rightarrow> nat list \<Rightarrow> dir_handle \<Rightarrow> bool" where
  "dir_at img b cs h \<longleftrightarrow>
     (let D = dir_entries img b cs; G = groups [] D; j = dh_dentry_index h; k = dh_index h in
      j \<le> length D \<and> dh_cluster h = cluster_at img b cs j \<and> k \<le> length (fst G)
      \<and> groups [] (drop j D) = (drop k (fst G), snd G))"

lemma length_groups: "length (fst (groups p ds)) \<le> length ds"
proof (induction ds arbitrary: p)
  case (Cons d ds)
  show ?case
    using Cons [of p] Cons [of "p @ [d]"] Cons [of "[]"] by (auto split: prod.splits)
qed simp

text \<open>No entry with one of the bits of \<open>attr_LongName\<close> set is ever a file, so that read-only, hidden and system files are
  not seen.\<close>

lemma groups_attr: "g \<in> set (fst (groups p ds)) \<Longrightarrow> dentry_attr (snd g) AND attr_LongName = 0"
proof (induction ds arbitrary: p)
  case (Cons d ds)
  show ?case
    using Cons.prems Cons.IH [of p] Cons.IH [of "p @ [d]"] Cons.IH [of "[]"]
    by (auto simp: is_lfn_def split: if_splits prod.splits)
qed simp

lemma scan_from:
  assumes d: "directory img b cs" and G: "groups [] (dir_entries img b cs) = (gs, tr)"
    and g: "groups [] ds = (drop k gs, tr)" and k: "k \<le> length gs" "k \<le> index"
  shows "if index \<le> length gs then scanned ds j index (drop index gs, tr) (scan ds index j k 0 [])
         else scan ds index j k 0 [] = Inl EndOfFile"
proof -
  have lt: "length gs < 2 ^ 16"
    using length_groups [of "[]" "dir_entries img b cs"] d G by (simp add: directory_def)
  show ?thesis
  proof (cases "k = index")
    case True
    then have "scanned ds j index (groups [] ds) (scan ds index j index 0 [])"
      using lt k g by (intro scan_target) simp_all
    then show ?thesis
      using True k g by simp
  next
    case False
    then have "k < index" using k by simp
    then show ?thesis
      using scan_skip [of k "drop k gs" index "[]" ds tr j] lt k g by (auto split: if_splits)
  qed
qed

lemma readdir_from:
  assumes v: "volume dev img b" and d: "directory img b cs" and at: "dir_at img b cs h"
    and c: "dh_cluster h \<noteq> eof_cluster" and k: "dh_index h \<le> index"
  shows "case dir_nth (groups [] (dir_entries img b cs)) index of
      Inl e \<Rightarrow> readdir_loop dev b fd index (dh_cluster h) (dh_index h) (dh_dentry_index h) 0 [] = Some (Inl e)
    | Inr info \<Rightarrow> \<exists>h'. readdir_loop dev b fd index (dh_cluster h) (dh_index h) (dh_dentry_index h) 0 [] = Some (Inr (h', info))
        \<and> dir_at img b cs h' \<and> dh_index h' = index + 1"
proof -
  let ?D = "dir_entries img b cs" and ?j = "dh_dentry_index h"
  obtain gs tr where G: "groups [] ?D = (gs, tr)" by force
  have at': "?j \<le> length ?D" "dh_cluster h = cluster_at img b cs ?j" "dh_index h \<le> length gs"
      "groups [] (drop ?j ?D) = (drop (dh_index h) gs, tr)"
    using at G by (auto simp: dir_at_def Let_def)
  then have j: "?j < length ?D" "dh_cluster h = cs ! (?j div per_cluster b)"
    using c by (auto simp: cluster_at_def split: if_splits)
  note loop = readdir_loop_scan [OF v d j(1), of fd index "dh_index h" 0 "[]", folded j(2)]
  have sc: "if index \<le> length gs then scanned (drop ?j ?D) ?j index (drop index gs, tr) (scan (drop ?j ?D) index ?j (dh_index h) 0 [])
         else scan (drop ?j ?D) index ?j (dh_index h) 0 [] = Inl EndOfFile"
    by (rule scan_from [OF d G at'(4) at'(3) k])
  show ?thesis
  proof (cases "index < length gs")
    case True
    then have sd: "scanned (drop ?j ?D) ?j index (gs ! index # drop (Suc index) gs, tr) (scan (drop ?j ?D) index ?j (dh_index h) 0 [])"
      using sc by (simp add: Cons_nth_drop_Suc)
    show ?thesis
    proof (cases "group_info (gs ! index)")
      case (Inl e)
      then show ?thesis
        using True sd loop G by (simp add: scanned_def dir_nth_def)
    next
      case (Inr info)
      then obtain m where m: "m \<le> length (drop ?j ?D)" "scan (drop ?j ?D) index ?j (dh_index h) 0 [] = Inr (?j + m, index + 1, info)"
          "groups [] (drop m (drop ?j ?D)) = (drop (Suc index) gs, tr)"
        using sd by (auto simp: scanned_def)
      let ?h = "\<lparr> dh_cluster = cluster_at img b cs (?j + m), dh_index = index + 1, dh_dentry_index = ?j + m \<rparr>"
      have "dir_at img b cs ?h"
        using m at'(1) True G by (auto simp: dir_at_def Let_def add.commute)
      then show ?thesis
        using True Inr loop m(2) G by (simp add: dir_nth_def)
    qed
  next
    case False
    then show ?thesis
      using sc loop G by (auto simp: dir_nth_def scanned_def split: if_splits)
  qed
qed

lemma dir_at_start:
  assumes v: "volume dev img b" and d: "directory img b cs"
  shows "dir_at img b cs \<lparr> dh_cluster = cs ! 0, dh_index = 0, dh_dentry_index = 0 \<rparr>" "cs ! 0 \<noteq> eof_cluster"
proof -
  have cs: "cs \<noteq> []"
    using d by (auto simp: directory_def)
  have "dentry_size dvd bytes_per_cluster b" "0 < bytes_per_cluster b"
    using v d by (simp_all add: volume_def directory_def bytes_per_cluster_def)
  then have "0 < per_cluster b"
    by (simp add: per_cluster_def dentry_size_def dvd_imp_le div_greater_zero_iff)
  then have "0 < length (dir_entries img b cs)"
    using cs by (simp add: length_dir_entries)
  then have ne: "dir_entries img b cs \<noteq> []"
    by simp
  then show "dir_at img b cs \<lparr> dh_cluster = cs ! 0, dh_index = 0, dh_dentry_index = 0 \<rparr>"
    by (cases "groups [] (dir_entries img b cs)") (simp add: dir_at_def cluster_at_def)
  show "cs ! 0 \<noteq> eof_cluster"
    using d cs nth_mem [of 0 cs] by (metis directory_def length_greater_0_conv)
qed

lemma readdir_entry_dir:
  assumes v: "volume dev img b" and d: "directory img b cs" and fd: "fd_cluster fd = cs ! 0"
    and at: "dir_at img b cs h" and c: "dh_cluster h \<noteq> eof_cluster"
  shows "case dir_nth (groups [] (dir_entries img b cs)) index of
      Inl e \<Rightarrow> readdir_entry dev b fd h index = Some (Inl e)
    | Inr info \<Rightarrow> \<exists>h'. readdir_entry dev b fd h index = Some (Inr (h', info)) \<and> dir_at img b cs h' \<and> dh_index h' = index + 1"
proof (cases "dh_index h > index")
  case True
  then show ?thesis
    using readdir_from [OF v d dir_at_start(1) [OF v d], of index fd] dir_at_start(2) [OF v d] c
    by (auto simp: readdir_entry_def fd split: sum.splits)
next
  case False
  then show ?thesis
    using readdir_from [OF v d at c, of index fd] c by (auto simp: readdir_entry_def split: sum.splits)
qed

text \<open>A handle past the last entry only reports the end, whatever index is asked for.\<close>

lemma readdir_entry_eof: "dh_cluster h = eof_cluster \<Longrightarrow> readdir_entry dev b fd h index = Some (Inl EndOfFile)"
  by (simp add: readdir_entry_def)

lemma dir_at_eof:
  assumes d: "directory img b cs" and at: "dir_at img b cs h" and e: "dh_cluster h = eof_cluster"
  shows "dir_nth (groups [] (dir_entries img b cs)) (dh_index h) = Inl EndOfFile"
    "dh_index h = length (fst (groups [] (dir_entries img b cs)))"
proof -
  let ?D = "dir_entries img b cs" and ?j = "dh_dentry_index h"
  obtain gs tr where G: "groups [] ?D = (gs, tr)" by force
  have at': "?j \<le> length ?D" "dh_cluster h = cluster_at img b cs ?j" "dh_index h \<le> length gs"
      "groups [] (drop ?j ?D) = (drop (dh_index h) gs, tr)"
    using at G by (auto simp: dir_at_def Let_def)
  have "?j = length ?D"
  proof (rule ccontr)
    assume ne: "?j \<noteq> length ?D"
    then have "?j < length cs * per_cluster b"
      using at'(1) by (simp add: length_dir_entries)
    then have "cs ! (?j div per_cluster b) \<in> set cs"
      by (intro nth_mem less_mult_imp_div_less)
    then show False
      using ne e at'(2) d by (auto simp: cluster_at_def directory_def)
  qed
  then have "drop (dh_index h) gs = []" "tr = []"
    using at'(4) by simp_all
  then show "dir_nth (groups [] ?D) (dh_index h) = Inl EndOfFile" "dh_index h = length (fst (groups [] ?D))"
    using G at'(3) by (simp_all add: dir_nth_def end_error_def)
qed

text \<open>Searching the list of files by name: the first match, and any error met before it.\<close>

primrec dir_find :: "bpb_summary \<Rightarrow> string \<Rightarrow> u8 list list \<Rightarrow> (u8 list list \<times> u8 list) list \<Rightarrow> file_abstract_data result" where
  "dir_find b name tr [] = Inl (end_error tr)"
| "dir_find b name tr (g # gs) =
     (case group_info g of
        Inl e \<Rightarrow> Inl e
      | Inr di \<Rightarrow> if di_name di = name then Inr (file_abstract_from_dinfo b di) else dir_find b name tr gs)"

lemma find_loop_dir:
  assumes v: "volume dev img b" and d: "directory img b cs" and fd: "fd_cluster fd = cs ! 0"
    and G: "groups [] (dir_entries img b cs) = (gs, tr)"
  shows "dir_at img b cs h \<Longrightarrow> find_loop dev b fd name (dh_index h) h = Some (dir_find b name tr (drop (dh_index h) gs))"
proof (induction "length gs - dh_index h" arbitrary: h rule: less_induct)
  case less
  have k: "dh_index h \<le> length gs"
    using less.prems G by (simp add: dir_at_def Let_def)
  note step = find_loop.simps [of dev b fd name "dh_index h" h]
  show ?case
  proof (cases "dh_cluster h = eof_cluster")
    case True
    then have "dh_index h = length gs" "end_error tr = EndOfFile"
      using dir_at_eof [OF d less.prems True] G by (simp_all add: dir_nth_def)
    then show ?thesis
      unfolding step using readdir_entry_eof [OF True] by simp
  next
    case c: False
    note rd = readdir_entry_dir [OF v d fd less.prems c, of "dh_index h", unfolded G]
    show ?thesis
    proof (cases "dh_index h < length gs")
      case True
      then have dr: "drop (dh_index h) gs = gs ! dh_index h # drop (Suc (dh_index h)) gs"
        by (simp add: Cons_nth_drop_Suc)
      show ?thesis
      proof (cases "group_info (gs ! dh_index h)")
        case (Inl e)
        then show ?thesis
          unfolding step dr using True rd by (simp add: dir_nth_def)
      next
        case (Inr di)
        then obtain h' where h': "readdir_entry dev b fd h (dh_index h) = Some (Inr (h', di))" "dir_at img b cs h'"
            "dh_index h' = dh_index h + 1"
          using True rd by (auto simp: dir_nth_def)
        have "length gs < 2 ^ 16"
          using length_groups [of "[]" "dir_entries img b cs"] d G by (simp add: directory_def)
        then have i: "(dh_index h + 1) mod 2 ^ 32 = dh_index h'"
          using True h'(3) by simp
        have "find_loop dev b fd name (dh_index h') h' = Some (dir_find b name tr (drop (dh_index h') gs))"
          using True h' by (intro less.hyps) simp_all
        then show ?thesis
          unfolding step dr i using h' Inr by simp
      qed
    next
      case False
      then have "dh_index h = length gs"
        using k by simp
      then show ?thesis
        unfolding step using rd by (simp add: dir_nth_def)
    qed
  qed
qed

text \<open>
  C22. The FAT driver finds a file by name exactly as the directory's entries say: on a sound volume, the search scans
  the cluster chain to the end, skips deleted entries, assembles long names and returns the first file with that name,
  the end-of-directory error when there is none, or the checksum error of a damaged long name met before it.
\<close>

theorem fat_find_is_lookup:
  assumes "volume dev img b" "directory img b cs" "groups [] (dir_entries img b cs) = (gs, tr)"
  shows "fat_find dev b (pack_fop (make_fop_data Directory (cs ! 0) sz)) name = Some (dir_find b name tr gs)"
proof -
  let ?d = "make_fop_data Directory (cs ! 0) sz" and ?h = "\<lparr> dh_cluster = cs ! 0, dh_index = 0, dh_dentry_index = 0 \<rparr>"
  have "cs \<noteq> []" "fat_chain img b cs"
    using assms(2) by (auto simp: directory_def)
  then have "cs ! 0 < 2 ^ 28"
    using fat_chain_readable [of img b cs "cs ! 0"] by (simp add: readable_cluster_def)
  then have fd: "fd_cluster ?d = cs ! 0" "fd_type ?d = file_type_num Directory"
    by (simp_all add: make_fop_data_def)
  then show ?thesis
    using find_loop_dir [OF assms(1,2) fd(1) assms(3) dir_at_start(1) [OF assms(1,2)], of name]
    by (simp add: fat_find_def unpack_make_fop dir_handle_from_fop_def)
qed

section \<open>A sample volume\<close>

text \<open>
  Eight sectors of 32 bytes, one sector per cluster: the FAT in sector 1, then clusters 2 to 7. Clusters 2 and 3 are the
  root directory with the file \<^verbatim>\<open>A.B\<close> and the end mark, clusters 4 and 5 its contents.
\<close>

definition sample_bpb :: bpb_summary where
  "sample_bpb = \<lparr> bytes_per_sector = 32, reserved_sector_count = 1, total_sectors_32 = 8, fat_size_32 = 1,
     root_cluster = 2, sectors_per_cluster = 1, num_fats = 1 \<rparr>"

definition sample_image :: "nat \<Rightarrow> u8" where
  "sample_image i =
     (if i = 40 then 3 else if i = 48 then 5
      else if i = 47 \<or> i = 55 then 15
      else if 44 \<le> i \<and> i < 47 \<or> 52 \<le> i \<and> i < 55 then 255
      else if i = 64 then 65 else if i = 72 then 66 else if 64 < i \<and> i < 76 then 32
      else if i = 90 then 4 else if i = 92 then 40
      else if 128 \<le> i \<and> i < 160 then 7 else if 160 \<le> i \<and> i < 192 then 8
      else 0)"

definition sample_entry :: "u8 list" where
  "sample_entry = [65, 32, 32, 32, 32, 32, 32, 32, 66, 32, 32, 32] @ replicate 14 0 @ [4, 0, 40, 0, 0, 0]"

definition sample_device :: device_read where
  "sample_device pos n = (if pos + n \<le> 256 then Inr (image_at sample_image pos n) else Inl IOError)"

lemma sample_volume: "volume sample_device sample_image sample_bpb"
  by (simp add: volume_def sample_bpb_def sample_device_def)

lemma sample_readable: "2 \<le> c \<Longrightarrow> c < 7 \<Longrightarrow> readable_cluster sample_bpb c"
  by (simp add: readable_cluster_def sample_bpb_def data_start_def)

lemma sample_fat:
  "fat_value sample_image sample_bpb 2 = 3" "fat_value sample_image sample_bpb 3 = 0x0FFFFFFF"
  "fat_value sample_image sample_bpb 4 = 5" "fat_value sample_image sample_bpb 5 = 0x0FFFFFFF"
  by (simp_all add: fat_value_def image_at_def sample_bpb_def sample_image_def)

lemma sample_file: "fat_chain sample_image sample_bpb [4, 5]"
  by (simp add: sample_readable sample_fat get_fat_entry_type_def)

lemma sample_chain:
  "chain_bytes sample_image sample_bpb [] = []"
  "chain_bytes sample_image sample_bpb (4 # cs) = replicate 32 7 @ chain_bytes sample_image sample_bpb cs"
  "chain_bytes sample_image sample_bpb (5 # cs) = replicate 32 8 @ chain_bytes sample_image sample_bpb cs"
  by (simp_all add: chain_bytes_def cluster_bytes_def image_at_def sample_bpb_def sample_image_def cluster_pos_def
      data_start_def bytes_per_cluster_def replicate_numeral)

lemma sample_entries:
  "dir_entries sample_image sample_bpb [2, 3]
     = [sample_entry, replicate 32 0]"
  by (simp add: dir_entries_def image_at_def sample_bpb_def sample_image_def cluster_pos_def data_start_def
      bytes_per_cluster_def dentry_size_def sample_entry_def replicate_numeral)

lemma sample_directory: "directory sample_image sample_bpb [2, 3]"
proof -
  have "fat_chain sample_image sample_bpb [2, 3]"
    by (simp add: sample_readable sample_fat get_fat_entry_type_def)
  moreover have "dentry_size dvd bytes_per_cluster sample_bpb"
    by (simp add: bytes_per_cluster_def sample_bpb_def dentry_size_def)
  ultimately show ?thesis
    unfolding directory_def sample_entries by (simp add: eof_cluster_def del: fat_chain.simps)
qed

lemma sample_entry_fields:
  "dentry_name sample_entry = [65, 32, 32, 32, 32, 32, 32, 32, 66, 32, 32]" "dentry_attr sample_entry = 32"
  "get_num dentry_layout ''first_cluster_high'' sample_entry = 0" "get_num dentry_layout ''first_cluster_low'' sample_entry = 4"
  "get_num dentry_layout ''file_size'' sample_entry = 40"
  by (simp_all add: dentry_name_def dentry_attr_def get_num_def get_bytes_def dentry_layout_def sample_entry_def
      replicate_numeral)

lemma sample_groups:
  "groups [] (dir_entries sample_image sample_bpb [2, 3]) = ([([], sample_entry)], [])"
proof -
  have "hd (dentry_name (replicate 32 0)) = 0"
    by (simp add: dentry_name_def get_bytes_def dentry_layout_def replicate_numeral)
  then show ?thesis
    by (simp add: sample_entries sample_entry_fields is_lfn_def attr_LongName_def)
qed

lemma sample_entry_info:
  "group_info ([], sample_entry) = Inr \<lparr> di_cluster = 4, di_size = 40, di_name = ''A.B'', di_attribute = 32 \<rparr>"
proof -
  have "calc_checksum sample_entry \<noteq> 0"
    by (simp add: calc_checksum_def sample_entry_fields)
  moreover have "char_of (65 :: nat) = CHR ''A''" "char_of (66 :: nat) = CHR ''B''"
    by code_simp+
  then have "short_name sample_entry = ''A.B''"
    by (simp add: short_name_def sample_entry_fields)
  ultimately show ?thesis
    by (simp add: group_info_def dentry_info_def sample_entry_fields)
qed

theorem fat_find_is_lookup_witness:
  "fat_find sample_device sample_bpb (pack_fop (make_fop_data Directory 2 0)) ''A.B''
     = Some (Inr (\<lparr> fa_name = ''A.B'', fa_filesize = 40, fa_type = Regular, fa_blocksize_exp = 5,
                    fa_attributes = default_attributes \<rparr>, pack_fop (make_fop_data Regular 4 40)))"
proof -
  have "bytes_per_cluster sample_bpb = 2 ^ 5"
    by (simp add: bytes_per_cluster_def sample_bpb_def)
  then have "calc_blocksize_exp sample_bpb = 5"
    by (simp only: calc_blocksize_exp_def countr_zero_exp)
  then have "dir_find sample_bpb ''A.B'' [] [([], sample_entry)]
     = Inr (\<lparr> fa_name = ''A.B'', fa_filesize = 40, fa_type = Regular, fa_blocksize_exp = 5,
              fa_attributes = default_attributes \<rparr>, pack_fop (make_fop_data Regular 4 40))"
    by (simp add: sample_entry_info file_abstract_from_dinfo_def attr_Directory_def)
  then show ?thesis
    using fat_find_is_lookup [OF sample_volume sample_directory sample_groups, of 0 "''A.B''"] by simp
qed

section \<open>Reading files\<close>

text \<open>
  C21. Whatever reads a FAT file has served before, the next read of any run of its blocks returns exactly the contents
  of those clusters of its chain: the position cached in the handle never leads to a wrong cluster, forwards or
  backwards.
\<close>

theorem fat_reads_follow_chain:
  assumes "volume dev img b" "fat_chain img b cs" "length cs < 2 ^ 32"
    and "fop = pack_fop (make_fop_data Regular (cs ! 0) sz)"
    and "\<forall>(block, count) \<in> set rs. block + count \<le> length cs"
  shows "\<exists>h. fat_create_handle_data fop = Inr h
       \<and> fat_reads dev b fop h rs = map (\<lambda>(block, count). Inr (chain_bytes img b (take count (drop block cs)))) rs"
  using fresh_handle_at [OF assms(2,4)] fat_reads_volume [OF assms(1-3)] assms(5) by blast

theorem fat_reads_follow_chain_witness:
  "\<exists>h. fat_create_handle_data (pack_fop (make_fop_data Regular 4 40)) = Inr h
     \<and> fat_reads sample_device sample_bpb (pack_fop (make_fop_data Regular 4 40)) h [(1, 1), (0, 1), (0, 2)]
       = [Inr (replicate 32 8), Inr (replicate 32 7), Inr (replicate 32 7 @ replicate 32 8)]"
proof -
  have "chain_bytes sample_image sample_bpb [4, 5] = replicate 32 7 @ replicate 32 8"
    "chain_bytes sample_image sample_bpb [4] = replicate 32 7" "chain_bytes sample_image sample_bpb [5] = replicate 32 8"
    by (simp_all add: sample_chain)
  then show ?thesis
    using fat_reads_follow_chain [OF sample_volume sample_file, of _ 40 "[(1, 1), (0, 1), (0, 2)]"] by simp
qed

text \<open>
  C23. Reading a file of a FAT volume through the page cache returns the bytes of the file: whatever ranges of the file
  have been read before through the same handle and cache, each read gives the caller the requested range of the
  contents of the chain. The driver's blocks are the clusters of the chain, the cache assembles them into pages, and the
  position the driver keeps in the handle goes from one page, and from one read, to the next.
\<close>

theorem fat_file_read_through_cache:
  assumes "volume dev img b" "fat_chain img b cs" "length cs < 2 ^ 32"
    and "fop = pack_fop (make_fop_data Regular (cs ! 0) filesize)"
    and "bytes_per_cluster b = 2 ^ e" "2 ^ e \<le> bytes_per_page" "filesize + bytes_per_page \<le> 2 ^ 64"
    and "ceil_div filesize (2 ^ e) \<le> length cs"
    and "\<forall>r \<in> set rs. read_request filesize r"
  shows "\<exists>h. fat_create_handle_data fop = Inr h
       \<and> cached_reads default_provider (fat_read dev b fop) (calc_blocksize_exp b) filesize rs h []
         = Some (map (\<lambda>(offset, n, buf, fr). (Inr n, take n (drop offset (chain_bytes img b cs)) @ drop n buf)) rs)"
proof -
  obtain h where h: "fat_create_handle_data fop = Inr h" "handle_at cs (unpack_handle h)"
    and d: "fd_cluster (unpack_fop fop) = cs ! 0"
    using fresh_handle_at [OF assms(2,4)] by auto
  have e: "calc_blocksize_exp b = e"
    by (simp add: calc_blocksize_exp_def assms(5))
  note rd = fat_reads_device [OF assms(1-3) d assms(5,8)]
  have ok: "cache_ok default_provider []"
    by (simp add: cache_ok_def default_provider_def)
  have byte: "file_byte default_provider (\<lambda>i. chain_bytes img b cs ! i) [] i = chain_bytes img b cs ! i" for i
    by (simp add: file_byte_def default_provider_def)
  have "filesize \<le> ceil_div filesize (2 ^ e) * 2 ^ e"
    using assms(6,7) by (intro ceil_div_ge) auto
  also have "\<dots> \<le> length cs * 2 ^ e"
    using assms(8) by (rule mult_right_mono) simp
  finally have len: "filesize \<le> length (chain_bytes img b cs)"
    using assms(5) by (simp add: length_chain_bytes)
  have bytes: "file_byte default_provider (\<lambda>i. chain_bytes img b cs ! i) [] = (\<lambda>i. chain_bytes img b cs ! i)"
    by (rule ext) (rule byte)
  have "map (file_byte default_provider (\<lambda>i. chain_bytes img b cs ! i) []) [offset..<offset + n]
      = take n (drop offset (chain_bytes img b cs))" if "(offset, n, buf, fr) \<in> set rs" for offset n buf fr
  proof -
    have "offset + n \<le> length (chain_bytes img b cs)"
      using assms(9) that len by (fastforce simp: read_request_def)
    then show ?thesis
      unfolding bytes by (rule take_drop_map_nth [symmetric])
  qed
  then show ?thesis
    using dp.cached_reads_file [OF rd assms(6,7) h(2) ok assms(9)] h(1) unfolding e by auto
qed

theorem fat_file_read_through_cache_witness:
  "cached_reads default_provider (fat_read sample_device sample_bpb (pack_fop (make_fop_data Regular 4 40)))
        (calc_blocksize_exp sample_bpb) 40
        [(31, 3, [0, 0, 0], [Inr (replicate 4096 9)]), (0, 1, [0], [Inr (replicate 4096 9)])] 4 []
      = Some [(Inr 3, [7, 8, 8]), (Inr 1, [7])]"
proof -
  have h: "fat_create_handle_data (pack_fop (make_fop_data Regular 4 40)) = Inr 4"
    unfolding fat_create_handle_data_def unpack_make_fop
    by (simp add: make_fop_data_def handle_from_fop_def pack_handle_def)
  have c: "take 3 (drop 31 (chain_bytes sample_image sample_bpb [4, 5])) = [7, 8, 8]"
    "take 1 (drop 0 (chain_bytes sample_image sample_bpb [4, 5])) = [7]"
    by (simp_all add: sample_chain replicate_numeral)
  have e: "bytes_per_cluster sample_bpb = 2 ^ 5"
    by (simp add: bytes_per_cluster_def sample_bpb_def)
  have rs: "\<forall>r \<in> set [(31, 3, [0, 0, 0], [Inr (replicate 4096 9)]), (0, 1, [0], [Inr (replicate 4096 9)])]. read_request 40 r"
    by (simp add: read_request_def frames_for_def ceil_div_def bytes_per_page_def)
  show ?thesis
    using fat_file_read_through_cache [OF sample_volume sample_file _ _ e _ _ _ rs, of "pack_fop (make_fop_data Regular 4 40)"] h c
    by (simp add: bytes_per_page_def ceil_div_def)
qed

text \<open>
  Positions are computed in 32 bits: on a volume of more than 4 GiB the driver reads a cluster whose first byte is at
  position \<open>p\<close> from position \<open>p mod 2 ^ 32\<close>, that is, from the start of the volume.
\<close>

theorem fat_position_wraps:
  assumes "data_start b < 2 ^ 32" "2 \<le> c" "c < 2 ^ 28" "0 < bytes_per_sector b"
    and "data_start b + (c - 2) * sectors_per_cluster b + n div bytes_per_sector b < total_sectors_32 b"
    and "total_sectors_32 b < 2 ^ 32"
  shows "copy_cluster dev b c off n = device_io dev ((cluster_pos b c + off) mod 2 ^ 32) n"
proof -
  have "c + 2 ^ 32 - 2 = (c - 2) + 2 ^ 32" "c - 2 < 2 ^ 32"
    using assms by auto
  then have cl: "(c + 2 ^ 32 - 2) mod 2 ^ 32 = c - 2"
    by (simp only: mod_add_self2 mod_less)
  have db: "data_begin b = data_start b"
    using assms(1) by (simp add: data_begin_def data_start_def)
  have cb: "cluster_begin b c = data_start b + (c - 2) * sectors_per_cluster b"
    unfolding cluster_begin_def db cl using assms by simp
  have "\<not> total_sectors_32 b \<le> (cluster_begin b c + n div bytes_per_sector b) mod 2 ^ 32"
    unfolding cb using assms by simp
  then show ?thesis
    by (simp add: copy_cluster_def cb cluster_pos_def)
qed

theorem fat_position_wraps_witness:
  "copy_cluster sample_device (sample_bpb \<lparr> total_sectors_32 := 2 ^ 31 \<rparr>) (2 ^ 27) 0 32 = device_io sample_device 0 32
   \<and> cluster_pos (sample_bpb \<lparr> total_sectors_32 := 2 ^ 31 \<rparr>) (2 ^ 27) = 2 ^ 32"
  using fat_position_wraps [of "sample_bpb \<lparr> total_sectors_32 := 2 ^ 31 \<rparr>" "2 ^ 27" 32 sample_device 0]
  by (simp add: sample_bpb_def data_start_def cluster_pos_def)

end
