(* ===== verification/Gpt.thy ===== *)
theory Gpt
  imports Byte_Layout
begin

text \<open>
  The partition scanner of \<^verbatim>\<open>src/block/gpt.hpp\<close>. The opened block device is a parameter: its block size and
  \<open>dev pos n\<close>, what \<^verbatim>\<open>Handle::read\<close> delivers. The scanner's buffer is part of the state of its loop, because the
  reference \<^verbatim>\<open>header\<close> points into it while blocks are read into it. \<open>None\<close> stands for an access outside the buffer
  and for the overflow of the signed loop counter.
\<close>

definition mbr_partition_layout :: layout where
  "mbr_partition_layout = [(''bootable'', 1), (''first_sector'', 3), (''type'', 1), (''last_sector'', 3),
     (''first_lba_sector'', 4), (''num_sectors'', 4)]"

definition mbr_layout :: layout where
  "mbr_layout = [(''loader'', 446), (''partition0'', 16), (''partition1'', 16), (''partition2'', 16),
     (''partition3'', 16), (''signature'', 2)]"

text \<open>GUIDs are compared member by member, which on the packed structure is comparing the 16 bytes.\<close>

definition esp_guid :: "u8 list" where
  "esp_guid = le_bytes 4 0xC12A7328 @ le_bytes 2 0xF81F @ le_bytes 2 0x11D2 @ [0xBA, 0x4B, 0x00, 0xA0, 0xC9, 0x3E, 0xC9, 0x3B]"

definition zero_guid :: "u8 list" where
  "zero_guid = replicate 16 0"

definition header_layout :: layout where
  "header_layout = [(''signature'', 8), (''revision'', 4), (''header_size'', 4), (''gpt_header_checksum'', 4),
     (''reserved1'', 4), (''lba_self'', 8), (''lba_alt'', 8), (''first_usable'', 8), (''last_usable'', 8),
     (''disk_guid'', 16), (''entry_array_lba'', 8), (''num_entries'', 4), (''entry_size'', 4),
     (''entry_array_checksum'', 4)]"

definition entry_layout :: layout where
  "entry_layout = [(''type'', 16), (''id'', 16), (''lba_start'', 8), (''lba_last'', 8), (''attribute'', 8), (''name'', 72)]"

datatype filesystem = UnknownFs | FAT32

record partition =
  lba_start :: nat
  lba_last :: nat
  pt_filesystem :: filesystem

text \<open>\<^verbatim>\<open>read_block\<close>: the new contents of the buffer.\<close>

definition read_block :: "(nat \<Rightarrow> nat \<Rightarrow> u8 list result) \<Rightarrow> nat \<Rightarrow> nat \<Rightarrow> u8 list result" where
  "read_block dev blocksize block =
     (case dev (block * blocksize mod 2 ^ 64) blocksize of
        Inl e \<Rightarrow> Inl e
      | Inr bytes \<Rightarrow> if length bytes \<noteq> blocksize then Inl IOError else Inr bytes)"

definition entry_partition :: "u8 list \<Rightarrow> partition option" where
  "entry_partition entry =
     (if get_bytes entry_layout ''type'' entry = zero_guid then None
      else Some \<lparr> lba_start = get_num entry_layout ''lba_start'' entry, lba_last = get_num entry_layout ''lba_last'' entry,
                  pt_filesystem = (if get_bytes entry_layout ''type'' entry = esp_guid then FAT32 else UnknownFs) \<rparr>)"

text \<open>\<^verbatim>\<open>buffer_lba\<close> is a 32-bit \<^verbatim>\<open>int\<close>: storing truncates, comparing with the 64-bit \<open>lba\<close> extends the sign.\<close>

definition to_int32 :: "nat \<Rightarrow> int" where
  "to_int32 n = signed_take_bit 31 (int n)"

definition same_lba :: "int \<Rightarrow> nat \<Rightarrow> bool" where
  "same_lba buffer_lba lba \<longleftrightarrow> buffer_lba mod 2 ^ 64 = int lba"

function scan_entries ::
  "(nat \<Rightarrow> nat \<Rightarrow> u8 list result) \<Rightarrow> nat \<Rightarrow> nat \<Rightarrow> int \<Rightarrow> u8 list \<Rightarrow> partition list \<Rightarrow> partition list result option" where
  "scan_entries dev blocksize i buffer_lba buffer result =
     (if \<not> i < get_num header_layout ''num_entries'' buffer then Some (Inr result)
      else if i \<ge> 2 ^ 31 then None
      else
        let lba = (get_num header_layout ''entry_array_lba'' buffer + struct_size entry_layout * i div blocksize) mod 2 ^ 64;
            rd = (if same_lba buffer_lba lba then Inr buffer else read_block dev blocksize lba);
            offset = struct_size entry_layout * i mod blocksize
        in (case rd of
              Inl e \<Rightarrow> Some (Inl e)
            | Inr buffer \<Rightarrow>
                if offset + struct_size entry_layout > length buffer then None
                else scan_entries dev blocksize (i + 1) (if same_lba buffer_lba lba then buffer_lba else to_int32 lba) buffer
                       (case entry_partition (drop offset buffer) of None \<Rightarrow> result | Some p \<Rightarrow> result @ [p])))"
  by pat_completeness auto
termination
  by (relation "measure (\<lambda>(dev, bs, i, lba, buf, r). 2 ^ 31 - i)") auto

declare scan_entries.simps [simp del]

definition find_partitions :: "(nat \<Rightarrow> nat \<Rightarrow> u8 list result) \<Rightarrow> nat \<Rightarrow> partition list result option" where
  "find_partitions dev blocksize =
     (case read_block dev blocksize 0 of
        Inl e \<Rightarrow> Some (Inl e)
      | Inr mbr \<Rightarrow>
          if length mbr < struct_size mbr_layout then None
          else if get_bytes mbr_layout ''signature'' mbr \<noteq> [0x55, 0xAA] then Some (Inl NotMBR)
          else if get_num mbr_partition_layout ''type'' (get_bytes mbr_layout ''partition0'' mbr) \<noteq> 0xEE then Some (Inl NotGPT)
          else (case read_block dev blocksize 1 of
            Inl e \<Rightarrow> Some (Inl e)
          | Inr header \<Rightarrow>
              if map (\<lambda>b. char_of (unat b)) (get_bytes header_layout ''signature'' header) \<noteq> ''EFI PART'' then Some (Inl NotGPT)
              else if get_num header_layout ''entry_size'' header \<noteq> 128 then Some (Inl UnsupportedGPT)
              else scan_entries dev blocksize 0 (-1) header []))"

section \<open>Only the first block of entries counts\<close>

text \<open>
  C40. The loop bound is read from the buffer that the entries were just read into. On a disk whose protective MBR and
  GPT header are in order, with any number of entries, the scan returns at most the first partition as soon as the four
  bytes of the first entry block that now lie under \<^verbatim>\<open>num_entries\<close> (characters 12 and 13 of the first partition's name)
  are zero, which they are for every name of at most 12 characters.
\<close>

theorem gpt_scan_stops_after_first:
  assumes mbr: "dev 0 512 = Inr mbr" "length mbr = 512" "get_bytes mbr_layout ''signature'' mbr = [0x55, 0xAA]"
      "get_num mbr_partition_layout ''type'' (get_bytes mbr_layout ''partition0'' mbr) = 0xEE"
    and hdr: "dev 512 512 = Inr hdr" "length hdr = 512"
      "map (\<lambda>b. char_of (unat b)) (get_bytes header_layout ''signature'' hdr) = ''EFI PART''"
      "get_num header_layout ''entry_size'' hdr = 128" "0 < get_num header_layout ''num_entries'' hdr"
      "get_num header_layout ''entry_array_lba'' hdr = lba" "lba < 2 ^ 55"
    and ent: "dev (lba * 512) 512 = Inr ent" "length ent = 512" "get_num header_layout ''num_entries'' ent = 0"
  shows "find_partitions dev 512 = Some (Inr (case entry_partition ent of None \<Rightarrow> [] | Some p \<Rightarrow> [p]))"
proof -
  have sz: "struct_size mbr_layout = 512" "struct_size entry_layout = 128"
    by (simp_all add: struct_size_def mbr_layout_def entry_layout_def)
  have "lba * 512 < 2 ^ 64"
    using hdr(7) by simp
  then have rb: "read_block dev 512 0 = Inr mbr" "read_block dev 512 1 = Inr hdr" "read_block dev 512 lba = Inr ent"
    using mbr hdr ent by (simp_all add: read_block_def)
  have ne: "\<not> same_lba (-1) lba"
    using hdr(7) by (simp add: same_lba_def)
  have "scan_entries dev 512 0 (-1) hdr [] = Some (Inr (case entry_partition ent of None \<Rightarrow> [] | Some p \<Rightarrow> [p]))"
    using hdr ent rb ne by (subst scan_entries.simps, subst scan_entries.simps) (simp add: sz Let_def split: option.split)
  then show ?thesis
    using mbr hdr rb by (simp add: find_partitions_def sz)
qed

text \<open>A disk with two partitions, the first one named with no more than 12 characters.\<close>

definition sample_mbr :: "u8 list" where
  "sample_mbr = replicate 450 0 @ [0xEE] @ replicate 59 0 @ [0x55, 0xAA]"

definition sample_header :: "u8 list" where
  "sample_header = [69, 70, 73, 32, 80, 65, 82, 84] @ replicate 64 0 @ [2, 0, 0, 0, 0, 0, 0, 0, 128, 0, 0, 0, 128, 0, 0, 0] @ replicate 424 0"

definition sample_gpt_entry :: "nat \<Rightarrow> nat \<Rightarrow> u8 list" where
  "sample_gpt_entry first last_lba = esp_guid @ replicate 16 1 @ le_bytes 8 first @ le_bytes 8 last_lba @ replicate 80 0"

definition sample_disk :: "nat \<Rightarrow> nat \<Rightarrow> u8 list result" where
  "sample_disk pos n =
     (if n \<noteq> 512 then Inl IOError
      else if pos = 0 then Inr sample_mbr
      else if pos = 512 then Inr sample_header
      else if pos = 1024 then Inr (sample_gpt_entry 64 127 @ sample_gpt_entry 128 255 @ replicate 256 0)
      else Inl IOError)"

theorem gpt_scan_stops_after_first_witness:
  "find_partitions sample_disk 512 = Some (Inr [\<lparr> lba_start = 64, lba_last = 127, pt_filesystem = FAT32 \<rparr>])
   \<and> entry_partition (sample_gpt_entry 128 255) \<noteq> None"
proof -
  let ?ent = "sample_gpt_entry 64 127 @ sample_gpt_entry 128 255 @ replicate 256 0"
  have chars: "char_of (69 :: nat) = CHR ''E''" "char_of (70 :: nat) = CHR ''F''" "char_of (73 :: nat) = CHR ''I''"
    "char_of (32 :: nat) = CHR '' ''" "char_of (80 :: nat) = CHR ''P''" "char_of (65 :: nat) = CHR ''A''"
    "char_of (82 :: nat) = CHR ''R''" "char_of (84 :: nat) = CHR ''T''"
    by code_simp+
  have esp: "length esp_guid = 16" "hd esp_guid = 0x28"
    by (simp_all add: esp_guid_def le_bytes_numeral)
  then have "hd esp_guid \<noteq> hd zero_guid"
    by (simp add: zero_guid_def replicate_numeral)
  then have nz: "esp_guid \<noteq> zero_guid"
    by metis
  have part: "entry_partition (sample_gpt_entry a z @ more)
      = Some \<lparr> lba_start = a mod 2 ^ 64, lba_last = z mod 2 ^ 64, pt_filesystem = FAT32 \<rparr>" for a z more
    using esp nz by (simp add: entry_partition_def sample_gpt_entry_def get_bytes_def get_num_def entry_layout_def
        le_nat_le_bytes)
  have "find_partitions sample_disk 512 = Some (Inr (case entry_partition ?ent of None \<Rightarrow> [] | Some p \<Rightarrow> [p]))"
  proof (rule gpt_scan_stops_after_first [of sample_disk sample_mbr sample_header 2])
    show "sample_disk 0 512 = Inr sample_mbr" "sample_disk 512 512 = Inr sample_header" "sample_disk (2 * 512) 512 = Inr ?ent"
      by (simp_all add: sample_disk_def)
    show "length sample_mbr = 512" "length sample_header = 512" "length ?ent = 512"
      using esp by (simp_all add: sample_mbr_def sample_header_def sample_gpt_entry_def)
    show "get_bytes mbr_layout ''signature'' sample_mbr = [0x55, 0xAA]"
      "get_num mbr_partition_layout ''type'' (get_bytes mbr_layout ''partition0'' sample_mbr) = 0xEE"
      by (simp_all add: get_bytes_def get_num_def mbr_layout_def mbr_partition_layout_def sample_mbr_def)
    show "map (\<lambda>b. char_of (unat b)) (get_bytes header_layout ''signature'' sample_header) = ''EFI PART''"
      by (simp add: get_bytes_def header_layout_def sample_header_def chars)
    show "get_num header_layout ''entry_size'' sample_header = 128" "0 < get_num header_layout ''num_entries'' sample_header"
      "get_num header_layout ''entry_array_lba'' sample_header = 2"
      by (simp_all add: get_bytes_def get_num_def header_layout_def sample_header_def)
    show "get_num header_layout ''num_entries'' ?ent = 0"
      using esp by (simp add: get_bytes_def get_num_def header_layout_def sample_gpt_entry_def)
  qed simp
  then show ?thesis
    using part [of 64 127] part [of 128 255 "[]"] by simp
qed

end
