(* ===== verification/Bit_Layout.thy ===== *)
theory Bit_Layout
  imports Byte_Layout
begin

text \<open>
  Bit-field structures: a packed structure whose members are widths in bits of one unsigned number. The
  layout is the list of the members with their widths, in the order of the declaration; the compiler places
  the first member at the least significant bit. The lemmas give the value of a member after a store to the
  same member or to another one.
\<close>

definition get_bf :: "layout \<Rightarrow> string \<Rightarrow> nat \<Rightarrow> nat" where
  "get_bf l f v = (case locate l f of None \<Rightarrow> 0 | Some (off, w) \<Rightarrow> take_bit w (drop_bit off v))"

definition put_bf :: "layout \<Rightarrow> string \<Rightarrow> nat \<Rightarrow> nat \<Rightarrow> nat" where
  "put_bf l f x v =
     (case locate l f of
        None \<Rightarrow> v
      | Some (off, w) \<Rightarrow>
          take_bit off v OR push_bit off (take_bit w x) OR push_bit (off + w) (drop_bit (off + w) v))"

lemma bit_put_bf:
  "locate l f = Some (off, w) \<Longrightarrow>
     bit (put_bf l f x v) i = (if off \<le> i \<and> i < off + w then bit x (i - off) else bit v i)"
  by (auto simp: put_bf_def bit_simps)

lemma bit_get_bf:
  "locate l f = Some (off, w) \<Longrightarrow> bit (get_bf l f v) i = (i < w \<and> bit v (off + i))"
  by (auto simp: get_bf_def bit_simps add.commute)

lemma get_put_bf_same:
  assumes "locate l f = Some (off, w)"
  shows "get_bf l f (put_bf l f x v) = take_bit w x"
  by (rule bit_eqI) (use assms in \<open>auto simp: bit_get_bf bit_put_bf bit_simps\<close>)

lemma get_put_bf_other:
  assumes "f \<noteq> g"
  shows "get_bf l g (put_bf l f x v) = get_bf l g v"
proof (cases "locate l f = None \<or> locate l g = None")
  case True
  then have "put_bf l f x v = v \<or> locate l g = None"
    by (auto simp: put_bf_def)
  then show ?thesis by (elim disjE) (simp_all add: get_bf_def)
next
  case False
  then obtain off w off' w' where l: "locate l f = Some (off, w)" "locate l g = Some (off', w')"
    by auto
  have "off + w \<le> off' \<or> off' + w' \<le> off"
    by (rule locate_disjoint [OF l assms])
  then show ?thesis
    by (intro bit_eqI) (auto simp: bit_get_bf [OF l(2)] bit_put_bf [OF l(1)])
qed

lemma put_bf_lt:
  assumes "v < 2 ^ struct_size l"
  shows "put_bf l f x v < 2 ^ struct_size l"
proof (cases "locate l f")
  case None
  then show ?thesis using assms by (simp add: put_bf_def)
next
  case (Some p)
  obtain off w where l: "locate l f = Some (off, w)"
    using Some by (cases p) auto
  have "off + w \<le> struct_size l"
    by (rule locate_bound [OF l])
  moreover have "\<not> bit v i" if "struct_size l \<le> i" for i
    using assms that by (metis bit_take_bit_iff leD take_bit_nat_eq_self)
  ultimately have "take_bit (struct_size l) (put_bf l f x v) = put_bf l f x v"
    by (intro bit_eqI) (auto simp: bit_take_bit_iff bit_put_bf [OF l] not_less [symmetric])
  then show ?thesis
    by (metis take_bit_nat_less_exp)
qed

lemma get_bf_lt: "locate l f = Some (off, w) \<Longrightarrow> get_bf l f v < 2 ^ w"
  by (simp add: get_bf_def take_bit_nat_less_exp)

lemma get_bf_0 [simp]: "get_bf l f 0 = 0"
  by (simp add: get_bf_def split: option.split)

text \<open>A member below the alignment of a number is zero, a member from the alignment upwards is its quotient.\<close>

lemma get_bf_aligned_low:
  assumes "locate l f = Some (off, w)" "2 ^ k dvd v" "off + w \<le> k"
  shows "get_bf l f v = 0"
proof -
  obtain q where "v = 2 ^ k * q" using assms(2) by (rule dvdE)
  then have "v = push_bit k q" by (simp add: push_bit_eq_mult mult.commute)
  then show ?thesis
    using assms(3) by (intro bit_eqI) (auto simp: bit_get_bf [OF assms(1)] bit_simps)
qed

lemma get_bf_quot:
  assumes "locate l f = Some (off, w)" "v < 2 ^ (off + w)"
  shows "get_bf l f v = v div 2 ^ off"
proof -
  have "v div 2 ^ off < 2 ^ w"
    using assms(2) by (simp add: less_mult_imp_div_less power_add mult.commute)
  then show ?thesis
    using assms(1) by (simp add: get_bf_def drop_bit_eq_div take_bit_nat_eq_self)
qed

end
