(* ===== verification/Paging.thy ===== *)
theory Paging
  imports Bit_Layout
begin

text \<open>
  The page tables of \<^verbatim>\<open>src/paging.hpp\<close>: the entry formats of the four levels, the tables that allocate their
  children on demand, \<^verbatim>\<open>map_virtual_to_physical\<close>, the identity map of the kernel, and the address space a
  process starts with (\<^verbatim>\<open>src/process/process-detail.hpp\<close>).

  The tables are what the processor reads: \<open>walk\<close> is the translation of the processor on a physical memory,
  and the theorems are about every memory that holds the tables. An allocated table is an address taken from
  a list of fresh addresses, which stands for \<^verbatim>\<open>new\<close>; the members are declared \<^verbatim>\<open>alignas(0x1000)\<close>, so the
  addresses are multiples of 4096.
\<close>

section \<open>Entry formats\<close>

definition PTEntry_bits :: layout where
  "PTEntry_bits =
     [(''present'', 1), (''write'', 1), (''user'', 1), (''write_through'', 1), (''cache_disable'', 1),
      (''accessed'', 1), (''dirty'', 1), (''page_attribute_table'', 1), (''global'', 1), (''ignored2'', 3),
      (''addr'', 40), (''ignored3'', 7), (''protection_key'', 4), (''execution_disable'', 1)]"

definition PDEntry_bits_huge :: layout where
  "PDEntry_bits_huge =
     [(''present'', 1), (''write'', 1), (''user'', 1), (''write_through'', 1), (''cache_disable'', 1),
      (''accessed'', 1), (''dirty'', 1), (''page_size'', 1), (''global'', 1), (''ignored2'', 3),
      (''page_attribute_table'', 1), (''reserved2'', 8), (''addr'', 31),
      (''ignored3'', 7), (''protection_key'', 4), (''execution_disable'', 1)]"

definition PDEntry_bits :: layout where
  "PDEntry_bits =
     [(''present'', 1), (''write'', 1), (''user'', 1), (''write_through'', 1), (''cache_disable'', 1),
      (''accessed'', 1), (''ignored1'', 1), (''page_size'', 1), (''ignored2'', 4),
      (''addr'', 40), (''ignored3'', 11), (''execution_disable'', 1)]"

definition PDPTEntry_bits_huge :: layout where
  "PDPTEntry_bits_huge =
     [(''present'', 1), (''write'', 1), (''user'', 1), (''write_through'', 1), (''cache_disable'', 1),
      (''accessed'', 1), (''dirty'', 1), (''page_size'', 1), (''global'', 1), (''ignored2'', 3),
      (''page_attribute_table'', 1), (''reserved2'', 17), (''addr'', 22),
      (''ignored3'', 7), (''protection_key'', 4), (''execution_disable'', 1)]"

definition PDPTEntry_bits :: layout where
  "PDPTEntry_bits =
     [(''present'', 1), (''write'', 1), (''user'', 1), (''write_through'', 1), (''cache_disable'', 1),
      (''accessed'', 1), (''ignored1'', 1), (''page_size'', 1), (''ignored2'', 4),
      (''addr'', 40), (''ignored3'', 11), (''execution_disable'', 1)]"

definition PML4Entry_bits :: layout where
  "PML4Entry_bits =
     [(''present'', 1), (''write'', 1), (''user'', 1), (''write_through'', 1), (''cache_disable'', 1),
      (''accessed'', 1), (''ignored1'', 1), (''reserved1'', 1), (''ignored2'', 4),
      (''addr'', 40), (''ignored3'', 11), (''execution_disable'', 1)]"

lemmas entry_layouts =
  PTEntry_bits_def PDEntry_bits_huge_def PDEntry_bits_def PDPTEntry_bits_huge_def PDPTEntry_bits_def PML4Entry_bits_def

section \<open>Tables\<close>

text \<open>
  \<open>t_addr\<close> is the address of the member \<^verbatim>\<open>data\<close>, the array the processor reads; \<open>t_res\<close> is the member
  \<^verbatim>\<open>resource\<close>, the owned tables of the next level.
\<close>

record page_table =
  pt_addr :: nat
  pt_data :: "nat \<Rightarrow> nat"

record 'r table =
  t_addr :: nat
  t_data :: "nat \<Rightarrow> nat"
  t_res :: "nat \<Rightarrow> 'r option"

type_synonym page_directory = "page_table table"
type_synonym pdp_table = "page_directory table"
type_synonym pml4_table = "pdp_table table"

definition new_page_table :: "nat \<Rightarrow> page_table" where
  "new_page_table a = \<lparr>pt_addr = a, pt_data = \<lambda>_. 0\<rparr>"

definition new_table :: "nat \<Rightarrow> 'r table" where
  "new_table a = \<lparr>t_addr = a, t_data = \<lambda>_. 0, t_res = \<lambda>_. None\<rparr>"

text \<open>The entry that points at an owned table: the address, then the three bits.\<close>

definition link_entry :: "layout \<Rightarrow> nat \<Rightarrow> nat" where
  "link_entry l a = put_bf l ''user'' 1 (put_bf l ''write'' 1 (put_bf l ''present'' 1 a))"

text \<open>
  \<^verbatim>\<open>operator[]\<close> of the three upper levels: the result is the table with the child in place, the child, and
  the remaining fresh addresses. The caller that changes the child stores it back with \<open>put_child\<close>, since the
  source returns a reference.
\<close>

definition pd_at :: "page_directory \<Rightarrow> nat \<Rightarrow> nat list \<Rightarrow> (page_directory \<times> page_table \<times> nat list) option" where
  "pd_at t index fresh =
     (case t_res t index of
        Some r \<Rightarrow> Some (t, r, fresh)
      | None \<Rightarrow>
          (case fresh of
             [] \<Rightarrow> None
           | a # fresh' \<Rightarrow>
               let r = new_page_table a in
               Some (t\<lparr>t_res := (t_res t)(index := Some r),
                       t_data := (t_data t)(index := link_entry PDEntry_bits a)\<rparr>, r, fresh')))"

definition pdpt_at :: "pdp_table \<Rightarrow> nat \<Rightarrow> nat list \<Rightarrow> (pdp_table \<times> page_directory \<times> nat list) option" where
  "pdpt_at t index fresh =
     (case t_res t index of
        Some r \<Rightarrow> Some (t, r, fresh)
      | None \<Rightarrow>
          (case fresh of
             [] \<Rightarrow> None
           | a # fresh' \<Rightarrow>
               let r = new_table a in
               Some (t\<lparr>t_res := (t_res t)(index := Some r),
                       t_data := (t_data t)(index := link_entry PDPTEntry_bits a)\<rparr>, r, fresh')))"

definition pml4_at :: "pml4_table \<Rightarrow> nat \<Rightarrow> nat list \<Rightarrow> (pml4_table \<times> pdp_table \<times> nat list) option" where
  "pml4_at t index fresh =
     (case t_res t index of
        Some r \<Rightarrow> Some (t, r, fresh)
      | None \<Rightarrow>
          (case fresh of
             [] \<Rightarrow> None
           | a # fresh' \<Rightarrow>
               let r = new_table a in
               Some (t\<lparr>t_res := (t_res t)(index := Some r),
                       t_data := (t_data t)(index := link_entry PML4Entry_bits a)\<rparr>, r, fresh')))"

definition put_child :: "'r table \<Rightarrow> nat \<Rightarrow> 'r \<Rightarrow> 'r table" where
  "put_child t index r = t\<lparr>t_res := (t_res t)(index := Some r)\<rparr>"

section \<open>Mapping a page\<close>

fun split_loop :: "nat \<Rightarrow> nat \<Rightarrow> nat list" where
  "split_loop 0 addr = []"
| "split_loop (Suc n) addr = (addr AND 0x01FF) # split_loop n (drop_bit 9 addr)"

definition split_addr_for_page_table :: "nat \<Rightarrow> nat list" where
  "split_addr_for_page_table addr = split_loop 4 (drop_bit 12 addr)"

definition attr_User :: nat where "attr_User = 1"
definition attr_Write :: nat where "attr_Write = 2"


definition page_entry :: "nat \<Rightarrow> nat \<Rightarrow> nat" where
  "page_entry physical_addr attr =
     put_bf PTEntry_bits ''write'' (of_bool (attr AND attr_Write \<noteq> 0))
       (put_bf PTEntry_bits ''user'' (of_bool (attr AND attr_User \<noteq> 0))
         (put_bf PTEntry_bits ''present'' 1 physical_addr))"

definition map_virtual_to_physical ::
  "pml4_table \<Rightarrow> nat \<Rightarrow> nat \<Rightarrow> nat \<Rightarrow> nat list \<Rightarrow> (pml4_table \<times> nat list) option" where
  "map_virtual_to_physical pml4 virtual_addr physical_addr attr fresh =
     (case split_addr_for_page_table virtual_addr of
        [pti, pdi, pdpti, pml4i] \<Rightarrow>
          do {
            (pml4, pdpt, fresh) \<leftarrow> pml4_at pml4 pml4i fresh;
            (pdpt, pd, fresh) \<leftarrow> pdpt_at pdpt pdpti fresh;
            (pd, pt, fresh) \<leftarrow> pd_at pd pdi fresh;
            let pt = pt\<lparr>pt_data := (pt_data pt)(pti := page_entry physical_addr attr)\<rparr>;
            Some (put_child pml4 pml4i (put_child pdpt pdpti (put_child pd pdi pt)), fresh)
          }
      | _ \<Rightarrow> None)"

section \<open>The identity map and the address space of a process\<close>

definition supported_memory_limit :: nat where
  "supported_memory_limit = 64"

definition bytes_per_pt :: nat where
  "bytes_per_pt = bytes_per_page * 512"

definition bytes_per_pd :: nat where
  "bytes_per_pd = bytes_per_pt * 512"

definition identity_pde :: "nat \<Rightarrow> nat \<Rightarrow> nat" where
  "identity_pde pdpti pdi =
     put_bf PDEntry_bits_huge ''page_size'' 1
       (put_bf PDEntry_bits_huge ''write'' 1
         (put_bf PDEntry_bits_huge ''present'' 1 (pdpti * bytes_per_pd + pdi * bytes_per_pt)))"

definition identity_pdpte :: "nat \<Rightarrow> nat" where
  "identity_pdpte a = put_bf PDPTEntry_bits ''write'' 1 (put_bf PDPTEntry_bits ''present'' 1 a)"

text \<open>
  The static tables at \<open>base\<close>: the pointer table first, then one page directory for each GiB. An entry past
  the directories keeps its initial value, zero.
\<close>

definition identity_pd_addr :: "nat \<Rightarrow> nat \<Rightarrow> nat" where
  "identity_pd_addr base pdpti = base + 0x1000 * Suc pdpti"

definition get_identity_pdpt :: "nat \<Rightarrow> nat \<Rightarrow> nat" where
  "get_identity_pdpt base pdpti =
     (if pdpti < supported_memory_limit then identity_pdpte (identity_pd_addr base pdpti) else 0)"

text \<open>\<^verbatim>\<open>Process::Process\<close>: entry 0 is created and then pointed at the identity tables.\<close>

definition process_pml4 :: "nat \<Rightarrow> nat \<Rightarrow> nat list \<Rightarrow> (pml4_table \<times> nat list) option" where
  "process_pml4 addr base fresh =
     do {
       (pml4, _, fresh) \<leftarrow> pml4_at (new_table addr) 0 fresh;
       Some (pml4\<lparr>t_data := (t_data pml4)(0 := link_entry PML4Entry_bits base)\<rparr>, fresh)
     }"

section \<open>The translation of the processor\<close>

text \<open>
  A translation gives the physical address, whether user mode may access the page, whether it may be written
  and whether instructions may be fetched from it, which the bit \<^verbatim>\<open>execution_disable\<close> of any level forbids.
\<close>

record access =
  acc_phys :: nat
  acc_user :: bool
  acc_write :: bool
  acc_exec :: bool

definition flag :: "layout \<Rightarrow> string \<Rightarrow> nat \<Rightarrow> bool" where
  "flag l f e \<longleftrightarrow> get_bf l f e = 1"

definition entry_index :: "nat \<Rightarrow> nat \<Rightarrow> nat" where
  "entry_index lvl va = va div 2 ^ (12 + 9 * lvl) mod 512"

definition access_of :: "nat \<Rightarrow> nat list \<Rightarrow> access" where
  "access_of p es =
     \<lparr>acc_phys = p, acc_user = list_all (flag PTEntry_bits ''user'') es,
      acc_write = list_all (flag PTEntry_bits ''write'') es,
      acc_exec = list_all (\<lambda>e. \<not> flag PTEntry_bits ''execution_disable'' e) es\<rparr>"

definition walk :: "(nat \<Rightarrow> nat) \<Rightarrow> nat \<Rightarrow> nat \<Rightarrow> access option" where
  "walk mem cr3 va =
     (let e4 = mem (cr3 + 8 * entry_index 3 va) in
      if \<not> flag PML4Entry_bits ''present'' e4 then None else
      let e3 = mem (get_bf PML4Entry_bits ''addr'' e4 * 2 ^ 12 + 8 * entry_index 2 va) in
      if \<not> flag PDPTEntry_bits ''present'' e3 then None else
      if flag PDPTEntry_bits_huge ''page_size'' e3
      then Some (access_of (get_bf PDPTEntry_bits_huge ''addr'' e3 * 2 ^ 30 + va mod 2 ^ 30) [e4, e3]) else
      let e2 = mem (get_bf PDPTEntry_bits ''addr'' e3 * 2 ^ 12 + 8 * entry_index 1 va) in
      if \<not> flag PDEntry_bits ''present'' e2 then None else
      if flag PDEntry_bits_huge ''page_size'' e2
      then Some (access_of (get_bf PDEntry_bits_huge ''addr'' e2 * 2 ^ 21 + va mod 2 ^ 21) [e4, e3, e2]) else
      let e1 = mem (get_bf PDEntry_bits ''addr'' e2 * 2 ^ 12 + 8 * entry_index 0 va) in
      if \<not> flag PTEntry_bits ''present'' e1 then None else
      Some (access_of (get_bf PTEntry_bits ''addr'' e1 * 2 ^ 12 + va mod 2 ^ 12) [e4, e3, e2, e1]))"

text \<open>The physical memory holds the tables.\<close>

definition array_in :: "(nat \<Rightarrow> nat) \<Rightarrow> nat \<Rightarrow> (nat \<Rightarrow> nat) \<Rightarrow> bool" where
  "array_in mem a d \<longleftrightarrow> (\<forall>i < 512. mem (a + 8 * i) = d i)"

definition pt_in :: "(nat \<Rightarrow> nat) \<Rightarrow> page_table \<Rightarrow> bool" where
  "pt_in mem t \<longleftrightarrow> array_in mem (pt_addr t) (pt_data t)"

definition table_in :: "((nat \<Rightarrow> nat) \<Rightarrow> 'r \<Rightarrow> bool) \<Rightarrow> (nat \<Rightarrow> nat) \<Rightarrow> 'r table \<Rightarrow> bool" where
  "table_in child mem t \<longleftrightarrow>
     array_in mem (t_addr t) (t_data t) \<and> (\<forall>i < 512. \<forall>r. t_res t i = Some r \<longrightarrow> child mem r)"

definition pml4_in :: "(nat \<Rightarrow> nat) \<Rightarrow> pml4_table \<Rightarrow> bool" where
  "pml4_in = table_in (table_in (table_in pt_in))"

definition identity_in :: "(nat \<Rightarrow> nat) \<Rightarrow> nat \<Rightarrow> bool" where
  "identity_in mem base \<longleftrightarrow>
     array_in mem base (get_identity_pdpt base) \<and>
     (\<forall>i < supported_memory_limit. array_in mem (identity_pd_addr base i) (identity_pde i))"


section \<open>Entries as numbers\<close>

lemma entry_locate [simp]:
  "locate PTEntry_bits ''present'' = Some (0, 1)" "locate PTEntry_bits ''write'' = Some (1, 1)"
  "locate PTEntry_bits ''user'' = Some (2, 1)" "locate PTEntry_bits ''addr'' = Some (12, 40)"
  "locate PTEntry_bits ''execution_disable'' = Some (63, 1)"
  "locate PDEntry_bits ''present'' = Some (0, 1)" "locate PDEntry_bits ''write'' = Some (1, 1)"
  "locate PDEntry_bits ''user'' = Some (2, 1)" "locate PDEntry_bits ''addr'' = Some (12, 40)"
  "locate PDEntry_bits_huge ''present'' = Some (0, 1)" "locate PDEntry_bits_huge ''write'' = Some (1, 1)"
  "locate PDEntry_bits_huge ''page_size'' = Some (7, 1)" "locate PDEntry_bits_huge ''addr'' = Some (21, 31)"
  "locate PDPTEntry_bits ''present'' = Some (0, 1)" "locate PDPTEntry_bits ''write'' = Some (1, 1)"
  "locate PDPTEntry_bits ''user'' = Some (2, 1)" "locate PDPTEntry_bits ''addr'' = Some (12, 40)"
  "locate PDPTEntry_bits_huge ''page_size'' = Some (7, 1)"
  "locate PML4Entry_bits ''present'' = Some (0, 1)" "locate PML4Entry_bits ''write'' = Some (1, 1)"
  "locate PML4Entry_bits ''user'' = Some (2, 1)" "locate PML4Entry_bits ''addr'' = Some (12, 40)"
  by (simp_all add: entry_layouts)

definition aligned :: "nat \<Rightarrow> bool" where
  "aligned a \<longleftrightarrow> 2 ^ 12 dvd a \<and> a < 2 ^ 52"

lemma aligned_bit: "aligned a \<Longrightarrow> k < 12 \<Longrightarrow> \<not> bit a k"
proof -
  assume "aligned a" "k < 12"
  then obtain q where "a = push_bit 12 q"
    by (auto simp: aligned_def push_bit_eq_mult dvd_def mult.commute)
  with \<open>k < 12\<close> show ?thesis by (simp add: bit_simps)
qed

lemma small_bit: "(a :: nat) < 2 ^ n \<Longrightarrow> n \<le> k \<Longrightarrow> \<not> bit a k"
  by (metis bit_take_bit_iff not_le take_bit_nat_eq_self_iff)

lemma aligned_bit_high: "aligned a \<Longrightarrow> \<not> bit a 63"
  using small_bit [of a 52 63] by (simp add: aligned_def)

lemma aligned_frame: "aligned a \<Longrightarrow> take_bit 40 (drop_bit 12 a) * 2 ^ 12 = a"
proof -
  assume a: "aligned a"
  then have "a div 2 ^ 12 < 2 ^ 40"
    by (simp add: aligned_def less_mult_imp_div_less)
  with a show ?thesis
    by (simp add: aligned_def drop_bit_eq_div take_bit_nat_eq_self)
qed

lemma flag_bit: "locate l f = Some (off, 1) \<Longrightarrow> flag l f e \<longleftrightarrow> bit e off"
  by (simp add: flag_def get_bf_def take_bit_Suc_0 odd_iff_mod_2_eq_one drop_bit_eq_div bit_iff_odd take_bit_eq_mod)

lemma bit_put_flag: "locate l f = Some (off, 1) \<Longrightarrow> bit (put_bf l f x v) i \<longleftrightarrow> (if i = off then odd x else bit v i)"
  by (auto simp: bit_put_bf [where w = 1] bit_0)

lemma bit_link_entry:
  "l \<in> {PDEntry_bits, PDPTEntry_bits, PML4Entry_bits} \<Longrightarrow> bit (link_entry l a) i \<longleftrightarrow> i < 3 \<or> bit a i"
  by (auto simp: link_entry_def bit_put_flag split: if_split_asm)

lemma bit_identity_pdpte: "bit (identity_pdpte a) i \<longleftrightarrow> i < 2 \<or> bit a i"
  by (auto simp: identity_pdpte_def bit_put_flag split: if_split_asm)

lemma bit_identity_pde:
  "bit (identity_pde p d) i \<longleftrightarrow> i < 2 \<or> i = 7 \<or> bit (p * bytes_per_pd + d * bytes_per_pt) i"
  by (auto simp: identity_pde_def bit_put_flag split: if_split_asm)


text \<open>The address member of an entry is that of the aligned address it was made from.\<close>

lemma frame_of_entry:
  assumes "locate l ''addr'' = Some (12, 40)" "aligned a" "\<And>i. 12 \<le> i \<Longrightarrow> bit e i = bit a i"
  shows "get_bf l ''addr'' e * 2 ^ 12 = a"
proof -
  have "take_bit 40 (drop_bit 12 e) = take_bit 40 (drop_bit 12 a)"
    by (rule bit_eqI) (auto simp: bit_simps assms(3))
  then show ?thesis
    using aligned_frame [OF assms(2)] by (simp add: get_bf_def assms(1))
qed

lemma link_entry_flags:
  assumes "l \<in> {PDEntry_bits, PDPTEntry_bits, PML4Entry_bits}" "aligned a"
  shows "flag PTEntry_bits ''user'' (link_entry l a)" "flag PTEntry_bits ''write'' (link_entry l a)"
    and "flag l ''present'' (link_entry l a)"
    and "\<not> flag PDEntry_bits_huge ''page_size'' (link_entry l a)"
    and "\<not> flag PDPTEntry_bits_huge ''page_size'' (link_entry l a)"
    and "\<not> flag PTEntry_bits ''execution_disable'' (link_entry l a)"
  using assms aligned_bit [OF assms(2), of 7] aligned_bit_high [OF assms(2)] by (auto simp: flag_bit bit_link_entry)

lemma link_entry_frame:
  assumes "l \<in> {PDEntry_bits, PDPTEntry_bits, PML4Entry_bits}" "aligned a"
  shows "get_bf l ''addr'' (link_entry l a) * 2 ^ 12 = a"
  by (rule frame_of_entry) (use assms in \<open>auto simp: bit_link_entry\<close>)

section \<open>Well-formed tables\<close>

text \<open>
  \<open>level_leaf\<close> reads a table as a function from the indices of a path to the entry at its end, zero where no
  table is; \<open>table_level_ok\<close> says that an entry outside \<open>S\<close> is zero or points at the owned table.
\<close>

definition level_leaf :: "('r \<Rightarrow> 'k \<Rightarrow> nat) \<Rightarrow> 'r table \<Rightarrow> nat \<times> 'k \<Rightarrow> nat" where
  "level_leaf leaf t p = (case t_res t (fst p) of None \<Rightarrow> 0 | Some r \<Rightarrow> leaf r (snd p))"

definition table_level_ok :: "layout \<Rightarrow> ('r \<Rightarrow> nat) \<Rightarrow> ('r \<Rightarrow> bool) \<Rightarrow> nat set \<Rightarrow> 'r table \<Rightarrow> bool" where
  "table_level_ok fmt child_addr child_ok S t \<longleftrightarrow>
     (\<forall>i. t_res t i = None \<longrightarrow> i \<notin> S \<longrightarrow> t_data t i = 0) \<and>
     (\<forall>i r. t_res t i = Some r \<longrightarrow>
        aligned (child_addr r) \<and> child_ok r \<and> (i \<notin> S \<longrightarrow> t_data t i = link_entry fmt (child_addr r)))"

locale table_level =
  fixes index :: "'r table \<Rightarrow> nat \<Rightarrow> nat list \<Rightarrow> ('r table \<times> 'r \<times> nat list) option"
    and fmt :: layout and child_addr :: "'r \<Rightarrow> nat" and fresh_child :: "nat \<Rightarrow> 'r"
    and child_ok :: "'r \<Rightarrow> bool" and leaf :: "'r \<Rightarrow> 'k \<Rightarrow> nat"
  assumes index_eq:
      "index t i fresh =
         (case t_res t i of
            Some r \<Rightarrow> Some (t, r, fresh)
          | None \<Rightarrow> (case fresh of [] \<Rightarrow> None
                    | a # fresh' \<Rightarrow>
                        Some (t\<lparr>t_res := (t_res t)(i := Some (fresh_child a)),
                                t_data := (t_data t)(i := link_entry fmt a)\<rparr>, fresh_child a, fresh')))"
    and fresh_addr: "child_addr (fresh_child a) = a"
    and fresh_ok: "child_ok (fresh_child a)"
    and fresh_leaf: "leaf (fresh_child a) k = 0"
begin

lemma index_total:
  assumes "n < length fresh"
  shows "\<exists>t' r fresh'. index t i fresh = Some (t', r, fresh') \<and> set fresh' \<subseteq> set fresh \<and> length fresh \<le> Suc (length fresh')"
  using assms by (cases fresh) (auto simp: index_eq split: option.split)

lemma index_res: "index t i fresh = Some (t', r, fresh') \<Longrightarrow> t_res t' i = Some r \<and> t_addr t' = t_addr t"
  by (auto simp: index_eq split: option.splits list.splits)

lemma index_keep: "index t i fresh = Some (t', r, fresh') \<Longrightarrow> t_res t j \<noteq> None \<Longrightarrow> t_res t' j \<noteq> None \<and> t_data t' j = t_data t j"
  by (auto simp: index_eq split: option.splits list.splits)

lemma index_leaf:
  assumes "index t i fresh = Some (t', r, fresh')"
  shows "level_leaf leaf t' = level_leaf leaf t" "leaf r k = level_leaf leaf t (i, k)"
  using assms
  by (auto simp: index_eq level_leaf_def fresh_leaf fun_eq_iff split: option.splits list.splits if_split_asm)

lemma index_ok:
  assumes "index t i fresh = Some (t', r, fresh')" "table_level_ok fmt child_addr child_ok S t" "list_all aligned fresh"
  shows "table_level_ok fmt child_addr child_ok S t'" "child_ok r" "aligned (child_addr r)"
  using assms
  by (auto simp: index_eq table_level_ok_def fresh_ok fresh_addr split: option.splits list.splits if_split_asm)

lemma put_leaf:
  "level_leaf leaf (put_child t i r) (j, k) = (if j = i then leaf r k else level_leaf leaf t (j, k))"
  by (simp add: level_leaf_def put_child_def)

lemma put_ok:
  assumes "table_level_ok fmt child_addr child_ok S t" "t_res t i = Some r" "child_addr r' = child_addr r" "child_ok r'"
  shows "table_level_ok fmt child_addr child_ok S (put_child t i r')"
  using assms by (auto simp: table_level_ok_def put_child_def)

end

text \<open>The three levels of the source.\<close>

definition pd_leaf :: "page_directory \<Rightarrow> nat \<times> nat \<Rightarrow> nat" where
  "pd_leaf = level_leaf pt_data"

definition pdpt_leaf :: "pdp_table \<Rightarrow> nat \<times> nat \<times> nat \<Rightarrow> nat" where
  "pdpt_leaf = level_leaf pd_leaf"

definition pml4_leaf :: "pml4_table \<Rightarrow> nat \<times> nat \<times> nat \<times> nat \<Rightarrow> nat" where
  "pml4_leaf = level_leaf pdpt_leaf"

definition pd_ok :: "page_directory \<Rightarrow> bool" where
  "pd_ok = table_level_ok PDEntry_bits pt_addr (\<lambda>_. True) {}"

definition pdpt_ok :: "pdp_table \<Rightarrow> bool" where
  "pdpt_ok = table_level_ok PDPTEntry_bits t_addr pd_ok {}"

definition pml4_ok :: "pml4_table \<Rightarrow> bool" where
  "pml4_ok = table_level_ok PML4Entry_bits t_addr pdpt_ok {0}"

lemma new_table_ok: "table_level_ok fmt child_addr child_ok S (new_table a)"
  by (simp add: table_level_ok_def new_table_def)

lemma new_table_leaf: "level_leaf leaf (new_table a) p = 0"
  by (simp add: level_leaf_def new_table_def)

lemma new_table_addr: "t_addr (new_table a) = a"
  by (simp add: new_table_def)

interpretation pdl: table_level pd_at PDEntry_bits pt_addr new_page_table "\<lambda>_. True" pt_data
  by unfold_locales (simp_all add: pd_at_def new_page_table_def Let_def split: option.split list.split)

interpretation pdptl: table_level pdpt_at PDPTEntry_bits t_addr new_table pd_ok pd_leaf
  by unfold_locales
    (simp_all add: pdpt_at_def Let_def pd_ok_def pd_leaf_def new_table_ok new_table_leaf new_table_addr
      split: option.split list.split)

interpretation pml4l: table_level pml4_at PML4Entry_bits t_addr new_table pdpt_ok pdpt_leaf
  by unfold_locales
    (simp_all add: pml4_at_def Let_def pdpt_ok_def pdpt_leaf_def new_table_ok new_table_leaf new_table_addr
      split: option.split list.split)

section \<open>What a mapping changes\<close>

definition path_of :: "nat \<Rightarrow> nat \<times> nat \<times> nat \<times> nat" where
  "path_of va = (entry_index 3 va, entry_index 2 va, entry_index 1 va, entry_index 0 va)"

lemma split_loop_numeral: "split_loop (numeral n) addr = (addr AND 0x01FF) # split_loop (pred_numeral n) (drop_bit 9 addr)"
  by (simp only: numeral_eq_Suc [of n] split_loop.simps)

lemma split_addr_eq:
  "split_addr_for_page_table va = [entry_index 0 va, entry_index 1 va, entry_index 2 va, entry_index 3 va]"
proof -
  have m: "n AND 511 = n mod 512" for n :: nat
    using take_bit_eq_mask [of 9 n] by (simp add: mask_eq_exp_minus_1 take_bit_eq_mod)
  show ?thesis
    by (simp add: split_addr_for_page_table_def split_loop_numeral m entry_index_def flip: drop_bit_eq_div)
      (simp add: drop_bit_eq_div)
qed

lemma map_effect:
  assumes ok: "pml4_ok m" and fresh: "list_all aligned fresh" "3 \<le> length fresh"
  obtains m' fresh' where "map_virtual_to_physical m va pa attr fresh = Some (m', fresh')"
    and "pml4_ok m'" "set fresh' \<subseteq> set fresh" "length fresh \<le> length fresh' + 3" "t_addr m' = t_addr m"
    and "pml4_leaf m' = (pml4_leaf m)(path_of va := page_entry pa attr)"
    and "\<And>j. t_res m j \<noteq> None \<Longrightarrow> t_res m' j \<noteq> None \<and> t_data m' j = t_data m j"
proof -
  obtain m1 pdpt f1 where 1: "pml4_at m (entry_index 3 va) fresh = Some (m1, pdpt, f1)"
    and f1: "set f1 \<subseteq> set fresh" "length fresh \<le> Suc (length f1)"
    using pml4l.index_total [of 2 fresh m "entry_index 3 va"] fresh by auto
  obtain pdpt1 pd f2 where 2: "pdpt_at pdpt (entry_index 2 va) f1 = Some (pdpt1, pd, f2)"
    and f2: "set f2 \<subseteq> set f1" "length f1 \<le> Suc (length f2)"
    using pdptl.index_total [of 1 f1 pdpt "entry_index 2 va"] f1 fresh by auto
  obtain pd1 pt f3 where 3: "pd_at pd (entry_index 1 va) f2 = Some (pd1, pt, f3)" and f3: "set f3 \<subseteq> set f2" "length f2 \<le> Suc (length f3)"
    using pdl.index_total [of 0 f2 pd "entry_index 1 va"] f1(2) f2(2) fresh(2) by fastforce
  define pt' where "pt' = pt\<lparr>pt_data := (pt_data pt)(entry_index 0 va := page_entry pa attr)\<rparr>"
  define pd' where "pd' = put_child pd1 (entry_index 1 va) pt'"
  define pdpt' where "pdpt' = put_child pdpt1 (entry_index 2 va) pd'"
  define m' where "m' = put_child m1 (entry_index 3 va) pdpt'"
  have al: "list_all aligned f1" "list_all aligned f2"
    using fresh(1) f1(1) f2(1) by (auto simp: list_all_iff)
  note o1 = pml4l.index_ok [OF 1 ok [unfolded pml4_ok_def] fresh(1)]
  note o2 = pdptl.index_ok [OF 2 o1(2) [unfolded pdpt_ok_def] al(1)]
  note o3 = pdl.index_ok [OF 3 o2(2) [unfolded pd_ok_def] al(2)]
  note r = pml4l.index_res [OF 1] pdptl.index_res [OF 2] pdl.index_res [OF 3]
  have "pd_ok pd'"
    unfolding pd'_def pd_ok_def
    by (rule pdl.put_ok [OF o3(1)]) (use r in \<open>simp_all add: pt'_def\<close>)
  then have "pdpt_ok pdpt'"
    unfolding pdpt'_def pdpt_ok_def
    by (intro pdptl.put_ok [OF o2(1)]) (use r in \<open>simp_all add: pd'_def put_child_def\<close>)
  then have "pml4_ok m'"
    unfolding m'_def pml4_ok_def
    by (intro pml4l.put_ok [OF o1(1)]) (use r in \<open>simp_all add: pdpt'_def put_child_def\<close>)
  moreover have "map_virtual_to_physical m va pa attr fresh = Some (m', f3)"
    by (simp add: map_virtual_to_physical_def split_addr_eq 1 2 3 m'_def pdpt'_def pd'_def pt'_def del: One_nat_def)
  moreover have "pml4_leaf m' = (pml4_leaf m)(path_of va := page_entry pa attr)"
  proof
    fix p :: "nat \<times> nat \<times> nat \<times> nat"
    obtain a b c d where p: "p = (a, b, c, d)" by (cases p)
    have "pd_leaf pd' (c, d) = (if c = entry_index 1 va then pt_data pt' d else pd_leaf pd (c, d))" for c d
      by (simp add: pd'_def pd_leaf_def pdl.put_leaf pdl.index_leaf(1) [OF 3])
    moreover have "pt_data pt' d = (if d = entry_index 0 va then page_entry pa attr else pd_leaf pd (entry_index 1 va, d))" for d
      by (simp add: pt'_def pdl.index_leaf(2) [OF 3] pd_leaf_def)
    moreover have "pdpt_leaf pdpt' (b, c, d) = (if b = entry_index 2 va then pd_leaf pd' (c, d) else pdpt_leaf pdpt (b, c, d))" for b c d
      by (simp add: pdpt'_def pdpt_leaf_def pdptl.put_leaf pdptl.index_leaf(1) [OF 2])
    moreover have "pd_leaf pd (c, d) = pdpt_leaf pdpt (entry_index 2 va, c, d)" for c d
      by (simp add: pdptl.index_leaf(2) [OF 2] pdpt_leaf_def)
    moreover have "pml4_leaf m' (a, b, c, d) = (if a = entry_index 3 va then pdpt_leaf pdpt' (b, c, d) else pml4_leaf m (a, b, c, d))"
      by (simp add: m'_def pml4_leaf_def pml4l.put_leaf pml4l.index_leaf(1) [OF 1])
    moreover have "pdpt_leaf pdpt (b, c, d) = pml4_leaf m (entry_index 3 va, b, c, d)" for b c d
      by (simp add: pml4l.index_leaf(2) [OF 1] pml4_leaf_def)
    ultimately show "pml4_leaf m' p = ((pml4_leaf m)(path_of va := page_entry pa attr)) p"
      by (simp add: p path_of_def)
  qed
  moreover have "t_res m' j \<noteq> None \<and> t_data m' j = t_data m j" if "t_res m j \<noteq> None" for j
    using pml4l.index_keep [OF 1 that] by (simp add: m'_def put_child_def)
  moreover have "t_addr m' = t_addr m" "set f3 \<subseteq> set fresh" "length fresh \<le> length f3 + 3"
    using r f1 f2 f3 by (auto simp: m'_def put_child_def)
  ultimately show ?thesis
    using that by blast
qed

section \<open>The walk of the processor follows the tables\<close>


lemma entry_index_lt [simp]: "entry_index k va < 512"
  by (simp add: entry_index_def)

lemma not_flag_0 [simp]: "\<not> flag l f 0"
  by (simp add: flag_def)

lemma table_in_at:
  assumes "table_in child mem t"
  shows "mem (t_addr t + 8 * entry_index k va) = t_data t (entry_index k va)"
    and "t_res t (entry_index k va) = Some r \<Longrightarrow> child mem r"
  using assms entry_index_lt [of k va] unfolding table_in_def array_in_def by blast+



section \<open>Pages of the address space\<close>






section \<open>The address space of a process\<close>

fun map_all :: "(nat \<times> nat \<times> nat) list \<Rightarrow> pml4_table \<Rightarrow> nat list \<Rightarrow> (pml4_table \<times> nat list) option" where
  "map_all [] m fresh = Some (m, fresh)"
| "map_all ((va, pa, attr) # reqs) m fresh =
     do { (m, fresh) \<leftarrow> map_virtual_to_physical m va pa attr fresh; map_all reqs m fresh }"

definition kernel_entry :: "nat \<Rightarrow> pml4_table \<Rightarrow> bool" where
  "kernel_entry base m \<longleftrightarrow> t_res m 0 \<noteq> None \<and> t_data m 0 = link_entry PML4Entry_bits base"

lemma process_pml4_ok:
  assumes "aligned a"
  shows "\<exists>m. process_pml4 addr base (a # fresh) = Some (m, fresh) \<and> pml4_ok m \<and> kernel_entry base m \<and> t_addr m = addr"
  using assms new_table_ok
  by (auto simp: process_pml4_def pml4_at_def new_table_def pml4_ok_def table_level_ok_def kernel_entry_def pdpt_ok_def Let_def)

lemma map_all_ok:
  assumes "pml4_ok m" "kernel_entry base m" "list_all aligned fresh" "3 * length reqs \<le> length fresh"
  shows "\<exists>m' fresh'. map_all reqs m fresh = Some (m', fresh') \<and> pml4_ok m' \<and> kernel_entry base m' \<and> t_addr m' = t_addr m"
  using assms
proof (induction reqs arbitrary: m fresh)
  case (Cons r reqs)
  obtain va pa attr where r: "r = (va, pa, attr)" by (cases r)
  obtain m1 f1 where 1: "map_virtual_to_physical m va pa attr fresh = Some (m1, f1)" "pml4_ok m1"
    "set f1 \<subseteq> set fresh" "t_addr m1 = t_addr m" "length fresh \<le> length f1 + 3"
    "\<And>j. t_res m j \<noteq> None \<Longrightarrow> t_res m1 j \<noteq> None \<and> t_data m1 j = t_data m j"
    by (rule map_effect [OF Cons.prems(1,3), of va pa attr]) (use Cons.prems(4) in simp, rule that)
  have "kernel_entry base m1" "list_all aligned f1" "3 * length reqs \<le> length f1"
    using Cons.prems 1 by (auto simp: kernel_entry_def list_all_iff)
  then show ?case
    using Cons.IH [OF 1(2)] 1(1,4) by (auto simp: r)
qed auto

lemma identity_pde_flags:
  assumes "p < 64" "d < 512"
  shows "flag PDEntry_bits ''present'' (identity_pde p d)" "flag PDEntry_bits_huge ''page_size'' (identity_pde p d)"
    and "flag PTEntry_bits ''write'' (identity_pde p d)"
    and "\<not> flag PTEntry_bits ''execution_disable'' (identity_pde p d)"
    and "get_bf PDEntry_bits_huge ''addr'' (identity_pde p d) * 2 ^ 21 = p * 2 ^ 30 + d * 2 ^ 21"
proof -
  define v where "v = p * bytes_per_pd + d * bytes_per_pt"
  have v: "v = (p * 512 + d) * 2 ^ 21"
    by (simp add: v_def bytes_per_pd_def bytes_per_pt_def bytes_per_page_def)
  have "take_bit 31 (drop_bit 21 (identity_pde p d)) = take_bit 31 (drop_bit 21 v)"
    by (rule bit_eqI) (auto simp: bit_simps bit_identity_pde v_def)
  also have "\<dots> = p * 512 + d"
    using assms by (simp add: v drop_bit_eq_div take_bit_nat_eq_self)
  finally show "get_bf PDEntry_bits_huge ''addr'' (identity_pde p d) * 2 ^ 21 = p * 2 ^ 30 + d * 2 ^ 21"
    by (simp add: get_bf_def)
  have "v < 2 ^ 36"
    using assms by (simp add: v)
  then show "\<not> flag PTEntry_bits ''execution_disable'' (identity_pde p d)"
    using small_bit [of v 36 63] by (simp add: flag_bit bit_identity_pde v_def)
qed (simp_all add: flag_bit bit_identity_pde)

lemma identity_pdpte_flags:
  assumes "aligned a"
  shows "flag PDPTEntry_bits ''present'' (identity_pdpte a)" "\<not> flag PDPTEntry_bits_huge ''page_size'' (identity_pdpte a)"
    and "flag PTEntry_bits ''write'' (identity_pdpte a)" "\<not> flag PTEntry_bits ''user'' (identity_pdpte a)"
    and "\<not> flag PTEntry_bits ''execution_disable'' (identity_pdpte a)"
    and "get_bf PDPTEntry_bits ''addr'' (identity_pdpte a) * 2 ^ 12 = a"
proof -
  show "get_bf PDPTEntry_bits ''addr'' (identity_pdpte a) * 2 ^ 12 = a"
    by (rule frame_of_entry) (use assms in \<open>auto simp: bit_identity_pdpte\<close>)
qed (use assms aligned_bit [OF assms] aligned_bit_high [OF assms] in \<open>simp_all add: flag_bit bit_identity_pdpte\<close>)

lemma walk_below_512G:
  assumes "kernel_entry base m" "pml4_in mem m" "identity_in mem base" "aligned base" "base < 2 ^ 51" "entry_index 3 va = 0"
  shows "walk mem (t_addr m) va =
           (if entry_index 2 va < 64
            then Some \<lparr>acc_phys = va mod 2 ^ 39, acc_user = False, acc_write = True, acc_exec = True\<rparr> else None)"
proof -
  define p d where "p = entry_index 2 va" and "d = entry_index 1 va"
  have d: "d < 512" "p < 512"
    by (simp_all add: d_def p_def)
  note l4 = link_entry_flags [of PML4Entry_bits, OF _ assms(4)] link_entry_frame [of PML4Entry_bits, OF _ assms(4)]
  have e: "mem (t_addr m) = link_entry PML4Entry_bits base" "mem (base + 8 * p) = get_identity_pdpt base p"
    using assms(1,3) d table_in_at(1) [OF assms(2) [unfolded pml4_in_def], of 3 va]
    by (simp_all add: assms(6) kernel_entry_def array_in_def identity_in_def)
  show ?thesis
  proof (cases "p < 64")
    case True
    then have al: "aligned (identity_pd_addr base p)"
      using assms(4,5) by (simp add: aligned_def identity_pd_addr_def)
    note l3 = identity_pdpte_flags [OF al]
    note l2 = identity_pde_flags [OF True d(1)]
    have e': "mem (identity_pd_addr base p + 8 * d) = identity_pde p d"
      using assms(3) True d by (simp add: array_in_def identity_in_def supported_memory_limit_def)
    have "p * 2 ^ 30 + d * 2 ^ 21 + va mod 2 ^ 21 = va mod 2 ^ 39"
    proof -
      have "va mod (2 ^ 21 * (512 * 512)) = 2 ^ 21 * (512 * (va div 2 ^ 21 div 512 mod 512) + va div 2 ^ 21 mod 512) + va mod 2 ^ 21"
        by (simp only: mod_mult2_eq)
      moreover have "va div 2 ^ 30 = va div 2 ^ 21 div 512"
        by (simp add: div_mult2_eq [symmetric])
      ultimately show ?thesis
        by (simp add: p_def d_def entry_index_def algebra_simps)
    qed
    then show ?thesis
      using e e' l4 l3 l2 True
      by (simp add: walk_def assms(6) access_of_def Let_def get_identity_pdpt_def supported_memory_limit_def
          p_def [symmetric] d_def [symmetric] del: One_nat_def)
  next
    case False
    then show ?thesis
      using e l4 by (simp add: walk_def assms(6) Let_def get_identity_pdpt_def supported_memory_limit_def p_def [symmetric])
  qed
qed

lemma walk_identity:
  assumes "kernel_entry base m" "pml4_in mem m" "identity_in mem base" "aligned base" "base < 2 ^ 51" "va < 64 * 2 ^ 30"
  shows "walk mem (t_addr m) va = Some \<lparr>acc_phys = va, acc_user = False, acc_write = True, acc_exec = True\<rparr>"
proof -
  have "va div 2 ^ 30 < 64"
    using assms(6) by (simp add: less_mult_imp_div_less)
  then have "entry_index 3 va = 0" "entry_index 2 va < 64" "va mod 2 ^ 39 = va"
    using assms(6) by (simp_all add: entry_index_def)
  with walk_below_512G [OF assms(1-5)] show ?thesis
    by simp
qed


text \<open>
  C24. Every address space of a process sees the kernel: after the constructor of the process and any sequence
  of mappings, the processor translates each address below 64 GiB to itself, writable, executable and not for user mode. A
  mapping that was asked for below 512 GiB does not change this either: entry 0 of the top level points at the
  identity tables while its owned table, which such a mapping fills, is never reached by the processor.
\<close>

theorem process_kernel_identity:
  assumes "list_all aligned fresh" "3 * length reqs < length fresh" "aligned base" "base < 2 ^ 51"
  shows "\<exists>m fresh' m' fresh''.
           process_pml4 addr base fresh = Some (m, fresh') \<and> map_all reqs m fresh' = Some (m', fresh'') \<and>
           pml4_ok m' \<and>
           (\<forall>mem va. pml4_in mem m' \<longrightarrow> identity_in mem base \<longrightarrow> va < 64 * 2 ^ 30 \<longrightarrow>
              walk mem addr va = Some \<lparr>acc_phys = va, acc_user = False, acc_write = True, acc_exec = True\<rparr>)"
proof -
  obtain a fresh' where f: "fresh = a # fresh'"
    using assms(2) by (cases fresh) auto
  obtain m where m: "process_pml4 addr base fresh = Some (m, fresh')" "pml4_ok m" "kernel_entry base m" "t_addr m = addr"
    using process_pml4_ok [of a addr base fresh'] assms(1) by (auto simp: f)
  obtain m' fresh'' where m': "map_all reqs m fresh' = Some (m', fresh'')" "pml4_ok m'" "kernel_entry base m'" "t_addr m' = addr"
    using map_all_ok [OF m(2,3), of fresh' reqs] assms(1,2) m(4) by (auto simp: f)
  show ?thesis
    using m(1) m'(1,2) walk_identity [OF m'(3) _ _ assms(3,4)] m'(4) by blast
qed

definition process_memory :: "nat \<Rightarrow> nat" where
  "process_memory x =
     (if x div 4096 = 0 then (if x = 0 then link_entry PML4Entry_bits 0x2000 else 0)
      else if x div 4096 = 1 then 0
      else if x div 4096 = 2 then get_identity_pdpt 0x2000 (x mod 4096 div 8)
      else identity_pde (x div 4096 - 3) (x mod 4096 div 8))"

lemma page_slot: "i < 512 \<Longrightarrow> (4096 * p + 8 * i) div 4096 = p \<and> (4096 * p + 8 * i) mod 4096 div 8 = (i :: nat)"
  by simp

lemma process_memory_in: "identity_in process_memory 0x2000"
  using page_slot [of _ 2] page_slot [of _ "Suc (Suc (Suc _))"]
  by (auto simp: identity_in_def array_in_def process_memory_def identity_pd_addr_def)

definition process_space :: pml4_table where
  "process_space =
     \<lparr>t_addr = 0, t_data = (\<lambda>_. 0)(0 := link_entry PML4Entry_bits 0x2000), t_res = (\<lambda>_. None)(0 \<mapsto> new_table 0x1000)\<rparr>"

lemma process_space_eq: "process_pml4 0 0x2000 [0x1000] = Some (process_space, [])"
  by (simp add: process_pml4_def pml4_at_def process_space_def Let_def new_table_def)

lemma process_space_in: "pml4_in process_memory process_space"
  using page_slot [of _ 0] page_slot [of _ 1]
  by (auto simp: pml4_in_def table_in_def array_in_def process_space_def new_table_def process_memory_def split: if_split_asm)






lemma process_kernel_identity_witness:
  "process_pml4 0 0x2000 [0x1000] = Some (process_space, []) \<and>
   walk process_memory 0 0xB8000 = Some \<lparr>acc_phys = 0xB8000, acc_user = False, acc_write = True, acc_exec = True\<rparr>"
proof -
  have ok: "list_all aligned [0x1000]" "aligned 0x2000" "3 * length ([] :: (nat \<times> nat \<times> nat) list) < length [0x1000 :: nat]"
    by (simp_all add: aligned_def)
  have "walk process_memory 0 va = Some \<lparr>acc_phys = va, acc_user = False, acc_write = True, acc_exec = True\<rparr>" if "va < 64 * 2 ^ 30" for va
    using process_kernel_identity [OF ok(1,3,2), of 0] process_space_in process_memory_in that
    unfolding process_space_eq by auto
  from this [of "0xB8000"] show ?thesis
    by (simp add: process_space_eq)
qed

end
