(* ===== verification/Xhci_Layout.thy ===== *)
theory Xhci_Layout
  imports Bit_Layout
begin

text \<open>
  The structures the USB host controller driver shares with the controller: the transfer request blocks of
  \<^verbatim>\<open>src/usb/xhci/trb.hpp\<close>, the device contexts of \<^verbatim>\<open>src/usb/xhci/context.hpp\<close> and the registers of
  \<^verbatim>\<open>src/usb/xhci/registers.hpp\<close>, with their accessors. Every union of the source is an unsigned number read
  and written through its bit-field layout; an unnamed member of a bit-field structure has a name that starts
  with an underscore.

  A block is made by a constructor that assigns some members of an uninitialised union, so a constructor takes
  the previous contents of the storage as its first argument, \<open>g\<close>.
\<close>

section \<open>Transfer request blocks\<close>

definition TRB_bits :: layout where
  "TRB_bits =
     [(''parameter'', 64), (''status'', 32), (''cycle_bit'', 1), (''evaluate_next_trb'', 1), (''_0'', 8),
      (''trb_type'', 6), (''control'', 16)]"

definition NormalTRB_bits :: layout where
  "NormalTRB_bits =
     [(''data_buffer_pointer'', 64), (''trb_transfer_length'', 17), (''td_size'', 5),
      (''interrupter_target'', 10), (''cycle_bit'', 1), (''evaluate_next_trb'', 1),
      (''interrupt_on_short_packet'', 1), (''no_snoop'', 1), (''chain_bit'', 1),
      (''interrupt_on_completion'', 1), (''immediate_data'', 1), (''_0'', 2), (''block_event_interrupt'', 1),
      (''trb_type'', 6), (''_1'', 16)]"

definition SetupStageTRB_bits :: layout where
  "SetupStageTRB_bits =
     [(''request_type'', 8), (''request'', 8), (''value'', 16), (''index'', 16), (''length'', 16),
      (''trb_transfer_length'', 17), (''_0'', 5), (''interrupter_target'', 10), (''cycle_bit'', 1), (''_1'', 4),
      (''interrupt_on_completion'', 1), (''immediate_data'', 1), (''_2'', 3), (''trb_type'', 6),
      (''transfer_type'', 2), (''_3'', 14)]"

definition DataStageTRB_bits :: layout where
  "DataStageTRB_bits =
     [(''data_buffer_pointer'', 64), (''trb_transfer_length'', 17), (''td_size'', 5),
      (''interrupter_target'', 10), (''cycle_bit'', 1), (''evaluate_next_trb'', 1),
      (''interrupt_on_short_packet'', 1), (''no_snoop'', 1), (''chain_bit'', 1),
      (''interrupt_on_completion'', 1), (''immediate_data'', 1), (''_0'', 3), (''trb_type'', 6),
      (''direction'', 1), (''_1'', 15)]"

definition StatusStageTRB_bits :: layout where
  "StatusStageTRB_bits =
     [(''_0'', 64), (''_1'', 22), (''interrupter_target'', 10), (''cycle_bit'', 1), (''evaluate_next_trb'', 1),
      (''_2'', 2), (''chain_bit'', 1), (''interrupt_on_completion'', 1), (''_3'', 4), (''trb_type'', 6),
      (''direction'', 1), (''_4'', 15)]"

definition LinkTRB_bits :: layout where
  "LinkTRB_bits =
     [(''_0'', 4), (''ring_segment_pointer'', 60), (''_1'', 22), (''interrupter_target'', 10),
      (''cycle_bit'', 1), (''toggle_cycle'', 1), (''_2'', 2), (''chain_bit'', 1),
      (''interrupt_on_completion'', 1), (''_3'', 4), (''trb_type'', 6), (''_4'', 16)]"

definition NoOpTRB_bits :: layout where
  "NoOpTRB_bits =
     [(''_0'', 64), (''_1'', 22), (''interrupter_target'', 10), (''cycle_bit'', 1), (''evaluate_next_trb'', 1),
      (''_2'', 2), (''chain_bit'', 1), (''interrupt_on_completion'', 1), (''_3'', 4), (''trb_type'', 6),
      (''_4'', 16)]"

definition EnableSlotCommandTRB_bits :: layout where
  "EnableSlotCommandTRB_bits =
     [(''_0'', 32), (''_1'', 32), (''_2'', 32), (''cycle_bit'', 1), (''_3'', 9), (''trb_type'', 6),
      (''slot_type'', 5), (''_4'', 11)]"

definition AddressDeviceCommandTRB_bits :: layout where
  "AddressDeviceCommandTRB_bits =
     [(''_0'', 4), (''input_context_pointer'', 60), (''_1'', 32), (''cycle_bit'', 1), (''_2'', 8),
      (''block_set_address_request'', 1), (''trb_type'', 6), (''_3'', 8), (''slot_id'', 8)]"

definition ConfigureEndpointCommandTRB_bits :: layout where
  "ConfigureEndpointCommandTRB_bits =
     [(''_0'', 4), (''input_context_pointer'', 60), (''_1'', 32), (''cycle_bit'', 1), (''_2'', 8),
      (''deconfigure'', 1), (''trb_type'', 6), (''_3'', 8), (''slot_id'', 8)]"

definition StopEndpointCommandTRB_bits :: layout where
  "StopEndpointCommandTRB_bits =
     [(''_0'', 32), (''_1'', 32), (''_2'', 32), (''cycle_bit'', 1), (''_3'', 9), (''trb_type'', 6),
      (''endpoint_id'', 5), (''_4'', 2), (''suspend'', 1), (''slot_id'', 8)]"

definition NoOpCommandTRB_bits :: layout where
  "NoOpCommandTRB_bits =
     [(''_0'', 32), (''_1'', 32), (''_2'', 32), (''cycle_bit'', 1), (''_3'', 9), (''trb_type'', 6),
      (''_4'', 16)]"

definition TransferEventTRB_bits :: layout where
  "TransferEventTRB_bits =
     [(''trb_pointer'', 64), (''trb_transfer_length'', 24), (''completion_code'', 8), (''cycle_bit'', 1),
      (''_0'', 1), (''event_data'', 1), (''_1'', 7), (''trb_type'', 6), (''endpoint_id'', 5), (''_2'', 3),
      (''slot_id'', 8)]"

definition CommandCompletionEventTRB_bits :: layout where
  "CommandCompletionEventTRB_bits =
     [(''_0'', 4), (''command_trb_pointer'', 60), (''command_completion_parameter'', 24),
      (''completion_code'', 8), (''cycle_bit'', 1), (''_1'', 9), (''trb_type'', 6), (''vf_id'', 8),
      (''slot_id'', 8)]"

definition PortStatusChangeEventTRB_bits :: layout where
  "PortStatusChangeEventTRB_bits =
     [(''_0'', 24), (''port_id'', 8), (''_1'', 32), (''_2'', 24), (''completion_code'', 8), (''cycle_bit'', 1),
      (''_3'', 9), (''trb_type'', 6)]"

text \<open>The kinds of blocks, with the layout and the number \<^verbatim>\<open>type\<close> of each.\<close>

datatype (plugins only: code) trb_kind =
    K_Normal | K_SetupStage | K_DataStage | K_StatusStage
  | K_Link | K_NoOp | K_EnableSlotCommand | K_AddressDeviceCommand
  | K_ConfigureEndpointCommand | K_StopEndpointCommand | K_NoOpCommand | K_TransferEvent
  | K_CommandCompletionEvent | K_PortStatusChangeEvent

fun trb_bits :: "trb_kind \<Rightarrow> layout" where
  "trb_bits K_Normal = NormalTRB_bits"
| "trb_bits K_SetupStage = SetupStageTRB_bits"
| "trb_bits K_DataStage = DataStageTRB_bits"
| "trb_bits K_StatusStage = StatusStageTRB_bits"
| "trb_bits K_Link = LinkTRB_bits"
| "trb_bits K_NoOp = NoOpTRB_bits"
| "trb_bits K_EnableSlotCommand = EnableSlotCommandTRB_bits"
| "trb_bits K_AddressDeviceCommand = AddressDeviceCommandTRB_bits"
| "trb_bits K_ConfigureEndpointCommand = ConfigureEndpointCommandTRB_bits"
| "trb_bits K_StopEndpointCommand = StopEndpointCommandTRB_bits"
| "trb_bits K_NoOpCommand = NoOpCommandTRB_bits"
| "trb_bits K_TransferEvent = TransferEventTRB_bits"
| "trb_bits K_CommandCompletionEvent = CommandCompletionEventTRB_bits"
| "trb_bits K_PortStatusChangeEvent = PortStatusChangeEventTRB_bits"

fun trb_type :: "trb_kind \<Rightarrow> nat" where
  "trb_type K_Normal = 1"
| "trb_type K_SetupStage = 2"
| "trb_type K_DataStage = 3"
| "trb_type K_StatusStage = 4"
| "trb_type K_Link = 6"
| "trb_type K_NoOp = 8"
| "trb_type K_EnableSlotCommand = 9"
| "trb_type K_AddressDeviceCommand = 11"
| "trb_type K_ConfigureEndpointCommand = 12"
| "trb_type K_StopEndpointCommand = 15"
| "trb_type K_NoOpCommand = 23"
| "trb_type K_TransferEvent = 32"
| "trb_type K_CommandCompletionEvent = 33"
| "trb_type K_PortStatusChangeEvent = 34"

section \<open>Constructors and accessors\<close>

definition NormalTRB_get_pointer :: "nat \<Rightarrow> nat" where
  "NormalTRB_get_pointer v = get_bf NormalTRB_bits ''data_buffer_pointer'' v"

definition NormalTRB_set_pointer :: "nat \<Rightarrow> nat \<Rightarrow> nat" where
  "NormalTRB_set_pointer p v = put_bf NormalTRB_bits ''data_buffer_pointer'' p v"

definition NormalTRB :: "nat \<Rightarrow> nat" where
  "NormalTRB g =
     put_bf NormalTRB_bits ''trb_type'' 1 g"

definition SetupStageTRB :: "nat \<Rightarrow> nat" where
  "SetupStageTRB g =
     put_bf SetupStageTRB_bits ''trb_transfer_length'' 8 (put_bf SetupStageTRB_bits ''immediate_data'' 1 (put_bf SetupStageTRB_bits ''trb_type'' 2 g))"

definition DataStageTRB_get_pointer :: "nat \<Rightarrow> nat" where
  "DataStageTRB_get_pointer v = get_bf DataStageTRB_bits ''data_buffer_pointer'' v"

definition DataStageTRB_set_pointer :: "nat \<Rightarrow> nat \<Rightarrow> nat" where
  "DataStageTRB_set_pointer p v = put_bf DataStageTRB_bits ''data_buffer_pointer'' p v"

definition DataStageTRB :: "nat \<Rightarrow> nat" where
  "DataStageTRB g =
     put_bf DataStageTRB_bits ''trb_type'' 3 g"

definition StatusStageTRB :: "nat \<Rightarrow> nat" where
  "StatusStageTRB g =
     put_bf StatusStageTRB_bits ''trb_type'' 4 g"

definition LinkTRB_get_pointer :: "nat \<Rightarrow> nat" where
  "LinkTRB_get_pointer v = push_bit 4 (get_bf LinkTRB_bits ''ring_segment_pointer'' v)"

definition LinkTRB_set_pointer :: "nat \<Rightarrow> nat \<Rightarrow> nat" where
  "LinkTRB_set_pointer p v = put_bf LinkTRB_bits ''ring_segment_pointer'' (drop_bit 4 p) v"

definition LinkTRB :: "nat \<Rightarrow> nat \<Rightarrow> nat" where
  "LinkTRB g ring_segment_pointer =
     LinkTRB_set_pointer ring_segment_pointer (put_bf LinkTRB_bits ''trb_type'' 6 g)"

definition NoOpTRB :: "nat \<Rightarrow> nat" where
  "NoOpTRB g =
     put_bf NoOpTRB_bits ''trb_type'' 8 g"

definition EnableSlotCommandTRB :: "nat \<Rightarrow> nat" where
  "EnableSlotCommandTRB g =
     put_bf EnableSlotCommandTRB_bits ''trb_type'' 9 g"

definition AddressDeviceCommandTRB_get_pointer :: "nat \<Rightarrow> nat" where
  "AddressDeviceCommandTRB_get_pointer v = push_bit 4 (get_bf AddressDeviceCommandTRB_bits ''input_context_pointer'' v)"

definition AddressDeviceCommandTRB_set_pointer :: "nat \<Rightarrow> nat \<Rightarrow> nat" where
  "AddressDeviceCommandTRB_set_pointer p v = put_bf AddressDeviceCommandTRB_bits ''input_context_pointer'' (drop_bit 4 p) v"

definition AddressDeviceCommandTRB :: "nat \<Rightarrow> nat \<Rightarrow> nat \<Rightarrow> nat" where
  "AddressDeviceCommandTRB g input_context slot_id =
     AddressDeviceCommandTRB_set_pointer input_context
       (put_bf AddressDeviceCommandTRB_bits ''slot_id'' slot_id (put_bf AddressDeviceCommandTRB_bits ''trb_type'' 11 g))"

definition ConfigureEndpointCommandTRB_get_pointer :: "nat \<Rightarrow> nat" where
  "ConfigureEndpointCommandTRB_get_pointer v = push_bit 4 (get_bf ConfigureEndpointCommandTRB_bits ''input_context_pointer'' v)"

definition ConfigureEndpointCommandTRB_set_pointer :: "nat \<Rightarrow> nat \<Rightarrow> nat" where
  "ConfigureEndpointCommandTRB_set_pointer p v = put_bf ConfigureEndpointCommandTRB_bits ''input_context_pointer'' (drop_bit 4 p) v"

definition ConfigureEndpointCommandTRB :: "nat \<Rightarrow> nat \<Rightarrow> nat \<Rightarrow> nat" where
  "ConfigureEndpointCommandTRB g input_context slot_id =
     ConfigureEndpointCommandTRB_set_pointer input_context
       (put_bf ConfigureEndpointCommandTRB_bits ''slot_id'' slot_id (put_bf ConfigureEndpointCommandTRB_bits ''trb_type'' 12 g))"

definition StopEndpointCommandTRB_get_endpoint_id :: "nat \<Rightarrow> nat" where
  "StopEndpointCommandTRB_get_endpoint_id v = get_bf StopEndpointCommandTRB_bits ''endpoint_id'' v"

definition StopEndpointCommandTRB :: "nat \<Rightarrow> nat \<Rightarrow> nat \<Rightarrow> nat" where
  "StopEndpointCommandTRB g endpoint_id slot_id =
     put_bf StopEndpointCommandTRB_bits ''slot_id'' slot_id (put_bf StopEndpointCommandTRB_bits ''endpoint_id'' endpoint_id (put_bf StopEndpointCommandTRB_bits ''trb_type'' 15 g))"

definition NoOpCommandTRB :: "nat \<Rightarrow> nat" where
  "NoOpCommandTRB g =
     put_bf NoOpCommandTRB_bits ''trb_type'' 23 g"

definition TransferEventTRB_get_pointer :: "nat \<Rightarrow> nat" where
  "TransferEventTRB_get_pointer v = get_bf TransferEventTRB_bits ''trb_pointer'' v"

definition TransferEventTRB_set_pointer :: "nat \<Rightarrow> nat \<Rightarrow> nat" where
  "TransferEventTRB_set_pointer p v = put_bf TransferEventTRB_bits ''trb_pointer'' p v"

definition TransferEventTRB_get_endpoint_id :: "nat \<Rightarrow> nat" where
  "TransferEventTRB_get_endpoint_id v = get_bf TransferEventTRB_bits ''endpoint_id'' v"

definition TransferEventTRB :: "nat \<Rightarrow> nat" where
  "TransferEventTRB g =
     put_bf TransferEventTRB_bits ''trb_type'' 32 g"

definition CommandCompletionEventTRB_get_pointer :: "nat \<Rightarrow> nat" where
  "CommandCompletionEventTRB_get_pointer v = push_bit 4 (get_bf CommandCompletionEventTRB_bits ''command_trb_pointer'' v)"

definition CommandCompletionEventTRB_setPointer :: "nat \<Rightarrow> nat \<Rightarrow> nat" where
  "CommandCompletionEventTRB_setPointer p v = put_bf CommandCompletionEventTRB_bits ''command_trb_pointer'' (drop_bit 4 p) v"

definition CommandCompletionEventTRB :: "nat \<Rightarrow> nat" where
  "CommandCompletionEventTRB g =
     put_bf CommandCompletionEventTRB_bits ''trb_type'' 33 g"

definition PortStatusChangeEventTRB :: "nat \<Rightarrow> nat" where
  "PortStatusChangeEventTRB g =
     put_bf PortStatusChangeEventTRB_bits ''trb_type'' 34 g"

definition trb_dynamic_cast :: "trb_kind \<Rightarrow> layout \<Rightarrow> nat \<Rightarrow> nat option" where
  "trb_dynamic_cast k from trb = (if trb_type k = get_bf from ''trb_type'' trb then Some trb else None)"

definition trb_completioncode_str :: "string list" where
  "trb_completioncode_str =
     [''Invalid'', ''Success'', ''Data Buffer Error'', ''Babble Detected Error'', ''USB Transaction Error'',
      ''TRB Error'', ''Stall Error'', ''Resource Error'', ''Bandwidth Error'', ''No Slots Available Error'',
      ''Invalid Stream Type Error'', ''Slot Not Enabled Error'', ''Endpoint Not Enabled Error'',
      ''Short Packet'', ''Ring Underrun'', ''Ring Overrun'', ''VF Event Ring Full Error'', ''Parameter Error'',
      ''Bandwidth Overrun Error'', ''Context State Error'', ''No ping Response Error'',
      ''Event Ring Full Error'', ''Incompatible Device Error'', ''Missed Service Error'',
      ''Command Ring Stopped'', ''Command Aborted'', ''Stopped'', ''Stopped - Length Invalid'',
      ''Stopped - Short Packet'', ''Max Exit Latency Too Large Error'', ''Reserved'', ''Isoch Buffer Overrun'',
      ''Event Lost Error'', ''Undefined Error'', ''Invalid Stream ID Error'', ''Secondary Bandwidth Error'',
      ''Split Transaction Error'']"

definition trb_type_str :: "string list" where
  "trb_type_str =
     [''Reserved'', ''Normal'', ''Setup Stage'', ''Data Stage'', ''Status Stage'', ''Isoch'', ''Link'',
      ''EventData'', ''No-Op'', ''Enable Slot Command'', ''Disable Slot Command'', ''Address Device Command'',
      ''Configure Endpoint Command'', ''Evaluate Context Command'', ''Reset Endpoint Command'',
      ''Stop Endpoint Command'', ''Set TR Dequeue Pointer Command'', ''Reset Device Command'',
      ''Force Event Command'', ''Negotiate Bandwidth Command'', ''Set Latency Tolerance Value Command'',
      ''Get Port Bandwidth Command'', ''Force Header Command'', ''No Op Command'', ''Reserved'', ''Reserved'',
      ''Reserved'', ''Reserved'', ''Reserved'', ''Reserved'', ''Reserved'', ''Reserved'', ''Transfer Event'',
      ''Command Completion Event'', ''Port Status Change Event'', ''Bandwidth Request Event'',
      ''Doorbell Event'', ''Host Controller Event'', ''Device Notification Event'', ''MFINDEX Wrap Event'',
      ''Reserved'', ''Reserved'', ''Reserved'', ''Reserved'', ''Reserved'', ''Reserved'', ''Reserved'',
      ''Reserved'', ''Vendor Defined'', ''Vendor Defined'', ''Vendor Defined'', ''Vendor Defined'',
      ''Vendor Defined'', ''Vendor Defined'', ''Vendor Defined'', ''Vendor Defined'', ''Vendor Defined'',
      ''Vendor Defined'', ''Vendor Defined'', ''Vendor Defined'', ''Vendor Defined'', ''Vendor Defined'',
      ''Vendor Defined'', ''Vendor Defined'']"

section \<open>Device contexts\<close>

definition SlotContext_bits :: layout where
  "SlotContext_bits =
     [(''route_string'', 20), (''speed'', 4), (''_0'', 1), (''mtt'', 1), (''hub'', 1), (''context_entries'', 5),
      (''max_exit_latency'', 16), (''root_hub_port_num'', 8), (''num_ports'', 8), (''tt_hub_slot_id'', 8),
      (''tt_port_num'', 8), (''ttt'', 2), (''_1'', 4), (''interrupter_target'', 10),
      (''usb_device_address'', 8), (''_2'', 19), (''slot_state'', 5)]"

definition EndpointContext_bits :: layout where
  "EndpointContext_bits =
     [(''ep_state'', 3), (''_0'', 5), (''mult'', 2), (''max_primary_streams'', 5), (''linear_stream_array'', 1),
      (''interval'', 8), (''max_esit_payload_hi'', 8), (''_1'', 1), (''error_count'', 2), (''ep_type'', 3),
      (''_2'', 1), (''host_initiate_disable'', 1), (''max_burst_size'', 8), (''max_packet_size'', 16),
      (''dequeue_cycle_state'', 1), (''_3'', 3), (''tr_dequeue_pointer'', 60), (''average_trb_length'', 16),
      (''max_esit_payload_lo'', 16)]"

definition get_transfer_ring_buffer :: "nat \<Rightarrow> nat" where
  "get_transfer_ring_buffer v = push_bit 4 (get_bf EndpointContext_bits ''tr_dequeue_pointer'' v)"

definition set_transfer_ring_buffer :: "nat \<Rightarrow> nat \<Rightarrow> nat" where
  "set_transfer_ring_buffer p v = put_bf EndpointContext_bits ''tr_dequeue_pointer'' (drop_bit 4 p) v"

text \<open>An \<^verbatim>\<open>EndpointID\<close> is its address; a \<^verbatim>\<open>DeviceContextIndex\<close> is its value.\<close>

definition EndpointID :: "nat \<Rightarrow> bool \<Rightarrow> nat" where
  "EndpointID endpoint_number dir_in = push_bit 1 endpoint_number OR of_bool dir_in"

definition get_number :: "nat \<Rightarrow> nat" where
  "get_number address = drop_bit 1 address"

definition is_in :: "nat \<Rightarrow> bool" where
  "is_in address \<longleftrightarrow> address AND 1 \<noteq> 0"

definition default_control_pipe_id :: nat where
  "default_control_pipe_id = EndpointID 0 True"

definition dci_of_endpoint :: "nat \<Rightarrow> nat" where
  "dci_of_endpoint address = address"

definition DeviceContextIndex :: "nat \<Rightarrow> bool \<Rightarrow> nat" where
  "DeviceContextIndex ep_num dir_in = 2 * ep_num + (if ep_num = 0 then 1 else of_bool dir_in)"

definition InputControlContext_layout :: layout where
  "InputControlContext_layout =
     [(''drop_context_flags'', 4), (''add_context_flags'', 4), (''reserved1'', 20), (''configuration_value'', 1),
      (''interface_number'', 1), (''alternate_setting'', 1), (''reserved2'', 1)]"

text \<open>The members of a device context in bytes: 32 for the slot context and for each of the 31 endpoint contexts.\<close>

definition DeviceContext_layout :: layout where
  "DeviceContext_layout = [(''slot_context'', 8 * 4), (''ep_contexts'', 31 * (8 * 4))]"

definition InputContext_layout :: layout where
  "InputContext_layout =
     [(''input_control_context'', struct_size InputControlContext_layout), (''slot_context'', 8 * 4),
      (''ep_contexts'', 31 * (8 * 4))]"

section \<open>Registers\<close>

definition HCSPARAMS1Bitmap_bits :: layout where
  "HCSPARAMS1Bitmap_bits =
     [(''max_device_slots'', 8), (''max_interrupters'', 11), (''_0'', 5), (''max_ports'', 8)]"

definition HCSPARAMS2Bitmap_bits :: layout where
  "HCSPARAMS2Bitmap_bits =
     [(''isochronous_scheduling_threshold'', 4), (''event_ring_segment_table_max'', 4), (''_0'', 13),
      (''max_scratchpad_buffers_high'', 5), (''scratchpad_restore'', 1), (''max_scratchpad_buffers_low'', 5)]"

definition HCSPARAMS3Bitmap_bits :: layout where
  "HCSPARAMS3Bitmap_bits =
     [(''u1_device_eixt_latency'', 8), (''_0'', 8), (''u2_device_eixt_latency'', 16)]"

definition HCCPARAMS1Bitmap_bits :: layout where
  "HCCPARAMS1Bitmap_bits =
     [(''addressing_capability_64'', 1), (''bw_negotiation_capability'', 1), (''context_size'', 1),
      (''port_power_control'', 1), (''port_indicators'', 1), (''light_hc_reset_capability'', 1),
      (''latency_tolerance_messaging_capability'', 1), (''no_secondary_sid_support'', 1),
      (''parse_all_event_data'', 1), (''stopped_short_packet_capability'', 1),
      (''stopped_edtla_capability'', 1), (''contiguous_frame_id_capability'', 1),
      (''maximum_primary_stream_array_size'', 4), (''xhci_extended_capabilities_pointer'', 16)]"

definition DBOFFBitmap_bits :: layout where
  "DBOFFBitmap_bits =
     [(''_0'', 2), (''doorbell_array_offset'', 30)]"

definition RTSOFFBitmap_bits :: layout where
  "RTSOFFBitmap_bits =
     [(''_0'', 5), (''runtime_register_space_offset'', 27)]"

definition HCCPARAMS2Bitmap_bits :: layout where
  "HCCPARAMS2Bitmap_bits =
     [(''u3_entry_capability'', 1), (''configure_endpoint_command_max_exit_latency_too_large_capability'', 1),
      (''force_save_context_capability'', 1), (''compliance_transition_capability'', 1),
      (''large_esit_payload_capability'', 1), (''configuration_information_capability'', 1), (''_0'', 26)]"

definition USBCMDBitmap_bits :: layout where
  "USBCMDBitmap_bits =
     [(''run_stop'', 1), (''host_controller_reset'', 1), (''interrupter_enable'', 1),
      (''host_system_error_enable'', 1), (''_0'', 3), (''lignt_host_controller_reset'', 1),
      (''controller_save_state'', 1), (''controller_restore_state'', 1), (''enable_wrap_event'', 1),
      (''enable_u3_mfindex_stop'', 1), (''stopped_short_packet_enable'', 1), (''cem_enable'', 1), (''_1'', 18)]"

definition USBSTSBitmap_bits :: layout where
  "USBSTSBitmap_bits =
     [(''host_controller_halted'', 1), (''_0'', 1), (''host_system_error'', 1), (''event_interrupt'', 1),
      (''port_change_detect'', 1), (''_1'', 3), (''save_state_status'', 1), (''restore_state_status'', 1),
      (''save_restore_error'', 1), (''controller_not_ready'', 1), (''host_controller_error'', 1), (''_2'', 19)]"

definition CRCRBitmap_bits :: layout where
  "CRCRBitmap_bits =
     [(''ring_cycle_state'', 1), (''command_stop'', 1), (''command_abort'', 1), (''command_ring_running'', 1),
      (''_0'', 2), (''command_ring_pointer'', 58)]"

definition DCBAAPBitmap_bits :: layout where
  "DCBAAPBitmap_bits =
     [(''_0'', 6), (''device_context_base_address_array_pointer'', 26)]"

definition CONFIGBitmap_bits :: layout where
  "CONFIGBitmap_bits =
     [(''max_device_slots_enabled'', 8), (''u3_entry_enable'', 1), (''configuration_information_enable'', 1),
      (''_0'', 22)]"

definition PORTSCBitmap_bits :: layout where
  "PORTSCBitmap_bits =
     [(''current_connect_status'', 1), (''port_enabled_disabled'', 1), (''_0'', 1),
      (''over_current_active'', 1), (''port_reset'', 1), (''port_link_state'', 4), (''port_power'', 1),
      (''port_speed'', 4), (''port_indicator_control'', 2), (''port_link_state_write_strobe'', 1),
      (''connect_status_change'', 1), (''port_enabled_disabled_change'', 1), (''warm_port_reset_change'', 1),
      (''over_current_change'', 1), (''port_reset_change'', 1), (''port_link_state_change'', 1),
      (''port_config_error_change'', 1), (''cold_attach_status'', 1), (''wake_on_connect_enable'', 1),
      (''wake_on_disconnect_enable'', 1), (''wake_on_over_current_enable'', 1), (''_1'', 2),
      (''device_removable'', 1), (''warm_port_reset'', 1)]"

definition PORTPMSCBitmap_bits :: layout where
  "PORTPMSCBitmap_bits =
     [(''u1_timeout'', 8), (''u2_timeout'', 8), (''force_link_pm_accept'', 1), (''_0'', 15)]"

definition PORTLIBitmap_bits :: layout where
  "PORTLIBitmap_bits =
     [(''link_error_count'', 16), (''rx_lane_count'', 4), (''tx_lane_count'', 4), (''_0'', 8)]"

definition PORTHLPMCBitmap_bits :: layout where
  "PORTHLPMCBitmap_bits =
     [(''host_initiated_resume_duration_mode'', 2), (''l1_timeout'', 8),
      (''best_effort_service_latency_deep'', 4), (''_0'', 18)]"

definition IMANBitmap_bits :: layout where
  "IMANBitmap_bits =
     [(''interrupt_pending'', 1), (''interrupt_enable'', 1), (''_0'', 30)]"

definition IMODBitmap_bits :: layout where
  "IMODBitmap_bits =
     [(''interrupt_moderation_interval'', 16), (''interrupt_moderation_counter'', 16)]"

definition ERSTSZBitmap_bits :: layout where
  "ERSTSZBitmap_bits =
     [(''event_ring_segment_table_size'', 16), (''_0'', 16)]"

definition ERSTBABitmap_bits :: layout where
  "ERSTBABitmap_bits =
     [(''_0'', 6), (''event_ring_segment_table_base_address'', 58)]"

definition ERDPBitmap_bits :: layout where
  "ERDPBitmap_bits =
     [(''dequeue_erst_segment_index'', 3), (''event_handler_busy'', 1), (''event_ring_dequeue_pointer'', 60)]"

definition DoorbellBitmap_bits :: layout where
  "DoorbellBitmap_bits =
     [(''db_target'', 8), (''_0'', 8), (''db_stream_id'', 16)]"

definition ExtendedRegisterBitmap_bits :: layout where
  "ExtendedRegisterBitmap_bits =
     [(''capability_id'', 8), (''next_pointer'', 8), (''value'', 16)]"

definition USBLEGSUPBitmap_bits :: layout where
  "USBLEGSUPBitmap_bits =
     [(''capability_id'', 8), (''next_pointer'', 8), (''hc_bios_owned_semaphore'', 1), (''_0'', 7),
      (''hc_os_owned_semaphore'', 1), (''_1'', 7)]"

definition DBOFF_get_offset :: "nat \<Rightarrow> nat" where
  "DBOFF_get_offset v = push_bit 2 (get_bf DBOFFBitmap_bits ''doorbell_array_offset'' v)"

definition RTSOFF_get_offset :: "nat \<Rightarrow> nat" where
  "RTSOFF_get_offset v = push_bit 5 (get_bf RTSOFFBitmap_bits ''runtime_register_space_offset'' v)"

definition CRCR_get_pointer :: "nat \<Rightarrow> nat" where
  "CRCR_get_pointer v = push_bit 6 (get_bf CRCRBitmap_bits ''command_ring_pointer'' v)"

definition CRCR_set_pointer :: "nat \<Rightarrow> nat \<Rightarrow> nat" where
  "CRCR_set_pointer p v = put_bf CRCRBitmap_bits ''command_ring_pointer'' (drop_bit 6 p) v"

text \<open>A member of 26 bits is promoted to \<^verbatim>\<open>int\<close>, so the shift may set the sign bit, which is extended to 64 bits.\<close>

definition DCBAAP_get_pointer :: "nat \<Rightarrow> nat" where
  "DCBAAP_get_pointer v = (let x = push_bit 6 (get_bf DCBAAPBitmap_bits ''device_context_base_address_array_pointer'' v) in if bit x 31 then x + (2 ^ 64 - 2 ^ 32) else x)"

definition DCBAAP_set_pointer :: "nat \<Rightarrow> nat \<Rightarrow> nat" where
  "DCBAAP_set_pointer p v = put_bf DCBAAPBitmap_bits ''device_context_base_address_array_pointer'' (drop_bit 6 p) v"

definition ERSTSZ_get_size :: "nat \<Rightarrow> nat" where
  "ERSTSZ_get_size v = get_bf ERSTSZBitmap_bits ''event_ring_segment_table_size'' v"

definition ERSTSZ_set_size :: "nat \<Rightarrow> nat \<Rightarrow> nat" where
  "ERSTSZ_set_size p v = put_bf ERSTSZBitmap_bits ''event_ring_segment_table_size'' p v"

definition ERSTBA_get_pointer :: "nat \<Rightarrow> nat" where
  "ERSTBA_get_pointer v = push_bit 6 (get_bf ERSTBABitmap_bits ''event_ring_segment_table_base_address'' v)"

definition ERSTBA_set_pointer :: "nat \<Rightarrow> nat \<Rightarrow> nat" where
  "ERSTBA_set_pointer p v = put_bf ERSTBABitmap_bits ''event_ring_segment_table_base_address'' (drop_bit 6 p) v"

definition ERDP_get_pointer :: "nat \<Rightarrow> nat" where
  "ERDP_get_pointer v = push_bit 4 (get_bf ERDPBitmap_bits ''event_ring_dequeue_pointer'' v)"

definition ERDP_set_pointer :: "nat \<Rightarrow> nat \<Rightarrow> nat" where
  "ERDP_set_pointer p v = put_bf ERDPBitmap_bits ''event_ring_dequeue_pointer'' (drop_bit 4 p) v"

text \<open>The register blocks in bytes.\<close>

definition CapabilityRegisters_layout :: layout where
  "CapabilityRegisters_layout =
     [(''caplength'', 1), (''reserved1'', 1), (''hciversion'', 2), (''hcsparams1'', 4), (''hcsparams2'', 4),
      (''hcsparams3'', 4), (''hccparams1'', 4), (''dboff'', 4), (''rtsoff'', 4), (''hccparams2'', 4)]"

definition OperationalRegisters_layout :: layout where
  "OperationalRegisters_layout =
     [(''usbcmd'', 4), (''usbsts'', 4), (''pagesize'', 4), (''reserved1'', 8), (''dnctrl'', 4), (''crcr'', 8),
      (''reserved2'', 16), (''dcbaap'', 8), (''config'', 4)]"

definition PortRegisterSet_layout :: layout where
  "PortRegisterSet_layout =
     [(''portsc'', 4), (''portpmsc'', 4), (''portli'', 4), (''porthlpmc'', 4)]"

definition InterrupterRegisterSet_layout :: layout where
  "InterrupterRegisterSet_layout =
     [(''iman'', 4), (''imod'', 4), (''erstsz'', 4), (''reserved'', 4), (''erstba'', 8), (''erdp'', 8)]"

definition DoorbellRegister_ring :: "nat \<Rightarrow> nat \<Rightarrow> nat" where
  "DoorbellRegister_ring target stream_id =
     put_bf DoorbellBitmap_bits ''db_stream_id'' stream_id (put_bf DoorbellBitmap_bits ''db_target'' target 0)"

definition EventRingSegmentTableEntry_bits :: layout where
  "EventRingSegmentTableEntry_bits =
     [(''ring_segment_base_address'', 64), (''ring_segment_size'', 16), (''_0'', 16), (''_1'', 32)]"

lemmas trb_layouts =
  TRB_bits_def NormalTRB_bits_def SetupStageTRB_bits_def DataStageTRB_bits_def StatusStageTRB_bits_def LinkTRB_bits_def NoOpTRB_bits_def EnableSlotCommandTRB_bits_def AddressDeviceCommandTRB_bits_def ConfigureEndpointCommandTRB_bits_def StopEndpointCommandTRB_bits_def NoOpCommandTRB_bits_def TransferEventTRB_bits_def CommandCompletionEventTRB_bits_def PortStatusChangeEventTRB_bits_def

section \<open>Types of blocks\<close>

lemma trb_locate [simp]:
  "locate (trb_bits k) ''cycle_bit'' = Some (96, 1)" "locate (trb_bits k) ''trb_type'' = Some (106, 6)"
  "locate TRB_bits ''cycle_bit'' = Some (96, 1)" "locate TRB_bits ''trb_type'' = Some (106, 6)"
  by (cases k; simp add: trb_layouts)+

lemma trb_type_cong:
  "locate l ''trb_type'' = Some (106, 6) \<Longrightarrow> get_bf l ''trb_type'' v = get_bf TRB_bits ''trb_type'' v"
  by (simp add: get_bf_def)

text \<open>The blocks a constructor makes.\<close>

inductive constructed :: "trb_kind \<Rightarrow> nat \<Rightarrow> bool" where
  c_Normal: "constructed K_Normal (NormalTRB g)"
| c_SetupStage: "constructed K_SetupStage (SetupStageTRB g)"
| c_DataStage: "constructed K_DataStage (DataStageTRB g)"
| c_StatusStage: "constructed K_StatusStage (StatusStageTRB g)"
| c_Link: "constructed K_Link (LinkTRB g p)"
| c_NoOp: "constructed K_NoOp (NoOpTRB g)"
| c_EnableSlotCommand: "constructed K_EnableSlotCommand (EnableSlotCommandTRB g)"
| c_AddressDeviceCommand: "constructed K_AddressDeviceCommand (AddressDeviceCommandTRB g p s)"
| c_ConfigureEndpointCommand: "constructed K_ConfigureEndpointCommand (ConfigureEndpointCommandTRB g p s)"
| c_StopEndpointCommand: "constructed K_StopEndpointCommand (StopEndpointCommandTRB g e s)"
| c_NoOpCommand: "constructed K_NoOpCommand (NoOpCommandTRB g)"
| c_TransferEvent: "constructed K_TransferEvent (TransferEventTRB g)"
| c_CommandCompletionEvent: "constructed K_CommandCompletionEvent (CommandCompletionEventTRB g)"
| c_PortStatusChangeEvent: "constructed K_PortStatusChangeEvent (PortStatusChangeEventTRB g)"

lemmas constructor_defs =
  NormalTRB_def SetupStageTRB_def DataStageTRB_def StatusStageTRB_def LinkTRB_def NoOpTRB_def
  EnableSlotCommandTRB_def AddressDeviceCommandTRB_def ConfigureEndpointCommandTRB_def StopEndpointCommandTRB_def
  NoOpCommandTRB_def TransferEventTRB_def CommandCompletionEventTRB_def PortStatusChangeEventTRB_def
  LinkTRB_set_pointer_def AddressDeviceCommandTRB_set_pointer_def ConfigureEndpointCommandTRB_set_pointer_def

lemma constructed_type: "constructed k v \<Longrightarrow> get_bf (trb_bits k) ''trb_type'' v = trb_type k"
  by (induction rule: constructed.induct)
    (simp_all add: constructor_defs get_put_bf_other get_put_bf_same [where off = 106 and w = 6] trb_layouts)

lemma trb_type_inj: "trb_type k = trb_type k' \<longleftrightarrow> k = k'"
  by (cases k; cases k') simp_all

text \<open>
  C25. The formats of the blocks agree: in every kind the cycle bit and the type are the same bits as in the
  generic block, no format exceeds 128 bits, the type of a kind is an index of the table of names and names no
  reserved type. A block made by the constructor of a kind, read as a generic block, is therefore cast
  successfully to that kind and to no other.
\<close>

theorem trb_formats_agree:
  "locate (trb_bits k) ''cycle_bit'' = locate TRB_bits ''cycle_bit'' \<and>
   locate (trb_bits k) ''trb_type'' = locate TRB_bits ''trb_type'' \<and>
   struct_size (trb_bits k) \<le> struct_size TRB_bits \<and>
   trb_type k < length trb_type_str \<and> trb_type_str ! trb_type k \<noteq> ''Reserved'' \<and>
   (constructed k v \<longrightarrow> trb_dynamic_cast k' TRB_bits v = (if k' = k then Some v else None))"
proof -
  have "constructed k v \<Longrightarrow> get_bf TRB_bits ''trb_type'' v = trb_type k"
    using constructed_type [of k v] trb_type_cong [of "trb_bits k" v] by simp
  moreover have "struct_size (trb_bits k) \<le> struct_size TRB_bits"
    by (cases k) (simp_all add: trb_layouts struct_size_def)
  moreover have "trb_type k < length trb_type_str" "trb_type_str ! trb_type k \<noteq> ''Reserved''"
    by (cases k; simp add: trb_type_str_def)+
  ultimately show ?thesis
    by (simp add: trb_dynamic_cast_def trb_type_inj)
qed

lemma trb_formats_agree_witness:
  "trb_dynamic_cast K_Link TRB_bits (LinkTRB 0 0x1000) = Some (LinkTRB 0 0x1000) \<and>
   trb_dynamic_cast K_Normal TRB_bits (LinkTRB 0 0x1000) = None"
  using trb_formats_agree [of K_Link "LinkTRB 0 0x1000" K_Link] trb_formats_agree [of K_Link "LinkTRB 0 0x1000" K_Normal]
    constructed.c_Link [of 0 "0x1000"]
  by simp

section \<open>Pointers in blocks and registers\<close>

lemma shifted_pointer:
  assumes "locate l f = Some (off, 64 - s)" "2 ^ s dvd p" "p < 2 ^ 64" "s \<le> 64"
  shows "push_bit s (get_bf l f (put_bf l f (drop_bit s p) v)) = p"
proof -
  obtain q where "p = 2 ^ s * q" using assms(2) by (rule dvdE)
  then have p: "p = push_bit s q" by (simp add: push_bit_eq_mult mult.commute)
  have "drop_bit s p = q" by (simp add: p push_bit_eq_mult drop_bit_eq_div)
  moreover have "q < 2 ^ (64 - s)"
    using assms(3,4) p
    by (metis push_bit_eq_mult mult.commute power_add le_add_diff_inverse nat_mult_less_cancel1 zero_less_power zero_less_numeral)
  ultimately show ?thesis
    by (simp add: get_put_bf_same [OF assms(1)] take_bit_nat_eq_self p)
qed

text \<open>
  A pointer stored in a block or a register is read back unchanged when it has the alignment the member
  needs: 16 bytes in link, command and completion blocks, in endpoint contexts and in the event ring dequeue
  pointer, 64 bytes in the command ring and segment table registers.
\<close>

theorem pointers_roundtrip:
  assumes "p < 2 ^ 64" "64 dvd p" "q < 2 ^ 64" "16 dvd q"
  shows "LinkTRB_get_pointer (LinkTRB_set_pointer q v) = q \<and>
    AddressDeviceCommandTRB_get_pointer (AddressDeviceCommandTRB g q s) = q \<and>
    ConfigureEndpointCommandTRB_get_pointer (ConfigureEndpointCommandTRB g q s) = q \<and>
    CommandCompletionEventTRB_get_pointer (CommandCompletionEventTRB_setPointer q v) = q \<and>
    get_transfer_ring_buffer (set_transfer_ring_buffer q v) = q \<and>
    ERDP_get_pointer (ERDP_set_pointer q v) = q \<and>
    CRCR_get_pointer (CRCR_set_pointer p v) = p \<and>
    ERSTBA_get_pointer (ERSTBA_set_pointer p v) = p"
  using assms shifted_pointer [where p = p and s = 6] shifted_pointer [where p = q and s = 4]
  by (simp add: LinkTRB_get_pointer_def LinkTRB_set_pointer_def AddressDeviceCommandTRB_get_pointer_def
      AddressDeviceCommandTRB_def AddressDeviceCommandTRB_set_pointer_def ConfigureEndpointCommandTRB_get_pointer_def
      ConfigureEndpointCommandTRB_def ConfigureEndpointCommandTRB_set_pointer_def
      CommandCompletionEventTRB_get_pointer_def CommandCompletionEventTRB_setPointer_def
      get_transfer_ring_buffer_def set_transfer_ring_buffer_def ERDP_get_pointer_def ERDP_set_pointer_def
      CRCR_get_pointer_def CRCR_set_pointer_def ERSTBA_get_pointer_def ERSTBA_set_pointer_def
      trb_layouts EndpointContext_bits_def ERDPBitmap_bits_def CRCRBitmap_bits_def ERSTBABitmap_bits_def)

lemma pointers_roundtrip_witness:
  "LinkTRB_get_pointer (LinkTRB_set_pointer 0xFFFF800000001230 0) = 0xFFFF800000001230 \<and>
   CRCR_get_pointer (CRCR_set_pointer 0x100001240 0xB) = 0x100001240"
  using pointers_roundtrip [of "0x100001240" "0xFFFF800000001230" 0 0 0]
    pointers_roundtrip [of "0x100001240" "0xFFFF800000001230" "0xB" 0 0]
  by simp

text \<open>
  The register for the base of the device context array is declared with 26 bits of pointer above 6
  reserved bits: whatever 64-byte aligned address the driver stores, the controller receives the address
  modulo 4 GiB. An array allocated above 4 GiB is therefore announced at a wrong address.
\<close>

theorem dcbaap_keeps_low_word:
  assumes "64 dvd p"
  shows "DCBAAP_set_pointer p 0 = p mod 2 ^ 32"
proof (rule bit_eqI)
  fix n
  obtain q where "p = 64 * q" using assms by (rule dvdE)
  then have p: "p = push_bit 6 q" by (simp add: push_bit_eq_mult mult.commute)
  have l: "locate DCBAAPBitmap_bits ''device_context_base_address_array_pointer'' = Some (6, 26)"
    by (simp add: DCBAAPBitmap_bits_def)
  show "bit (DCBAAP_set_pointer p 0) n \<longleftrightarrow> bit (p mod 2 ^ 32) n"
    unfolding DCBAAP_set_pointer_def take_bit_eq_mod [symmetric] bit_put_bf [OF l]
    by (auto simp: p bit_simps)
qed

lemma dcbaap_keeps_low_word_witness: "DCBAAP_set_pointer 0x180001000 0 = 0x80001000"
  using dcbaap_keeps_low_word [of "0x180001000"] by simp

end
