(* ===== verification/Xhci_Ring.thy ===== *)
theory Xhci_Ring
  imports Xhci_Layout
begin

text \<open>
  The rings of \<^verbatim>\<open>src/usb/xhci/ring.hpp\<close>: \<^verbatim>\<open>Ring\<close>, on which the driver queues commands and transfers for the
  controller, and \<^verbatim>\<open>EventRing\<close>, on which the controller queues events for the driver. The buffer of a ring is
  a list of 128-bit blocks at an address; an access outside the buffer is \<open>None\<close>.

  The controller is the other end of each ring. Its behaviour is that of the xHCI specification: it follows
  the cycle bit, and on a link block it continues at the target and toggles its cycle state if the block says
  so. The theorems show that each ring is a queue: what one end puts in, the other takes out, in order.
\<close>

section \<open>Producer: Ring\<close>

definition data_words :: layout where
  "data_words = [(''data0'', 32), (''data1'', 32), (''data2'', 32), (''data3'', 32)]"

record ring =
  r_buffer :: "nat list"
  r_addr :: nat
  buffer_count :: nat
  write_index :: nat
  cycle_bit :: bool

definition copy_block :: "bool \<Rightarrow> nat \<Rightarrow> nat \<Rightarrow> nat" where
  "copy_block c data slot =
     put_bf data_words ''data3'' ((get_bf data_words ''data3'' data AND 0xFFFFFFFE) OR of_bool c)
       (fold (\<lambda>i v. put_bf data_words i (get_bf data_words i data) v) [''data0'', ''data1'', ''data2''] slot)"

definition copy_to_last :: "ring \<Rightarrow> nat \<Rightarrow> ring option" where
  "copy_to_last r data =
     (if write_index r < length (r_buffer r)
      then Some (r\<lparr>r_buffer := (r_buffer r)[write_index r := copy_block (cycle_bit r) data (r_buffer r ! write_index r)]\<rparr>)
      else None)"

text \<open>
  \<^verbatim>\<open>push\<close> returns the address of the block. \<open>g\<close> is the previous contents of the storage of the local link
  block. The subtraction of 1 from the \<^verbatim>\<open>size_t\<close> count wraps around when the count is 0.
\<close>

definition ring_push :: "ring \<Rightarrow> nat \<Rightarrow> nat \<Rightarrow> (ring \<times> nat) option" where
  "ring_push r g data =
     do {
       let trb_pointer = r_addr r + 16 * write_index r;
       r \<leftarrow> copy_to_last r data;
       let r = r\<lparr>write_index := write_index r + 1\<rparr>;
       if write_index r = (buffer_count r + 2 ^ 64 - 1) mod 2 ^ 64
       then do {
         let link = put_bf LinkTRB_bits ''toggle_cycle'' 1 (LinkTRB g (r_addr r));
         r \<leftarrow> copy_to_last r link;
         Some (r\<lparr>write_index := 0, cycle_bit := \<not> cycle_bit r\<rparr>, trb_pointer)
       }
       else Some (r, trb_pointer)
     }"

text \<open>The allocation is a parameter: the address it returns, or nothing.\<close>

definition ring_initialize :: "nat \<Rightarrow> nat option \<Rightarrow> ring result" where
  "ring_initialize count allocation =
     (case allocation of
        None \<Rightarrow> Inl NoEnoughMemory
      | Some a \<Rightarrow>
          Inr \<lparr>r_buffer = replicate count 0, r_addr = a, buffer_count = count, write_index = 0, cycle_bit = True\<rparr>)"

section \<open>Consumer: EventRing\<close>

text \<open>
  The registers are those of the interrupter; \<open>e_buffer\<close> at \<open>e_addr\<close> is the buffer that the segment table
  entry describes and the controller fills.
\<close>

record event_ring =
  e_buffer :: "nat list"
  e_addr :: nat
  e_count :: nat
  e_entry :: nat
  erstsz :: nat
  erstba :: nat
  erdp :: nat
  e_cycle :: bool

definition read_dequeue_pointer :: "event_ring \<Rightarrow> nat" where
  "read_dequeue_pointer e = ERDP_get_pointer (erdp e)"

definition write_dequeue_pointer :: "nat \<Rightarrow> event_ring \<Rightarrow> event_ring" where
  "write_dequeue_pointer p e = e\<lparr>erdp := ERDP_set_pointer p (erdp e)\<rparr>"

text \<open>\<open>sz\<close>, \<open>ba\<close> and \<open>dp\<close> are what the three registers hold before.\<close>

definition event_ring_initialize ::
  "nat \<Rightarrow> nat option \<Rightarrow> nat option \<Rightarrow> nat \<Rightarrow> nat \<Rightarrow> nat \<Rightarrow> event_ring result" where
  "event_ring_initialize count buffer_allocation entry_allocation sz ba dp =
     (case buffer_allocation of
        None \<Rightarrow> Inl NoEnoughMemory
      | Some a \<Rightarrow>
          (case entry_allocation of
             None \<Rightarrow> Inl NoEnoughMemory
           | Some t \<Rightarrow>
               let e = \<lparr>e_buffer = replicate count 0, e_addr = a, e_count = count,
                        e_entry = put_bf EventRingSegmentTableEntry_bits ''ring_segment_size'' count
                          (put_bf EventRingSegmentTableEntry_bits ''ring_segment_base_address'' a 0),
                        erstsz = ERSTSZ_set_size 1 sz, erstba = ba, erdp = dp, e_cycle = True\<rparr>;
                   e = write_dequeue_pointer a e
               in Inr (e\<lparr>erstba := ERSTBA_set_pointer t (erstba e)\<rparr>)))"

text \<open>The block at an address of the buffer.\<close>

definition block_at :: "event_ring \<Rightarrow> nat \<Rightarrow> nat option" where
  "block_at e p =
     (if e_addr e \<le> p \<and> 16 dvd (p - e_addr e) \<and> (p - e_addr e) div 16 < length (e_buffer e)
      then Some (e_buffer e ! ((p - e_addr e) div 16)) else None)"

definition get_front :: "event_ring \<Rightarrow> nat option" where
  "get_front e = block_at e (read_dequeue_pointer e)"

definition has_front :: "event_ring \<Rightarrow> bool option" where
  "has_front e = map_option (\<lambda>t. get_bf TRB_bits ''cycle_bit'' t = of_bool (e_cycle e)) (get_front e)"

definition event_ring_pop :: "event_ring \<Rightarrow> event_ring" where
  "event_ring_pop e =
     (let segment_begin = get_bf EventRingSegmentTableEntry_bits ''ring_segment_base_address'' (e_entry e);
          segment_end = segment_begin + 16 * get_bf EventRingSegmentTableEntry_bits ''ring_segment_size'' (e_entry e);
          p = read_dequeue_pointer e + 16
      in if p = segment_end
         then write_dequeue_pointer segment_begin (e\<lparr>e_cycle := \<not> e_cycle e\<rparr>)
         else write_dequeue_pointer p e)"

section \<open>The controller\<close>

definition block_cycle :: "nat \<Rightarrow> bool" where
  "block_cycle t \<longleftrightarrow> get_bf TRB_bits ''cycle_bit'' t = 1"

text \<open>Fetching from a \<^verbatim>\<open>Ring\<close>: the position and the cycle state of the controller.\<close>

definition fetch :: "ring \<Rightarrow> nat \<times> bool \<Rightarrow> (nat \<times> nat \<times> bool) option" where
  "fetch r h =
     (let (i, c) = h; t = r_buffer r ! i in
      if block_cycle t \<noteq> c then None
      else if get_bf TRB_bits ''trb_type'' t = trb_type K_Link
      then
        let i = (LinkTRB_get_pointer t - r_addr r) div 16;
            c = (c \<noteq> (get_bf LinkTRB_bits ''toggle_cycle'' t = 1));
            t = r_buffer r ! i
        in if block_cycle t \<noteq> c then None else Some (t, i + 1, c)
      else Some (t, i + 1, c))"

text \<open>Posting an event: the position and the producer cycle state of the controller.\<close>

definition post :: "event_ring \<times> nat \<times> bool \<Rightarrow> nat \<Rightarrow> event_ring \<times> nat \<times> bool" where
  "post s t =
     (let (e, j, c) = s;
          e = e\<lparr>e_buffer := (e_buffer e)[j := put_bf TRB_bits ''cycle_bit'' (of_bool c) t]\<rparr>
      in if j + 1 = e_count e then (e, 0, \<not> c) else (e, j + 1, c))"

text \<open>The driver takes the front event, if there is one, and pops it.\<close>

definition take_event :: "event_ring \<times> nat \<times> bool \<Rightarrow> (nat \<times> event_ring \<times> nat \<times> bool) option" where
  "take_event s =
     (let (e, h) = s in
      if has_front e = Some True then map_option (\<lambda>t. (t, event_ring_pop e, h)) (get_front e) else None)"

section \<open>Queues\<close>

datatype ring_op = Put nat nat | Take

text \<open>The outputs of a sequence of operations on a ring, and on a plain queue.\<close>

fun ring_run ::
  "('s \<Rightarrow> nat \<Rightarrow> nat \<Rightarrow> 's option) \<Rightarrow> ('s \<Rightarrow> (nat \<times> 's) option) \<Rightarrow> ring_op list \<Rightarrow> 's \<Rightarrow> nat option list option" where
  "ring_run produce consume [] s = Some []"
| "ring_run produce consume (Put g t # ops) s = do { s \<leftarrow> produce s g t; ring_run produce consume ops s }"
| "ring_run produce consume (Take # ops) s =
     (case consume s of
        None \<Rightarrow> map_option (Cons None) (ring_run produce consume ops s)
      | Some (t, s') \<Rightarrow> map_option (Cons (Some t)) (ring_run produce consume ops s'))"

fun queue_run :: "ring_op list \<Rightarrow> nat list \<Rightarrow> nat option list" where
  "queue_run [] q = []"
| "queue_run (Put g t # ops) q = queue_run ops (q @ [t])"
| "queue_run (Take # ops) [] = None # queue_run ops []"
| "queue_run (Take # ops) (t # q) = Some t # queue_run ops q"

text \<open>A block without its cycle bit, and the blocks a driver may queue: 128 bits, not a link.\<close>

definition strip :: "nat \<Rightarrow> nat" where
  "strip t = put_bf TRB_bits ''cycle_bit'' 0 t"

definition valid_block :: "nat \<Rightarrow> bool" where
  "valid_block t \<longleftrightarrow> t < 2 ^ 128 \<and> get_bf TRB_bits ''trb_type'' t \<noteq> trb_type K_Link"

text \<open>The queue never holds more than \<open>n\<close> blocks and every block is valid.\<close>

fun ring_fits :: "nat \<Rightarrow> ring_op list \<Rightarrow> nat list \<Rightarrow> bool" where
  "ring_fits n [] q \<longleftrightarrow> True"
| "ring_fits n (Put g t # ops) q \<longleftrightarrow> length q < n \<and> g < 2 ^ 128 \<and> valid_block t \<and> ring_fits n ops (q @ [t])"
| "ring_fits n (Take # ops) q \<longleftrightarrow> ring_fits n ops (tl q)"

locale cycle_fifo =
  fixes produce :: "'s \<Rightarrow> nat \<Rightarrow> nat \<Rightarrow> 's option"
    and consume :: "'s \<Rightarrow> (nat \<times> 's) option"
    and holds :: "nat \<Rightarrow> 's \<Rightarrow> nat list \<Rightarrow> bool"
  assumes produce_holds:
      "holds n s q \<Longrightarrow> length q < n \<Longrightarrow> g < 2 ^ 128 \<Longrightarrow> valid_block t \<Longrightarrow> \<exists>s'. produce s g t = Some s' \<and> holds n s' (q @ [t])"
    and consume_empty: "holds n s [] \<Longrightarrow> consume s = None"
    and consume_front: "holds n s (t # q) \<Longrightarrow> \<exists>u s'. consume s = Some (u, s') \<and> strip u = strip t \<and> holds n s' q"
begin

lemma run_refines_queue:
  assumes "holds n s q" "ring_fits n ops q"
  shows "\<exists>outs. ring_run produce consume ops s = Some outs \<and>
           map (map_option strip) outs = map (map_option strip) (queue_run ops q)"
  using assms
proof (induction ops q arbitrary: s rule: queue_run.induct)
  case (2 g t ops q)
  then obtain s' where "produce s g t = Some s'" "holds n s' (q @ [t])"
    using produce_holds [of n s q g t] by auto
  with 2 show ?case by simp
next
  case (3 ops)
  then show ?case using consume_empty [of n s] by fastforce
next
  case (4 ops t q)
  then obtain u s' where "consume s = Some (u, s')" "strip u = strip t" "holds n s' q"
    using consume_front by blast
  with 4 show ?case by fastforce
qed simp

end

section \<open>Slots of a ring\<close>

definition stamp :: "bool \<Rightarrow> nat \<Rightarrow> nat" where
  "stamp c t = put_bf TRB_bits ''cycle_bit'' (of_bool c) t"

lemma block_cycle_stamp [simp]: "block_cycle (stamp c t) = c"
  by (simp add: block_cycle_def stamp_def get_put_bf_same [where off = 96 and w = 1])

lemma block_cycle_0 [simp]: "\<not> block_cycle 0"
  by (simp add: block_cycle_def)

lemma strip_stamp [simp]: "strip (stamp c t) = strip t"
  unfolding strip_def stamp_def
  by (rule bit_eqI) (simp add: bit_put_bf [where off = 96 and w = 1])

lemma stamp_type [simp]: "get_bf TRB_bits ''trb_type'' (stamp c t) = get_bf TRB_bits ''trb_type'' t"
  by (simp add: stamp_def get_put_bf_other)

text \<open>
  \<open>slots N buf hist\<close>: after the blocks \<open>hist\<close> were put one after the other in the first \<open>N\<close> slots, the last
  \<open>N\<close> of them are in place, each with the cycle bit of its lap, and an untouched slot is zero.
\<close>

definition slots :: "nat \<Rightarrow> nat list \<Rightarrow> nat list \<Rightarrow> bool" where
  "slots N buf hist \<longleftrightarrow>
     (\<forall>q < length hist. length hist \<le> q + N \<longrightarrow> buf ! (q mod N) = stamp (even (q div N)) (hist ! q)) \<and>
     (\<forall>i < N. length hist \<le> i \<longrightarrow> buf ! i = 0)"

lemma mod_window:
  assumes "(p :: nat) mod N = q mod N" "q < p" "p \<le> q + N"
  shows "p = q + N"
proof -
  obtain k where k: "p = q + N * k"
    using assms(1,2) by (metis less_imp_le_nat mod_eq_nat1E)
  then have "0 < k" "N * k \<le> N" using assms by auto
  then show ?thesis using k by (cases "N = 0") auto
qed

lemma slots_put:
  assumes "slots N buf hist" "N \<le> length buf" "0 < N"
  shows "slots N (buf[length hist mod N := stamp (even (length hist div N)) t]) (hist @ [t])"
proof -
  have lt: "length hist mod N < length buf"
    using assms(2,3) by (meson mod_less_divisor less_le_trans)
  show ?thesis
    unfolding slots_def
  proof (intro conjI allI impI)
    fix q
    assume q: "q < length (hist @ [t])" "length (hist @ [t]) \<le> q + N"
    show "buf[length hist mod N := stamp (even (length hist div N)) t] ! (q mod N) = stamp (even (q div N)) ((hist @ [t]) ! q)"
    proof (cases "q = length hist")
      case True
      then show ?thesis using lt by simp
    next
      case False
      then have "q < length hist" "length hist mod N \<noteq> q mod N"
        using q mod_window [of "length hist" N q] by auto
      then show ?thesis
        using assms(1) q by (simp add: slots_def nth_append)
    qed
  next
    fix i
    assume "i < N" "length (hist @ [t]) \<le> i"
    then show "buf[length hist mod N := stamp (even (length hist div N)) t] ! i = 0"
      using assms(1) by (simp add: slots_def)
  qed
qed

lemma slots_front:
  assumes "slots N buf hist" "C < length hist" "length hist \<le> C + N"
  shows "buf ! (C mod N) = stamp (even (C div N)) (hist ! C)"
  using assms by (simp add: slots_def)

lemma slots_end:
  assumes "slots N buf hist" "0 < N"
  shows "block_cycle (buf ! (length hist mod N)) \<noteq> even (length hist div N)"
proof (cases "length hist < N")
  case True
  then show ?thesis using assms by (simp add: slots_def)
next
  case False
  define q where "q = length hist - N"
  have q: "length hist = q + N" "q < length hist" using False assms(2) by (auto simp: q_def)
  then have "buf ! (q mod N) = stamp (even (q div N)) (hist ! q)"
    using assms(1) by (simp add: slots_def)
  then show ?thesis using assms(2) by (simp add: q(1) div_add_self2)
qed

section \<open>A ring is a queue\<close>

lemma data_words_locate [simp]:
  "locate data_words ''data0'' = Some (0, 32)" "locate data_words ''data1'' = Some (32, 32)"
  "locate data_words ''data2'' = Some (64, 32)" "locate data_words ''data3'' = Some (96, 32)"
  by (simp_all add: data_words_def)

lemma high_bits: "(v :: nat) < 2 ^ n \<Longrightarrow> n \<le> i \<Longrightarrow> \<not> bit v i"
  by (metis bit_take_bit_iff leD take_bit_nat_eq_self)

lemma bit_even_mask: "bit (0xFFFFFFFE :: nat) j \<longleftrightarrow> 0 < j \<and> j < 32"
proof -
  have "(0xFFFFFFFE :: nat) = push_bit 1 (mask 31)"
    by (simp add: mask_eq_exp_minus_1)
  then show ?thesis by (auto simp only: bit_push_bit_iff bit_mask_iff) auto
qed

lemma copy_block_eq:
  assumes "data < 2 ^ 128" "slot < 2 ^ 128"
  shows "copy_block c data slot = stamp c data"
proof (rule bit_eqI)
  fix i
  have "128 \<le> i \<Longrightarrow> \<not> bit data i \<and> \<not> bit slot i"
    using high_bits assms by blast
  then show "bit (copy_block c data slot) i \<longleftrightarrow> bit (stamp c data) i"
    by (auto simp: copy_block_def stamp_def bit_put_bf [OF data_words_locate(1)] bit_put_bf [OF data_words_locate(2)]
        bit_put_bf [OF data_words_locate(3)] bit_put_bf [OF data_words_locate(4)] bit_put_bf [OF trb_locate(3)]
        bit_get_bf [OF data_words_locate(1)] bit_get_bf [OF data_words_locate(2)] bit_get_bf [OF data_words_locate(3)]
        bit_get_bf [OF data_words_locate(4)] bit_or_iff bit_and_iff bit_even_mask bit_simps)
qed

lemma stamp_lt: "t < 2 ^ 128 \<Longrightarrow> stamp c t < 2 ^ 128"
  using put_bf_lt [of t TRB_bits] by (simp add: stamp_def TRB_bits_def struct_size_def)

definition link_block :: "nat \<Rightarrow> nat \<Rightarrow> nat" where
  "link_block g a = put_bf LinkTRB_bits ''toggle_cycle'' 1 (LinkTRB g a)"

lemma link_locate [simp]:
  "locate LinkTRB_bits ''ring_segment_pointer'' = Some (4, 60)" "locate LinkTRB_bits ''toggle_cycle'' = Some (97, 1)"
  "locate LinkTRB_bits ''trb_type'' = Some (106, 6)" "locate LinkTRB_bits ''cycle_bit'' = Some (96, 1)"
  by (simp_all add: LinkTRB_bits_def)

lemma stamp_as_link: "stamp c t = put_bf LinkTRB_bits ''cycle_bit'' (of_bool c) t"
  by (simp add: stamp_def put_bf_def)

lemma link_block_fields:
  assumes "16 dvd a" "a < 2 ^ 64"
  shows "get_bf TRB_bits ''trb_type'' (stamp c (link_block g a)) = 6"
    and "get_bf LinkTRB_bits ''toggle_cycle'' (stamp c (link_block g a)) = 1"
    and "LinkTRB_get_pointer (stamp c (link_block g a)) = a"
proof -
  have "get_bf TRB_bits ''trb_type'' (link_block g a) = 6"
    using trb_type_cong [of LinkTRB_bits "link_block g a"]
    by (simp add: link_block_def LinkTRB_def LinkTRB_set_pointer_def get_put_bf_other get_put_bf_same [where off = 106 and w = 6])
  then show "get_bf TRB_bits ''trb_type'' (stamp c (link_block g a)) = 6"
    by simp
  show "get_bf LinkTRB_bits ''toggle_cycle'' (stamp c (link_block g a)) = 1"
    by (simp add: stamp_as_link get_put_bf_other link_block_def get_put_bf_same [where off = 97 and w = 1])
  show "LinkTRB_get_pointer (stamp c (link_block g a)) = a"
    using shifted_pointer [of LinkTRB_bits "''ring_segment_pointer''" 4 4 a] assms
    by (simp add: stamp_as_link LinkTRB_get_pointer_def get_put_bf_other link_block_def LinkTRB_def LinkTRB_set_pointer_def)
qed

lemma link_block_lt:
  assumes "g < 2 ^ 128"
  shows "link_block g a < 2 ^ 128"
proof -
  have "struct_size LinkTRB_bits = 128" by (simp add: LinkTRB_bits_def struct_size_def)
  then show ?thesis
    using put_bf_lt [of _ LinkTRB_bits] assms by (simp add: link_block_def LinkTRB_def LinkTRB_set_pointer_def)
qed

text \<open>
  The state of a ring whose producer has put the blocks \<open>hist\<close>, in a buffer of \<open>N\<close> slots and the link block.
\<close>

definition ring_inv :: "nat \<Rightarrow> ring \<Rightarrow> nat list \<Rightarrow> bool" where
  "ring_inv N r hist \<longleftrightarrow>
     0 < N \<and> N < 2 ^ 63 \<and> buffer_count r = N + 1 \<and> length (r_buffer r) = N + 1 \<and>
     16 dvd r_addr r \<and> r_addr r < 2 ^ 64 \<and>
     write_index r = length hist mod N \<and> cycle_bit r = even (length hist div N) \<and>
     list_all (\<lambda>t. t < 2 ^ 128) (r_buffer r) \<and> list_all valid_block hist \<and> slots N (r_buffer r) hist \<and>
     (N \<le> length hist \<longrightarrow> (\<exists>g. r_buffer r ! N = stamp (odd (length hist div N)) (link_block g (r_addr r))))"

definition consumer_at :: "nat \<Rightarrow> nat \<Rightarrow> nat \<times> bool \<Rightarrow> bool" where
  "consumer_at N C h \<longleftrightarrow>
     h = (C mod N, even (C div N)) \<or> h = (N, odd (C div N)) \<and> C mod N = 0 \<and> 0 < C"

lemma slots_beyond: "slots N (buf[N := t]) hist \<longleftrightarrow> slots N buf hist" if "0 < N"
proof -
  have "N \<noteq> q mod N" for q using that by (metis mod_less_divisor less_irrefl)
  then show ?thesis by (auto simp: slots_def)
qed

lemma push_inv:
  assumes inv: "ring_inv N r hist" and t: "valid_block t" and g: "g < 2 ^ 128"
  shows "\<exists>r' p. ring_push r g t = Some (r', p) \<and> ring_inv N r' (hist @ [t])"
proof -
  note i = inv [unfolded ring_inv_def]
  define P where "P = length hist"
  define buf where "buf = (r_buffer r)[P mod N := stamp (even (P div N)) t]"
  have N: "0 < N" "P mod N < N" "P mod N < length (r_buffer r)" "r_buffer r ! (P mod N) < 2 ^ 128" "r_buffer r ! N < 2 ^ 128"
    using i by (auto simp: P_def list_all_length less_Suc_eq)
  have c1: "copy_to_last r t = Some (r\<lparr>r_buffer := buf\<rparr>)"
    using i t N by (simp add: copy_to_last_def copy_block_eq valid_block_def buf_def P_def)
  have cnt: "(buffer_count r + 2 ^ 64 - 1) mod 2 ^ 64 = N"
    using i by simp
  have s: "slots N buf (hist @ [t])"
    unfolding buf_def P_def by (rule slots_put) (use i in auto)
  have all: "list_all (\<lambda>t. t < 2 ^ 128) buf" "length buf = N + 1"
    using i t stamp_lt by (auto simp: buf_def valid_block_def list_all_iff dest!: set_update_subset_insert [THEN subsetD])
  show ?thesis
  proof (cases "Suc (P mod N) = N")
    case False
    then have "Suc P mod N = Suc (P mod N)" "Suc P div N = P div N"
      by (simp_all add: mod_Suc div_Suc)
    moreover have "N \<le> Suc P \<Longrightarrow> N \<le> P"
      using False by (metis le_SucE mod_less mod_less_eq_dividend diff_Suc_1 lessI)
    moreover have "buf ! N = r_buffer r ! N"
      using N(2) by (simp add: buf_def)
    ultimately show ?thesis
      using i s all t c1 cnt False by (auto simp: ring_push_def ring_inv_def P_def)
  next
    case True
    define lk where "lk = stamp (even (P div N)) (link_block g (r_addr r))"
    have "copy_to_last (r\<lparr>r_buffer := buf, write_index := N\<rparr>) (link_block g (r_addr r)) =
        Some (r\<lparr>r_buffer := buf[N := lk], write_index := N\<rparr>)"
      using i N all link_block_lt [OF g]
      by (simp add: copy_to_last_def copy_block_eq lk_def P_def list_all_length)
    then have "ring_push r g t = Some (r\<lparr>r_buffer := buf[N := lk], write_index := 0, cycle_bit := \<not> cycle_bit r\<rparr>, r_addr r + 16 * write_index r)"
      using i True c1 cnt by (simp add: ring_push_def P_def link_block_def)
    moreover have "Suc P mod N = 0" "Suc P div N = Suc (P div N)"
      using True by (simp_all add: mod_Suc div_Suc)
    moreover have "list_all (\<lambda>t. t < 2 ^ 128) (buf[N := lk])"
      using all link_block_lt [OF g] stamp_lt by (auto simp: lk_def list_all_iff dest!: set_update_subset_insert [THEN subsetD])
    ultimately show ?thesis
      using i s all t slots_beyond [of N buf lk "hist @ [t]"] by (auto simp: ring_inv_def P_def lk_def)
  qed
qed

lemma consumer_next:
  assumes "0 < N" "C mod N = i"
  shows "consumer_at N (Suc C) (Suc i, even (C div N))"
  using assms by (cases "Suc i = N") (auto simp: consumer_at_def mod_Suc div_Suc)

lemma fetch_step:
  assumes inv: "ring_inv N r hist" and h: "consumer_at N C h" and C: "C \<le> length hist" "length hist < C + N"
  shows "C = length hist \<Longrightarrow> fetch r h = None"
    and "C < length hist \<Longrightarrow> \<exists>h'. fetch r h = Some (stamp (even (C div N)) (hist ! C), h') \<and> consumer_at N (Suc C) h'"
proof -
  note i = inv [unfolded ring_inv_def]
  define t where "t = r_buffer r ! (C mod N)"
  have e: "C = length hist \<Longrightarrow> block_cycle t \<noteq> even (C div N)"
    using slots_end [of N "r_buffer r" hist] i by (simp add: t_def)
  have f: "C < length hist \<Longrightarrow> t = stamp (even (C div N)) (hist ! C) \<and> get_bf TRB_bits ''trb_type'' t \<noteq> 6"
    using slots_front [of N "r_buffer r" hist C] i C by (auto simp: t_def list_all_length valid_block_def)
  have direct: "fetch r h = (if block_cycle t \<noteq> even (C div N) then None else Some (t, Suc (C mod N), even (C div N)))"
    if "C < length hist \<or> C = length hist"
  proof (cases "h = (C mod N, even (C div N))")
    case True
    then show ?thesis using e f that by (auto simp: fetch_def t_def)
  next
    case False
    then have b: "h = (N, odd (C div N))" "C mod N = 0" "0 < C" using h by (auto simp: consumer_at_def)
    then have "N \<le> C" by (auto simp: mod_eq_0_iff_dvd dest: dvd_imp_le)
    moreover have "length hist div N = C div N"
    proof -
      obtain k where k: "C = N * k" using b(2) by (auto elim: dvdE)
      then have "length hist = N * k + (length hist - N * k)" "length hist - N * k < N" using C by auto
      then show ?thesis using k i by (metis div_mult_self4 div_less add.right_neutral add.commute nonzero_mult_div_cancel_left not_less0)
    qed
    ultimately obtain g where "r_buffer r ! N = stamp (odd (C div N)) (link_block g (r_addr r))"
      using i C by auto
    then show ?thesis
      using b i link_block_fields [of "r_addr r"] by (simp add: fetch_def t_def)
  qed
  show "C = length hist \<Longrightarrow> fetch r h = None"
    using direct e by simp
  assume "C < length hist"
  with direct f consumer_next [of N C "C mod N"] i
  show "\<exists>h'. fetch r h = Some (stamp (even (C div N)) (hist ! C), h') \<and> consumer_at N (Suc C) h'"
    by simp
qed

text \<open>The ring and the controller hold the queue \<open>q\<close> of at most \<open>n\<close> blocks.\<close>

definition ring_holds :: "nat \<Rightarrow> ring \<times> nat \<times> bool \<Rightarrow> nat list \<Rightarrow> bool" where
  "ring_holds n s q \<longleftrightarrow>
     (\<exists>hist C. ring_inv (Suc n) (fst s) hist \<and> consumer_at (Suc n) C (snd s) \<and> C \<le> length hist \<and>
        q = drop C hist \<and> length q \<le> n)"

definition ring_put :: "ring \<times> nat \<times> bool \<Rightarrow> nat \<Rightarrow> nat \<Rightarrow> (ring \<times> nat \<times> bool) option" where
  "ring_put s g t = map_option (\<lambda>(r, _). (r, snd s)) (ring_push (fst s) g t)"

definition ring_take :: "ring \<times> nat \<times> bool \<Rightarrow> (nat \<times> ring \<times> nat \<times> bool) option" where
  "ring_take s = map_option (\<lambda>(t, h). (t, fst s, h)) (fetch (fst s) (snd s))"

lemma drop_Cons_nth: "t # q = drop C hist \<Longrightarrow> C < length hist \<and> hist ! C = t \<and> drop (Suc C) hist = q"
  by (metis Cons_nth_drop_Suc drop_eq_Nil leI list.inject list.distinct(1))

interpretation tr: cycle_fifo ring_put ring_take ring_holds
proof
  fix n s q and g t :: nat
  assume "ring_holds n s q" "length q < n" "g < 2 ^ 128" "valid_block t"
  then obtain hist C r' p where "consumer_at (Suc n) C (snd s)" "C \<le> length hist" "q = drop C hist"
    "ring_push (fst s) g t = Some (r', p)" "ring_inv (Suc n) r' (hist @ [t])"
    unfolding ring_holds_def using push_inv by blast
  with \<open>length q < n\<close> show "\<exists>s'. ring_put s g t = Some s' \<and> ring_holds n s' (q @ [t])"
    by (auto simp: ring_put_def ring_holds_def intro!: exI [of _ "hist @ [t]"] exI [of _ C])
next
  fix n s
  assume "ring_holds n s []"
  then obtain hist C where "ring_inv (Suc n) (fst s) hist" "consumer_at (Suc n) C (snd s)" "C = length hist"
    unfolding ring_holds_def by auto
  then show "ring_take s = None"
    using fetch_step(1) [of "Suc n" "fst s" hist C "snd s"] by (simp add: ring_take_def)
next
  fix n s t q
  assume "ring_holds n s (t # q)"
  then obtain hist C where *: "ring_inv (Suc n) (fst s) hist" "consumer_at (Suc n) C (snd s)" "C \<le> length hist"
    "t # q = drop C hist" "length (t # q) \<le> n"
    unfolding ring_holds_def by blast
  have C: "C < length hist" "hist ! C = t" "drop (Suc C) hist = q" "length hist < C + Suc n"
    using drop_Cons_nth [OF *(4)] *(3-5) by (auto dest: arg_cong [where f = length])
  obtain h' where "fetch (fst s) (snd s) = Some (stamp (even (C div Suc n)) t, h')" "consumer_at (Suc n) (Suc C) h'"
    using fetch_step(2) [OF *(1-3) C(4,1)] C(2) by auto
  with * C show "\<exists>u s'. ring_take s = Some (u, s') \<and> strip u = strip t \<and> ring_holds n s' q"
    by (auto simp: ring_take_def ring_holds_def intro!: exI [of _ hist] exI [of _ "Suc C"])
qed

text \<open>
  C5. A command or transfer ring of \<open>count\<close> blocks is a queue. Whatever sequence of pushes by the driver and
  fetches by the controller is made, as long as no more than \<open>count - 2\<close> blocks are outstanding, no push leaves
  the buffer, and the controller receives exactly the pushed blocks, in order, apart from the cycle bit,
  through any number of laps over the link block; it finds the ring empty exactly when the queue is empty.
\<close>

theorem ring_is_queue:
  assumes "ring_initialize count (Some a) = Inr r" "3 \<le> count" "count < 2 ^ 63" "16 dvd a" "a < 2 ^ 64"
    and "ring_fits (count - 2) ops []"
  shows "\<exists>outs. ring_run ring_put ring_take ops (r, 0, True) = Some outs \<and>
           map (map_option strip) outs = map (map_option strip) (queue_run ops [])"
proof -
  have "ring_inv (Suc (count - 2)) r []"
    using assms by (auto simp: ring_initialize_def ring_inv_def slots_def list_all_length nth_append simp del: replicate_Suc)
  then have "ring_holds (count - 2) (r, 0, True) []"
    by (auto simp: ring_holds_def consumer_at_def)
  then show ?thesis
    using assms(6) by (rule tr.run_refines_queue)
qed

definition sample_ops :: "ring_op list" where
  "sample_ops = [Put 0 0x123, Take, Put 7 0x456, Take, Put 0 0x789, Take, Take]"

lemma ring_is_queue_witness:
  "\<exists>r outs. ring_initialize 3 (Some 0x1000) = Inr r \<and> ring_run ring_put ring_take sample_ops (r, 0, True) = Some outs \<and>
     map (map_option strip) outs = [Some 0x123, Some 0x456, Some 0x789, None]"
proof -
  have f: "ring_fits (3 - 2) sample_ops []"
    by (simp add: sample_ops_def valid_block_def get_bf_def)
  have q: "map (map_option strip) (queue_run sample_ops []) = [Some 0x123, Some 0x456, Some 0x789, None]"
    by (simp add: sample_ops_def strip_def put_bf_def)
  obtain r where r: "ring_initialize 3 (Some 0x1000) = Inr r"
    by (simp add: ring_initialize_def)
  show ?thesis
    using ring_is_queue [OF r, of sample_ops] f q r by auto
qed

section \<open>An event ring is a queue\<close>

definition event_ring_inv :: "nat \<Rightarrow> event_ring \<times> nat \<times> bool \<Rightarrow> nat list \<Rightarrow> nat \<Rightarrow> bool" where
  "event_ring_inv N s hist C \<longleftrightarrow>
     (\<exists>e j c. s = (e, j, c) \<and> 0 < N \<and> N < 2 ^ 16 \<and> e_count e = N \<and> length (e_buffer e) = N \<and>
        16 dvd e_addr e \<and> e_addr e + 16 * N \<le> 2 ^ 64 \<and>
        get_bf EventRingSegmentTableEntry_bits ''ring_segment_base_address'' (e_entry e) = e_addr e \<and>
        get_bf EventRingSegmentTableEntry_bits ''ring_segment_size'' (e_entry e) = N \<and>
        j = length hist mod N \<and> c = even (length hist div N) \<and> slots N (e_buffer e) hist \<and>
        read_dequeue_pointer e = e_addr e + 16 * (C mod N) \<and> e_cycle e = even (C div N))"

lemma read_write_dequeue:
  assumes "16 dvd p" "p < 2 ^ 64"
  shows "read_dequeue_pointer (write_dequeue_pointer p e) = p"
  using shifted_pointer [of ERDPBitmap_bits "''event_ring_dequeue_pointer''" 4 4 p "erdp e"] assms
  by (simp add: read_dequeue_pointer_def write_dequeue_pointer_def ERDP_get_pointer_def ERDP_set_pointer_def ERDPBitmap_bits_def)

lemma post_inv:
  assumes "event_ring_inv N s hist C"
  shows "event_ring_inv N (post s t) (hist @ [t]) C"
proof -
  obtain e j c where s: "s = (e, j, c)" by (cases s)
  note i = assms [unfolded event_ring_inv_def s, simplified]
  have sl: "slots N ((e_buffer e)[length hist mod N := stamp (even (length hist div N)) t]) (hist @ [t])"
    by (rule slots_put) (use i in auto)
  show ?thesis
    using i sl
    by (cases "Suc (length hist mod N) = N")
      (auto simp: s post_def event_ring_inv_def stamp_def mod_Suc div_Suc read_dequeue_pointer_def)
qed

lemma front_eq:
  assumes "event_ring_inv N (e, h) hist C"
  shows "get_front e = Some (e_buffer e ! (C mod N))"
    and "has_front e = Some (block_cycle (e_buffer e ! (C mod N)) = even (C div N))"
proof -
  note i = assms [unfolded event_ring_inv_def]
  have "C mod N < N" using i by auto
  then show 1: "get_front e = Some (e_buffer e ! (C mod N))"
    using i by (auto simp: get_front_def block_at_def)
  have "get_bf TRB_bits ''cycle_bit'' t < 2" for t
    using get_bf_lt [OF trb_locate(3), of t] by simp
  then have "get_bf TRB_bits ''cycle_bit'' t = of_bool b \<longleftrightarrow> block_cycle t = b" for t b
    using less_2_cases [of "get_bf TRB_bits ''cycle_bit'' t"] by (auto simp: block_cycle_def)
  then show "has_front e = Some (block_cycle (e_buffer e ! (C mod N)) = even (C div N))"
    using i by (auto simp: has_front_def 1)
qed

lemma pop_inv:
  assumes "event_ring_inv N (e, h) hist C"
  shows "event_ring_inv N (event_ring_pop e, h) hist (Suc C)"
proof -
  note i = assms [unfolded event_ring_inv_def]
  define k where "k = C mod N"
  have k: "k < N" using i by (auto simp: k_def)
  have al: "16 dvd e_addr e + 16 * m" "m < N \<Longrightarrow> e_addr e + 16 * m < 2 ^ 64" for m
    using i by auto
  note w = read_write_dequeue [OF al(1) al(2)]
  have wf: "e_entry (write_dequeue_pointer p e) = e_entry e" "e_buffer (write_dequeue_pointer p e) = e_buffer e"
    "e_addr (write_dequeue_pointer p e) = e_addr e" "e_count (write_dequeue_pointer p e) = e_count e"
    "e_cycle (write_dequeue_pointer p e) = e_cycle e" for p e
    by (simp_all add: write_dequeue_pointer_def)
  show ?thesis
  proof (cases "Suc k = N")
    case True
    then have "Suc C mod N = 0" "Suc C div N = Suc (C div N)"
      by (simp_all add: k_def mod_Suc div_Suc)
    then show ?thesis
      using i True w [of 0] k by (auto simp: event_ring_pop_def event_ring_inv_def wf k_def [symmetric] Let_def)
  next
    case False
    then have "Suc C mod N = Suc k" "Suc C div N = C div N"
      by (simp_all add: k_def mod_Suc div_Suc)
    then show ?thesis
      using i False w [of "Suc k" e] k by (auto simp: event_ring_pop_def event_ring_inv_def wf k_def [symmetric] Let_def algebra_simps)
  qed
qed

definition event_holds :: "nat \<Rightarrow> event_ring \<times> nat \<times> bool \<Rightarrow> nat list \<Rightarrow> bool" where
  "event_holds n s q \<longleftrightarrow> (\<exists>hist C. event_ring_inv n s hist C \<and> C \<le> length hist \<and> q = drop C hist \<and> length q \<le> n)"

definition event_post :: "event_ring \<times> nat \<times> bool \<Rightarrow> nat \<Rightarrow> nat \<Rightarrow> (event_ring \<times> nat \<times> bool) option" where
  "event_post s g t = Some (post s t)"

interpretation ev: cycle_fifo event_post take_event event_holds
proof
  fix n s q and g t :: nat
  assume a: "event_holds n s q" "length q < n"
  then obtain hist C where "event_ring_inv n s hist C" "C \<le> length hist" "q = drop C hist"
    unfolding event_holds_def by blast
  with a(2) post_inv [of n s hist C t] show "\<exists>s'. event_post s g t = Some s' \<and> event_holds n s' (q @ [t])"
    by (auto simp: event_post_def event_holds_def intro!: exI [of _ "hist @ [t]"] exI [of _ C])
next
  fix n and s :: "event_ring \<times> nat \<times> bool"
  obtain e h where s: "s = (e, h)" by (cases s)
  assume "event_holds n s []"
  then obtain hist where *: "event_ring_inv n (e, h) hist (length hist)"
    unfolding event_holds_def s by auto
  then have "slots n (e_buffer e) hist" "0 < n" by (auto simp: event_ring_inv_def)
  then show "take_event s = None"
    using slots_end [of n "e_buffer e" hist] front_eq [OF *] by (simp add: take_event_def s)
next
  fix n t q and s :: "event_ring \<times> nat \<times> bool"
  obtain e h where s: "s = (e, h)" by (cases s)
  assume "event_holds n s (t # q)"
  then obtain hist C where *: "event_ring_inv n (e, h) hist C" "C \<le> length hist" "t # q = drop C hist" "length (t # q) \<le> n"
    unfolding event_holds_def s by blast
  have C: "C < length hist" "hist ! C = t" "drop (Suc C) hist = q" "length hist \<le> C + n"
    using drop_Cons_nth [OF *(3)] *(2-4) by (auto dest: arg_cong [where f = length])
  have "slots n (e_buffer e) hist" using *(1) by (auto simp: event_ring_inv_def)
  then have "e_buffer e ! (C mod n) = stamp (even (C div n)) t"
    using slots_front [of n "e_buffer e" hist C] C by simp
  then have "take_event s = Some (stamp (even (C div n)) t, event_ring_pop e, h)"
    using front_eq [OF *(1)] by (simp add: take_event_def s)
  with pop_inv [OF *(1)] C *(4) show "\<exists>u s'. take_event s = Some (u, s') \<and> strip u = strip t \<and> event_holds n s' q"
    by (auto simp: event_holds_def intro!: exI [of _ hist] exI [of _ "Suc C"])
qed

lemma segment_locate [simp]:
  "locate EventRingSegmentTableEntry_bits ''ring_segment_base_address'' = Some (0, 64)"
  "locate EventRingSegmentTableEntry_bits ''ring_segment_size'' = Some (64, 16)"
  by (simp_all add: EventRingSegmentTableEntry_bits_def)

text \<open>
  C7. The event ring is a queue: whatever sequence of events posted by the controller and events taken by the
  driver (\<^verbatim>\<open>has_front\<close>, \<^verbatim>\<open>get_front\<close>, \<^verbatim>\<open>pop\<close>) occurs, as long as no more than \<open>count\<close> events are outstanding,
  the driver takes exactly the posted events, in order, apart from the cycle bit, and finds the ring empty
  exactly when it is empty. This holds whatever the registers contained before the initialisation.
\<close>

theorem event_ring_is_queue:
  assumes "event_ring_initialize count (Some a) (Some t) sz ba dp = Inr e" "0 < count" "count < 2 ^ 16"
    and "16 dvd a" "a + 16 * count \<le> 2 ^ 64" "ring_fits count ops []"
  shows "\<exists>outs. ring_run event_post take_event ops (e, 0, True) = Some outs \<and>
           map (map_option strip) outs = map (map_option strip) (queue_run ops [])"
proof -
  have "a < 2 ^ 64" using assms(2,5) by linarith
  then have dp: "read_dequeue_pointer (write_dequeue_pointer a e') = a" for e'
    using assms(4) by (rule read_write_dequeue [rotated])
  define e0 where "e0 = put_bf EventRingSegmentTableEntry_bits ''ring_segment_size'' count
      (put_bf EventRingSegmentTableEntry_bits ''ring_segment_base_address'' a 0)"
  have en: "get_bf EventRingSegmentTableEntry_bits ''ring_segment_base_address'' e0 = a"
    "get_bf EventRingSegmentTableEntry_bits ''ring_segment_size'' e0 = count"
    unfolding e0_def using \<open>a < 2 ^ 64\<close> assms(3)
    by (simp_all add: get_put_bf_other get_put_bf_same [OF segment_locate(1)] get_put_bf_same [OF segment_locate(2)]
        take_bit_nat_eq_self)
  define e1 where "e1 = write_dequeue_pointer a \<lparr>e_buffer = replicate count 0, e_addr = a, e_count = count,
      e_entry = e0, erstsz = ERSTSZ_set_size 1 sz, erstba = ba, erdp = dp, e_cycle = True\<rparr>"
  have e: "e = e1\<lparr>erstba := ERSTBA_set_pointer t (erstba e1)\<rparr>"
    using assms(1) by (simp add: event_ring_initialize_def Let_def e1_def e0_def)
  have f: "e_buffer e = replicate count 0" "e_addr e = a" "e_count e = count" "e_entry e = e0" "e_cycle e"
    by (simp_all add: e e1_def write_dequeue_pointer_def)
  have "read_dequeue_pointer e = read_dequeue_pointer e1"
    by (simp add: e read_dequeue_pointer_def)
  then have "event_ring_inv count (e, 0, True) [] 0"
    using assms(2-5) f en dp by (simp add: event_ring_inv_def slots_def e1_def) blast
  then have "event_holds count (e, 0, True) []"
    by (auto simp: event_holds_def)
  then show ?thesis
    using assms(6) by (rule ev.run_refines_queue)
qed

lemma event_ring_is_queue_witness:
  "\<exists>e outs. event_ring_initialize 2 (Some 0x1000) (Some 0x2000) 0 0 8 = Inr e \<and>
     ring_run event_post take_event sample_ops (e, 0, True) = Some outs \<and>
     map (map_option strip) outs = [Some 0x123, Some 0x456, Some 0x789, None]"
proof -
  have f: "ring_fits 2 sample_ops []"
    by (simp add: sample_ops_def valid_block_def get_bf_def)
  have q: "map (map_option strip) (queue_run sample_ops []) = [Some 0x123, Some 0x456, Some 0x789, None]"
    by (simp add: sample_ops_def strip_def put_bf_def)
  obtain e where e: "event_ring_initialize 2 (Some 0x1000) (Some 0x2000) 0 0 8 = Inr e"
    by (simp add: event_ring_initialize_def Let_def)
  show ?thesis
    using event_ring_is_queue [OF e, of sample_ops] f q e by auto
qed

end
