(* ===== verification/Locks.thy ===== *)
theory Locks
  imports Klee_Prelude
begin

text \<open>
  The locks of the kernel: \<^verbatim>\<open>SpinLock\<close> (\<^verbatim>\<open>src/util/spinlock.hpp\<close>), \<^verbatim>\<open>Mutex\<close> and \<^verbatim>\<open>Event\<close>
  (\<^verbatim>\<open>src/mutex.hpp\<close>), the guards and shared values of \<^verbatim>\<open>src/util/mutex-like.hpp\<close>, and the double-buffered
  \<^verbatim>\<open>CriticalQueue\<close> (\<^verbatim>\<open>src/util/critical-queue.hpp\<close>). An atomic operation on a flag is one step; the threads
  interleave between the steps, as step relations on the position of every thread.
\<close>

section \<open>SpinLock\<close>

text \<open>
  \<^verbatim>\<open>compare_exchange_weak\<close>: success, the new value, and the new value of \<^verbatim>\<open>expected\<close>, which a failure
  overwrites with the value found. \<open>spurious\<close> is the failure the weak form allows although the values agree.
\<close>

definition compare_exchange_weak :: "bool \<Rightarrow> nat \<Rightarrow> nat \<Rightarrow> nat \<Rightarrow> bool \<times> nat \<times> nat" where
  "compare_exchange_weak spurious flag expected desired =
     (if flag = expected \<and> \<not> spurious then (True, desired, expected) else (False, flag, flag))"

text \<open>One test of the loop of \<^verbatim>\<open>aquire\<close>: \<^verbatim>\<open>expected\<close> is the loop's local variable.\<close>

definition spin_aquire_test :: "bool \<Rightarrow> nat \<Rightarrow> nat \<Rightarrow> bool \<times> nat \<times> nat" where
  "spin_aquire_test spurious flag expected = compare_exchange_weak spurious flag expected 1"

definition spin_try_aquire :: "bool \<Rightarrow> nat \<Rightarrow> bool \<times> nat" where
  "spin_try_aquire spurious flag = (let (r, flag, _) = compare_exchange_weak spurious flag 0 1 in (r, flag))"

definition spin_release :: "nat \<Rightarrow> nat" where
  "spin_release flag = 0"

datatype spin_pc = SpinIdle | Spinning nat | SpinHeld

record spin_state =
  spin_flag :: nat
  spin_at :: "nat \<Rightarrow> spin_pc"

inductive spin_step :: "spin_state \<Rightarrow> spin_state \<Rightarrow> bool" where
  spin_enter:
    "spin_at s t = SpinIdle \<Longrightarrow> spin_step s (s\<lparr>spin_at := (spin_at s)(t := Spinning 0)\<rparr>)"
| spin_test:
    "spin_at s t = Spinning e \<Longrightarrow> spin_aquire_test spurious (spin_flag s) e = (r, flag, e') \<Longrightarrow>
     spin_step s (s\<lparr>spin_flag := flag, spin_at := (spin_at s)(t := (if r then SpinHeld else Spinning e'))\<rparr>)"
| spin_try:
    "spin_at s t = SpinIdle \<Longrightarrow> spin_try_aquire spurious (spin_flag s) = (r, flag) \<Longrightarrow>
     spin_step s (s\<lparr>spin_flag := flag, spin_at := (spin_at s)(t := (if r then SpinHeld else SpinIdle))\<rparr>)"
| spin_leave:
    "spin_at s t = SpinHeld \<Longrightarrow>
     spin_step s (s\<lparr>spin_flag := spin_release (spin_flag s), spin_at := (spin_at s)(t := SpinIdle)\<rparr>)"

definition spin_initial :: spin_state where
  "spin_initial = \<lparr>spin_flag = 0, spin_at = \<lambda>_. SpinIdle\<rparr>"

section \<open>Mutex\<close>

text \<open>
  The waiting is \<^verbatim>\<open>wait_event\<close> and \<^verbatim>\<open>notify_event\<close> of the process manager: a thread that waits is put on the
  list of the event and sleeps, a notification wakes every thread that is on the list at that moment.
\<close>

definition test_and_set :: "bool \<Rightarrow> bool \<times> bool" where
  "test_and_set flag = (flag, True)"

definition mutex_try_aquire :: "bool \<Rightarrow> bool \<times> bool" where
  "mutex_try_aquire flag = (let (old, flag) = test_and_set flag in (if old then (False, flag) else (True, flag)))"

text \<open>
  \<open>MTesting\<close>: before the test of the loop of \<^verbatim>\<open>aquire\<close>; \<open>MFailed\<close>: in the body of the loop, before
  \<^verbatim>\<open>wait_event\<close>; \<open>MWaiting\<close>: asleep in \<^verbatim>\<open>wait_event\<close>; \<open>MCleared\<close>: in \<^verbatim>\<open>release\<close>, after the flag is cleared.
\<close>

datatype mutex_pc = MIdle | MTesting | MFailed | MWaiting | MHeld | MCleared

record mutex_state =
  mutex_flag :: bool
  mutex_at :: "nat \<Rightarrow> mutex_pc"

definition mutex_aquire_test :: "nat \<Rightarrow> mutex_state \<Rightarrow> mutex_state" where
  "mutex_aquire_test t s =
     (let (old, flag) = test_and_set (mutex_flag s)
      in s\<lparr>mutex_flag := flag, mutex_at := (mutex_at s)(t := (if old then MFailed else MHeld))\<rparr>)"

definition mutex_aquire_wait :: "nat \<Rightarrow> mutex_state \<Rightarrow> mutex_state" where
  "mutex_aquire_wait t s = s\<lparr>mutex_at := (mutex_at s)(t := MWaiting)\<rparr>"

definition mutex_release_clear :: "nat \<Rightarrow> mutex_state \<Rightarrow> mutex_state" where
  "mutex_release_clear t s = s\<lparr>mutex_flag := False, mutex_at := (mutex_at s)(t := MCleared)\<rparr>"

definition mutex_release_notify :: "nat \<Rightarrow> mutex_state \<Rightarrow> mutex_state" where
  "mutex_release_notify t s =
     s\<lparr>mutex_at := (\<lambda>u. if u = t then MIdle else if mutex_at s u = MWaiting then MTesting else mutex_at s u)\<rparr>"

inductive mutex_step :: "mutex_state \<Rightarrow> mutex_state \<Rightarrow> bool" where
  mutex_enter: "mutex_at s t = MIdle \<Longrightarrow> mutex_step s (s\<lparr>mutex_at := (mutex_at s)(t := MTesting)\<rparr>)"
| mutex_test: "mutex_at s t = MTesting \<Longrightarrow> mutex_step s (mutex_aquire_test t s)"
| mutex_wait: "mutex_at s t = MFailed \<Longrightarrow> mutex_step s (mutex_aquire_wait t s)"
| mutex_try:
    "mutex_at s t = MIdle \<Longrightarrow> mutex_try_aquire (mutex_flag s) = (r, flag) \<Longrightarrow>
     mutex_step s (s\<lparr>mutex_flag := flag, mutex_at := (mutex_at s)(t := (if r then MHeld else MIdle))\<rparr>)"
| mutex_clear: "mutex_at s t = MHeld \<Longrightarrow> mutex_step s (mutex_release_clear t s)"
| mutex_notify: "mutex_at s t = MCleared \<Longrightarrow> mutex_step s (mutex_release_notify t s)"

definition mutex_initial :: mutex_state where
  "mutex_initial = \<lparr>mutex_flag = False, mutex_at = \<lambda>_. MIdle\<rparr>"

section \<open>Event\<close>

text \<open>\<open>EFailed\<close>: the test of the loop of \<^verbatim>\<open>wait\<close> found the flag clear; \<open>ESet\<close>: in \<^verbatim>\<open>notify\<close>, after the flag was set.\<close>

datatype event_pc = EIdle | ETesting | EFailed | EWaiting | ESet

record event_state =
  event_flag :: bool
  event_at :: "nat \<Rightarrow> event_pc"

definition event_wait_test :: "nat \<Rightarrow> event_state \<Rightarrow> event_state" where
  "event_wait_test t s = s\<lparr>event_at := (event_at s)(t := (if event_flag s then EIdle else EFailed))\<rparr>"

definition event_wait_sleep :: "nat \<Rightarrow> event_state \<Rightarrow> event_state" where
  "event_wait_sleep t s = s\<lparr>event_at := (event_at s)(t := EWaiting)\<rparr>"

definition event_notify_set :: "nat \<Rightarrow> event_state \<Rightarrow> event_state" where
  "event_notify_set t s =
     (let (old, flag) = test_and_set (event_flag s)
      in s\<lparr>event_flag := flag, event_at := (event_at s)(t := (if old then EIdle else ESet))\<rparr>)"

definition event_notify_wake :: "nat \<Rightarrow> event_state \<Rightarrow> event_state" where
  "event_notify_wake t s =
     s\<lparr>event_at := (\<lambda>u. if u = t then EIdle else if event_at s u = EWaiting then ETesting else event_at s u)\<rparr>"

definition event_reset :: "event_state \<Rightarrow> event_state" where
  "event_reset s = s\<lparr>event_flag := False\<rparr>"

inductive event_step :: "event_state \<Rightarrow> event_state \<Rightarrow> bool" where
  event_enter: "event_at s t = EIdle \<Longrightarrow> event_step s (s\<lparr>event_at := (event_at s)(t := ETesting)\<rparr>)"
| event_test: "event_at s t = ETesting \<Longrightarrow> event_step s (event_wait_test t s)"
| event_sleep: "event_at s t = EFailed \<Longrightarrow> event_step s (event_wait_sleep t s)"
| event_set: "event_at s t = EIdle \<Longrightarrow> event_step s (event_notify_set t s)"
| event_wake: "event_at s t = ESet \<Longrightarrow> event_step s (event_notify_wake t s)"
| event_clear: "event_at s t = EIdle \<Longrightarrow> event_step s (event_reset s)"

definition event_initial :: event_state where
  "event_initial = \<lparr>event_flag = False, event_at = \<lambda>_. EIdle\<rparr>"

section \<open>Guards\<close>

text \<open>
  \<^verbatim>\<open>AutoMutex\<close>: the guard is the pointer it holds; the operations that touch a mutex return the mutexes they
  release, in order.
\<close>

type_synonym auto_mutex = "nat option"

definition auto_release :: "auto_mutex \<Rightarrow> nat list" where
  "auto_release g = (case g of None \<Rightarrow> [] | Some m \<Rightarrow> [m])"

definition auto_forget :: "auto_mutex \<Rightarrow> auto_mutex" where
  "auto_forget g = None"

definition auto_move :: "auto_mutex \<Rightarrow> auto_mutex \<times> auto_mutex" where
  "auto_move other = (other, None)"

definition auto_destroy :: "auto_mutex \<Rightarrow> nat list" where
  "auto_destroy g = auto_release g"

section \<open>CriticalQueue\<close>

record 'a critical_queue =
  cq_buffer :: "bool \<Rightarrow> 'a list"
  cq_flip :: bool
  cq_is_empty :: bool

definition cq_initial :: "'a critical_queue" where
  "cq_initial = \<lparr>cq_buffer = \<lambda>_. [], cq_flip = False, cq_is_empty = True\<rparr>"

text \<open>The steps of a push whose index \<^verbatim>\<open>flip\<close> was read before, and of a swap.\<close>

definition cq_push_append :: "bool \<Rightarrow> 'a \<Rightarrow> 'a critical_queue \<Rightarrow> 'a critical_queue" where
  "cq_push_append f x q = q\<lparr>cq_buffer := (cq_buffer q)(f := cq_buffer q f @ [x])\<rparr>"

definition cq_push :: "'a \<Rightarrow> 'a critical_queue \<Rightarrow> 'a critical_queue" where
  "cq_push x q = (cq_push_append (cq_flip q) x q)\<lparr>cq_is_empty := False\<rparr>"

definition cq_swap :: "'a critical_queue \<Rightarrow> 'a list \<times> 'a critical_queue" where
  "cq_swap q =
     (let q = q\<lparr>cq_buffer := (cq_buffer q)(\<not> cq_flip q := [])\<rparr>;
          q = q\<lparr>cq_flip := \<not> cq_flip q\<rparr>;
          q = q\<lparr>cq_is_empty := True\<rparr>
      in (cq_buffer q (\<not> cq_flip q), q))"

definition cq_empty :: "'a critical_queue \<Rightarrow> bool" where
  "cq_empty q = cq_is_empty q"

section \<open>The spin lock admits two owners\<close>

text \<open>The first failed test leaves the value 1 in \<^verbatim>\<open>expected\<close>, so the next test exchanges 1 for 1 and succeeds.\<close>

lemma second_test_succeeds:
  assumes "spin_aquire_test spurious flag e = (False, flag', e')"
  shows "flag' = flag \<and> spin_aquire_test False flag' e' = (True, 1, flag)"
  using assms by (auto simp: spin_aquire_test_def compare_exchange_weak_def split: if_split_asm)

text \<open>
  C39. \<^verbatim>\<open>SpinLock\<close> does not exclude: from the initial state two threads can both be past \<^verbatim>\<open>aquire\<close> without a
  release. A failed exchange stores the value found in \<^verbatim>\<open>expected\<close>, which \<^verbatim>\<open>aquire\<close> does not reset, so the
  second test of the loop always succeeds, whoever holds the lock.
\<close>

theorem spinlock_admits_two_owners:
  "\<exists>s. spin_step\<^sup>*\<^sup>* spin_initial s \<and> spin_at s 0 = SpinHeld \<and> spin_at s 1 = SpinHeld"
proof -
  define s1 where "s1 = spin_initial\<lparr>spin_at := (spin_at spin_initial)(0 := Spinning 0)\<rparr>"
  define s2 where "s2 = s1\<lparr>spin_flag := 1, spin_at := (spin_at s1)(0 := SpinHeld)\<rparr>"
  define s3 where "s3 = s2\<lparr>spin_at := (spin_at s2)(1 := Spinning 0)\<rparr>"
  define s4 where "s4 = s3\<lparr>spin_flag := 1, spin_at := (spin_at s3)(1 := Spinning 1)\<rparr>"
  define s5 where "s5 = s4\<lparr>spin_flag := 1, spin_at := (spin_at s4)(1 := SpinHeld)\<rparr>"
  have 1: "spin_step spin_initial s1"
    unfolding s1_def by (rule spin_enter) (simp add: spin_initial_def)
  have 2: "spin_step s1 s2"
    using spin_test [of s1 0 0 False True 1 0]
    by (simp add: s2_def s1_def spin_initial_def spin_aquire_test_def compare_exchange_weak_def)
  have 3: "spin_step s2 s3"
    unfolding s3_def by (rule spin_enter) (simp add: s2_def s1_def spin_initial_def)
  have 4: "spin_step s3 s4"
    using spin_test [of s3 1 0 False False 1 1]
    by (simp add: s4_def s3_def s2_def s1_def spin_initial_def spin_aquire_test_def compare_exchange_weak_def)
  have 5: "spin_step s4 s5"
    using spin_test [of s4 1 1 False True 1 1]
    by (simp add: s5_def s4_def s3_def s2_def s1_def spin_initial_def spin_aquire_test_def compare_exchange_weak_def)
  have "spin_step\<^sup>*\<^sup>* spin_initial s5"
    using 1 2 3 4 5 by (meson rtranclp.rtrancl_into_rtrancl rtranclp.rtrancl_refl)
  moreover have "spin_at s5 0 = SpinHeld" "spin_at s5 1 = SpinHeld"
    by (simp_all add: s5_def s4_def s3_def s2_def)
  ultimately show ?thesis by blast
qed

section \<open>The mutex excludes and can lose a wakeup\<close>

text \<open>The flag is set exactly when a thread holds the mutex, and no two threads hold it.\<close>

definition mutex_inv :: "mutex_state \<Rightarrow> bool" where
  "mutex_inv s \<longleftrightarrow>
     (if mutex_flag s then \<exists>h. \<forall>t. mutex_at s t = MHeld \<longleftrightarrow> t = h else \<forall>t. mutex_at s t \<noteq> MHeld)"

lemma mutex_invI:
  "mutex_flag s \<Longrightarrow> (\<And>t. mutex_at s t = MHeld \<longleftrightarrow> t = h) \<Longrightarrow> mutex_inv s"
  "\<not> mutex_flag s \<Longrightarrow> (\<And>t. mutex_at s t \<noteq> MHeld) \<Longrightarrow> mutex_inv s"
  by (auto simp: mutex_inv_def)

lemma mutex_step_inv:
  assumes "mutex_step s s'" "mutex_inv s"
  shows "mutex_inv s'"
proof (cases "mutex_flag s")
  case True
  then obtain h where h: "\<And>t. mutex_at s t = MHeld \<longleftrightarrow> t = h"
    using assms(2) by (auto simp: mutex_inv_def)
  have h': "mutex_at s h = MHeld" using h by blast
  have d: "mutex_at s t \<noteq> MHeld \<Longrightarrow> t \<noteq> h" for t using h' by auto
  from assms(1) show ?thesis
  proof cases
    case (mutex_enter t)
    with True h d [of t] show ?thesis by (intro mutex_invI(1) [of _ h]) auto
  next
    case (mutex_test t)
    with True h d [of t] show ?thesis
      by (intro mutex_invI(1) [of _ h]) (auto simp: mutex_aquire_test_def test_and_set_def)
  next
    case (mutex_wait t)
    with True h d [of t] show ?thesis by (intro mutex_invI(1) [of _ h]) (auto simp: mutex_aquire_wait_def)
  next
    case (mutex_try t r flag)
    have "\<not> r" "flag" using mutex_try(3) True by (simp_all add: mutex_try_aquire_def test_and_set_def)
    with mutex_try(1,2) h d [of t] show ?thesis by (intro mutex_invI(1) [of _ h]) auto
  next
    case (mutex_clear t)
    with h show ?thesis by (intro mutex_invI(2)) (auto simp: mutex_release_clear_def)
  next
    case (mutex_notify t)
    have "mutex_at s' u = MHeld \<longleftrightarrow> u = h" for u
      using mutex_notify h [of u] d [of t]
      by (cases "u = t"; cases "mutex_at s u = MWaiting") (simp_all add: mutex_release_notify_def)
    moreover have "mutex_flag s'" using True mutex_notify(1) by (simp add: mutex_release_notify_def)
    ultimately show ?thesis by (intro mutex_invI(1) [of _ h])
  qed
next
  case False
  then have n: "mutex_at s t \<noteq> MHeld" for t
    using assms(2) by (auto simp: mutex_inv_def)
  from assms(1) show ?thesis
  proof cases
    case (mutex_test t)
    with False n show ?thesis
      by (intro mutex_invI(1) [of _ t]) (auto simp: mutex_aquire_test_def test_and_set_def)
  next
    case (mutex_try t r flag)
    have "r" "flag" using mutex_try(3) False by (simp_all add: mutex_try_aquire_def test_and_set_def)
    with mutex_try(1,2) n show ?thesis by (intro mutex_invI(1) [of _ t]) auto
  qed (use False n in \<open>auto simp: mutex_inv_def mutex_aquire_wait_def mutex_release_notify_def\<close>)
qed

text \<open>
  C29. \<^verbatim>\<open>Mutex\<close> excludes: in every reachable state of any number of threads that acquire, try to acquire and
  release, at most one thread holds the mutex, and the flag is set exactly when one does.
\<close>

theorem mutex_excludes:
  assumes "mutex_step\<^sup>*\<^sup>* mutex_initial s"
  shows "(\<forall>t u. mutex_at s t = MHeld \<longrightarrow> mutex_at s u = MHeld \<longrightarrow> t = u) \<and>
         (mutex_flag s \<longleftrightarrow> (\<exists>t. mutex_at s t = MHeld))"
proof -
  have "mutex_inv mutex_initial"
    by (simp add: mutex_inv_def mutex_initial_def)
  with assms have "mutex_inv s"
    by (induction rule: rtranclp_induct) (blast intro: mutex_step_inv)+
  then show ?thesis by (auto simp: mutex_inv_def split: if_split_asm)
qed

lemma mutex_excludes_witness:
  "\<exists>s. mutex_step\<^sup>*\<^sup>* mutex_initial s \<and> mutex_at s 0 = MHeld \<and> mutex_at s 1 = MTesting \<and> mutex_flag s \<and> mutex_at s 1 \<noteq> MHeld"
proof -
  define s1 where "s1 = mutex_initial\<lparr>mutex_at := (mutex_at mutex_initial)(0 := MTesting)\<rparr>"
  define s2 where "s2 = mutex_aquire_test 0 s1"
  define s3 where "s3 = s2\<lparr>mutex_at := (mutex_at s2)(1 := MTesting)\<rparr>"
  have 1: "mutex_step mutex_initial s1"
    unfolding s1_def by (rule mutex_enter) (simp add: mutex_initial_def)
  have 2: "mutex_step s1 s2"
    unfolding s2_def by (rule mutex_test) (simp add: s1_def)
  have 3: "mutex_step s2 s3"
    unfolding s3_def by (rule mutex_enter) (simp add: s2_def s1_def mutex_initial_def mutex_aquire_test_def test_and_set_def)
  have r: "mutex_step\<^sup>*\<^sup>* mutex_initial s3"
    using 1 2 3 by (meson rtranclp.rtrancl_into_rtrancl rtranclp.rtrancl_refl)
  have s3: "mutex_at s3 0 = MHeld" "mutex_at s3 1 = MTesting"
    by (simp_all add: s3_def s2_def s1_def mutex_initial_def mutex_aquire_test_def test_and_set_def)
  show ?thesis
    using mutex_excludes [OF r] r s3 by auto
qed

section \<open>Lost wakeups\<close>

text \<open>Once the flag is set, no thread is about to wake the sleepers and thread 0 sleeps, it sleeps until a reset.\<close>

lemma event_sleeps_on:
  assumes "event_step s s'" "event_flag s'" "event_flag s" "event_at s 0 = EWaiting" "\<And>t. event_at s t \<noteq> ESet"
  shows "event_at s' 0 = EWaiting \<and> (\<forall>t. event_at s' t \<noteq> ESet)"
  using assms
  by (cases rule: event_step.cases)
    (auto simp: event_wait_test_def event_wait_sleep_def event_notify_set_def test_and_set_def event_reset_def
      intro!: gr0I)

text \<open>
  C30. \<^verbatim>\<open>Event\<close> can lose a wakeup: there is a reachable state in which the event is notified, every other thread
  is idle, and thread 0 sleeps in \<^verbatim>\<open>wait\<close>; whatever the threads do from there without a reset, thread 0 never
  wakes up, since \<^verbatim>\<open>notify\<close> wakes the sleepers only when it sets the flag. The notification came between the
  test of the flag and \<^verbatim>\<open>wait_event\<close>.
\<close>

theorem event_wakeup_lost:
  "\<exists>s. event_step\<^sup>*\<^sup>* event_initial s \<and> event_flag s \<and> event_at s = (\<lambda>_. EIdle)(0 := EWaiting) \<and>
     \<not> (\<exists>s'. (\<lambda>x y. event_step x y \<and> event_flag y)\<^sup>*\<^sup>* s s' \<and> event_at s' 0 \<noteq> EWaiting)"
proof -
  define s1 where "s1 = event_initial\<lparr>event_at := (event_at event_initial)(0 := ETesting)\<rparr>"
  define s2 where "s2 = event_wait_test 0 s1"
  define s3 where "s3 = event_notify_set 1 s2"
  define s4 where "s4 = event_notify_wake 1 s3"
  define s5 where "s5 = event_wait_sleep 0 s4"
  note d = s5_def s4_def s3_def s2_def s1_def event_initial_def event_wait_test_def event_notify_set_def
    event_notify_wake_def event_wait_sleep_def test_and_set_def
  have 1: "event_step event_initial s1"
    unfolding s1_def by (rule event_enter) (simp add: event_initial_def)
  have 2: "event_step s1 s2" unfolding s2_def by (rule event_test) (simp add: d)
  have 3: "event_step s2 s3" unfolding s3_def by (rule event_set) (simp add: d)
  have 4: "event_step s3 s4" unfolding s4_def by (rule event_wake) (simp add: d)
  have 5: "event_step s4 s5" unfolding s5_def by (rule event_sleep) (simp add: d)
  have r: "event_step\<^sup>*\<^sup>* event_initial s5"
    using 1 2 3 4 5 by (meson rtranclp.rtrancl_into_rtrancl rtranclp.rtrancl_refl)
  have s5: "event_flag s5" "event_at s5 = (\<lambda>_. EIdle)(0 := EWaiting)"
    by (auto simp: d fun_eq_iff)
  have "event_flag s' \<and> event_at s' 0 = EWaiting \<and> (\<forall>t. event_at s' t \<noteq> ESet)"
    if "(\<lambda>x y. event_step x y \<and> event_flag y)\<^sup>*\<^sup>* s5 s'" for s'
    using that
  proof (induction rule: rtranclp_induct)
    case base
    show ?case using s5 by simp
  next
    case (step y z)
    then show ?case using event_sleeps_on [of y z] by blast
  qed
  with r s5 show ?thesis by blast
qed

text \<open>The same window exists in \<^verbatim>\<open>Mutex\<close>: the mutex is free, every other thread is idle, and a thread sleeps.\<close>

lemma mutex_wakeup_lost:
  "\<exists>s. mutex_step\<^sup>*\<^sup>* mutex_initial s \<and> \<not> mutex_flag s \<and> mutex_at s 0 = MWaiting \<and> (\<forall>t. 0 < t \<longrightarrow> mutex_at s t = MIdle)"
proof -
  define s1 where "s1 = mutex_initial\<lparr>mutex_at := (mutex_at mutex_initial)(1 := MTesting)\<rparr>"
  define s2 where "s2 = mutex_aquire_test 1 s1"
  define s3 where "s3 = s2\<lparr>mutex_at := (mutex_at s2)(0 := MTesting)\<rparr>"
  define s4 where "s4 = mutex_aquire_test 0 s3"
  define s5 where "s5 = mutex_release_clear 1 s4"
  define s6 where "s6 = mutex_release_notify 1 s5"
  define s7 where "s7 = mutex_aquire_wait 0 s6"
  note d = s7_def s6_def s5_def s4_def s3_def s2_def s1_def mutex_initial_def mutex_aquire_test_def
    mutex_release_clear_def mutex_release_notify_def mutex_aquire_wait_def test_and_set_def
  have 1: "mutex_step mutex_initial s1"
    unfolding s1_def by (rule mutex_enter) (simp add: mutex_initial_def)
  have 2: "mutex_step s1 s2" unfolding s2_def by (rule mutex_test) (simp add: d)
  have 3: "mutex_step s2 s3" unfolding s3_def by (rule mutex_enter) (simp add: d)
  have 4: "mutex_step s3 s4" unfolding s4_def by (rule mutex_test) (simp add: d)
  have 5: "mutex_step s4 s5" unfolding s5_def by (rule mutex_clear) (simp add: d)
  have 6: "mutex_step s5 s6" unfolding s6_def by (rule mutex_notify) (simp add: d)
  have 7: "mutex_step s6 s7" unfolding s7_def by (rule mutex_wait) (simp add: d)
  have "mutex_step\<^sup>*\<^sup>* mutex_initial s7"
    using 1 2 3 4 5 6 7 by (meson rtranclp.rtrancl_into_rtrancl rtranclp.rtrancl_refl)
  moreover have "\<not> mutex_flag s7 \<and> mutex_at s7 0 = MWaiting \<and> (\<forall>t. 0 < t \<longrightarrow> mutex_at s7 t = MIdle)"
    by (simp add: d)
  ultimately show ?thesis by blast
qed

section \<open>The double-buffered queue\<close>

text \<open>A push is \<open>Some x\<close>, a swap is \<open>None\<close>; the result is what the swaps return, and the queue at the end.\<close>

fun cq_run :: "'a option list \<Rightarrow> 'a critical_queue \<Rightarrow> 'a list list \<times> 'a critical_queue" where
  "cq_run [] q = ([], q)"
| "cq_run (Some x # ops) q = cq_run ops (cq_push x q)"
| "cq_run (None # ops) q = (let (r, q) = cq_swap q; (rs, q) = cq_run ops q in (r # rs, q))"

fun batches :: "'a option list \<Rightarrow> 'a list \<Rightarrow> 'a list list \<times> 'a list" where
  "batches [] pending = ([], pending)"
| "batches (Some x # ops) pending = batches ops (pending @ [x])"
| "batches (None # ops) pending = (let (rs, p) = batches ops [] in (pending # rs, p))"

definition cq_holds :: "'a critical_queue \<Rightarrow> 'a list \<Rightarrow> bool" where
  "cq_holds q pending \<longleftrightarrow> cq_buffer q (cq_flip q) = pending \<and> (cq_is_empty q \<longleftrightarrow> pending = [])"

lemma cq_push_holds: "cq_holds q p \<Longrightarrow> cq_holds (cq_push x q) (p @ [x])"
  by (simp add: cq_holds_def cq_push_def cq_push_append_def)

lemma cq_swap_holds: "cq_holds q p \<Longrightarrow> \<exists>q'. cq_swap q = (p, q') \<and> cq_holds q' []"
  by (simp add: cq_holds_def cq_swap_def Let_def)

text \<open>
  When no push overlaps a swap, a swap returns exactly the items pushed since the swap before, in order, and
  \<^verbatim>\<open>empty\<close> says whether there are any.
\<close>

lemma critical_queue_batches:
  assumes "cq_holds q p"
  shows "fst (cq_run ops q) = fst (batches ops p) \<and> cq_holds (snd (cq_run ops q)) (snd (batches ops p))"
  using assms
proof (induction ops p arbitrary: q rule: batches.induct)
  case (2 x ops pending)
  then show ?case using cq_push_holds by fastforce
next
  case (3 ops pending)
  then obtain q' where q': "cq_swap q = (pending, q')" "cq_holds q' []"
    using cq_swap_holds by blast
  show ?case using "3.IH" [OF q'(2)] q'(1) by (auto simp: Let_def split: prod.splits)
qed simp

text \<open>
  A push that read the index before a swap and appends after it puts its item in the buffer the consumer has
  taken; the next swap clears it unseen.
\<close>

lemma critical_queue_loses_late_push:
  "let q1 = snd (cq_swap cq_initial); q2 = cq_push_append (cq_flip cq_initial) x q1; (r, q3) = cq_swap q2
   in r = [] \<and> (\<forall>b. cq_buffer q3 b = [])"
  by (simp add: cq_initial_def cq_swap_def cq_push_append_def Let_def)

end
