(* ===== verification/Fs_Manager.thy ===== *)
theory Fs_Manager
  imports Fs_Types
begin

text \<open>
  The tree of open files and the mount table: \<^verbatim>\<open>FileOperator\<close> (\<^verbatim>\<open>src/fs/fs.hpp\<close>, the part that is not the page
  cache), \<^verbatim>\<open>Handle\<close> (\<^verbatim>\<open>src/fs/handle.hpp\<close>) and \<^verbatim>\<open>Manager\<close> (\<^verbatim>\<open>src/fs/manager.hpp\<close>).

  A \<^verbatim>\<open>FileOperator\<close> is a record in a store of pointers. The drivers are reached through their virtual functions,
  the record \<open>driver\<close>; their own data is the type \<open>'d\<close>. Two members are read before they are ever written: the
  constructors of \<^verbatim>\<open>FileOperator\<close> leave \<^verbatim>\<open>parent\<close> uninitialised and nothing assigns it, and a handle whose
  driver data could not be created keeps uninitialised driver data. The values found there are the members
  \<open>stale_parent\<close> and \<open>stale_data\<close> of the state; following a stale \<^verbatim>\<open>parent\<close> that is not null is undefined, so
  \<open>None\<close>.
\<close>

section \<open>Paths\<close>

text \<open>\<^verbatim>\<open>split_path\<close>: skip separators, take the characters up to the next separator, repeat.\<close>

function split_path :: "string \<Rightarrow> string list" where
  "split_path path =
     (case dropWhile (\<lambda>c. c = CHR ''/'') path of
        [] \<Rightarrow> []
      | rest \<Rightarrow> takeWhile (\<lambda>c. c \<noteq> CHR ''/'') rest # split_path (dropWhile (\<lambda>c. c \<noteq> CHR ''/'') rest))"
  by pat_completeness auto

lemma dropWhile_shorter:
  assumes "dropWhile P xs = y # ys" "P' y"
  shows "length (dropWhile P' (y # ys)) < length xs"
proof -
  have "length (dropWhile P' ys) \<le> length ys" by (rule length_dropWhile_le)
  moreover have "length (y # ys) \<le> length xs" using length_dropWhile_le [of P xs] assms(1) by simp
  ultimately show ?thesis using assms(2) by simp
qed

termination split_path
proof (relation "measure length")
  fix path :: string and c cs
  assume "dropWhile (\<lambda>c. c = CHR ''/'') path = c # cs"
  moreover from this have "c \<noteq> CHR ''/''"
    using hd_dropWhile [of "\<lambda>c. c = CHR ''/''" path] by auto
  ultimately show "(dropWhile (\<lambda>c. c \<noteq> CHR ''/'') (c # cs), path) \<in> measure length"
    using dropWhile_shorter [of "\<lambda>c. c = CHR ''/''" path c cs "\<lambda>c. c \<noteq> CHR ''/''"] by simp
qed simp

declare split_path.simps [simp del]

fun join_path :: "string list \<Rightarrow> string" where
  "join_path [] = []"
| "join_path (e # es) = CHR ''/'' # e @ join_path es"

definition normalize_path :: "string \<Rightarrow> string" where
  "normalize_path path =
     (let r = join_path (split_path path) in if r = [] then [CHR ''/''] else r)"

section \<open>File operators\<close>

type_synonym fptr = nat

record file_operator =
  f_driver :: nat
  f_driver_data :: nat
  f_filesize :: nat
  f_parent :: "fptr option"
  f_mount :: "fptr option"
  f_name :: string
  f_type :: file_type
  f_blocksize_exp :: nat
  f_attributes :: attributes
  f_counts :: count
  f_children :: "(string \<times> fptr) list"

text \<open>
  The virtual functions the tree and the handles use. They get the driver data of the operator and, by reference,
  that of the handle, and return it with their result; \<open>None\<close> is undefined behaviour in the driver. What
  \<^verbatim>\<open>control_device\<close> stores through its argument is a value of \<open>control_output\<close>.
\<close>

datatype control_output = NoOutput | OutSize nat nat | OutPointer nat | OutFlag bool | OutBytes nat

record 'd driver =
  v_find :: "'d \<Rightarrow> nat \<Rightarrow> nat \<Rightarrow> string \<Rightarrow> (file_abstract_data result \<times> nat \<times> 'd) option"
  v_create :: "'d \<Rightarrow> nat \<Rightarrow> nat \<Rightarrow> string \<Rightarrow> file_type \<Rightarrow> (file_abstract_data result \<times> nat \<times> 'd) option"
  v_readdir :: "'d \<Rightarrow> nat \<Rightarrow> nat \<Rightarrow> nat \<Rightarrow> (file_abstract_data result \<times> nat \<times> 'd) option"
  v_remove :: "'d \<Rightarrow> nat \<Rightarrow> nat \<Rightarrow> string \<Rightarrow> (error_code \<times> nat \<times> 'd) option"
  v_get_device_type :: "'d \<Rightarrow> nat \<Rightarrow> device_type option"
  v_create_device :: "'d \<Rightarrow> nat \<Rightarrow> nat \<Rightarrow> string \<Rightarrow> nat \<Rightarrow> (file_abstract_data result \<times> nat \<times> 'd) option"
  v_control_device :: "'d \<Rightarrow> nat \<Rightarrow> nat \<Rightarrow> device_operation \<Rightarrow> (error_code \<times> control_output \<times> nat \<times> 'd) option"
  v_create_handle_data :: "'d \<Rightarrow> nat \<Rightarrow> (nat result \<times> 'd) option"
  v_destroy_handle_data :: "'d \<Rightarrow> nat \<Rightarrow> nat \<Rightarrow> (error_code \<times> nat \<times> 'd) option"
  v_on_handle_create :: "'d \<Rightarrow> nat \<Rightarrow> nat \<Rightarrow> (nat \<times> 'd) option"
  v_on_handle_destroy :: "'d \<Rightarrow> nat \<Rightarrow> nat \<Rightarrow> (nat \<times> 'd) option"

text \<open>The virtual functions that a driver does not override.\<close>

definition default_driver :: "'d driver" where
  "default_driver =
     \<lparr>v_find = (\<lambda>d x hdat n. None), v_create = (\<lambda>d x hdat n t. None), v_readdir = (\<lambda>d x hdat i. None),
      v_remove = (\<lambda>d x hdat n. None), v_get_device_type = (\<lambda>d x. Some DevNone),
      v_create_device = (\<lambda>d x hdat n dev. Some (Inl NotImplemented, hdat, d)),
      v_control_device = (\<lambda>d x hdat op. Some (NotImplemented, NoOutput, hdat, d)),
      v_create_handle_data = (\<lambda>d x. Some (Inr 0, d)), v_destroy_handle_data = (\<lambda>d x hdat. Some (Success, hdat, d)),
      v_on_handle_create = (\<lambda>d x hdat. Some (hdat, d)), v_on_handle_destroy = (\<lambda>d x hdat. Some (hdat, d))\<rparr>"

record handle =
  h_fop :: fptr
  h_data :: nat
  h_mode :: open_mode
  expired :: bool

record mount_record =
  mr_device :: string
  mr_path :: string
  mr_root :: fptr
  mr_handle :: handle
  mr_device_handle :: "handle option"
  mr_shared :: bool

record 'd fs =
  fops :: "fptr \<Rightarrow> file_operator option"
  next_fop :: fptr
  fs_root :: fptr
  devfs_root :: fptr
  dstate :: 'd
  stale_parent :: "fptr option"
  stale_data :: nat
  mount_records :: "mount_record list"

definition new_fop :: "nat \<Rightarrow> file_abstract_data \<Rightarrow> fptr option \<Rightarrow> file_operator" where
  "new_fop drv ad parent =
     \<lparr>f_driver = drv, f_driver_data = snd ad, f_filesize = fa_filesize (fst ad), f_parent = parent, f_mount = None,
      f_name = fa_name (fst ad), f_type = fa_type (fst ad), f_blocksize_exp = fa_blocksize_exp (fst ad),
      f_attributes = fa_attributes (fst ad), f_counts = no_count, f_children = []\<rparr>"

definition build_abstract :: "file_operator \<Rightarrow> file_abstract" where
  "build_abstract f =
     \<lparr>fa_name = f_name f, fa_filesize = f_filesize f, fa_type = f_type f, fa_blocksize_exp = f_blocksize_exp f,
      fa_attributes = f_attributes f\<rparr>"

definition is_busy :: "file_operator \<Rightarrow> bool" where
  "is_busy f \<longleftrightarrow>
     f_mount f \<noteq> None \<or> read_count (f_counts f) \<noteq> 0 \<or> write_count (f_counts f) \<noteq> 0 \<or> f_children f \<noteq> []"

definition put_fop :: "fptr \<Rightarrow> file_operator \<Rightarrow> 'd fs \<Rightarrow> 'd fs" where
  "put_fop p f s = s\<lparr>fops := (fops s)(p \<mapsto> f)\<rparr>"

text \<open>The loop of \<^verbatim>\<open>follow_mountpoints\<close> does not return on a cycle of mounts.\<close>

partial_function (option) follow_mountpoints :: "(fptr \<Rightarrow> file_operator option) \<Rightarrow> fptr \<Rightarrow> fptr option" where
  "follow_mountpoints m p =
     do { f \<leftarrow> m p; (case f_mount f of None \<Rightarrow> Some p | Some q \<Rightarrow> follow_mountpoints m q) }"

declare follow_mountpoints.simps [code]

definition fop_find ::
  "(nat \<Rightarrow> 'd driver) \<Rightarrow> 'd fs \<Rightarrow> fptr \<Rightarrow> nat \<Rightarrow> string \<Rightarrow> (file_abstract result \<times> nat \<times> 'd fs) option" where
  "fop_find D s p hdat name =
     do {
       f \<leftarrow> fops s p;
       (case map_of (f_children f) name of
          Some c \<Rightarrow> do { g \<leftarrow> fops s c; Some (Inr (build_abstract g), hdat, s) }
        | None \<Rightarrow> do {
            (r, hdat, d) \<leftarrow> v_find (D (f_driver f)) (dstate s) (f_driver_data f) hdat name;
            Some (case r of Inl e \<Rightarrow> Inl e | Inr ad \<Rightarrow> Inr (fst ad), hdat, s\<lparr>dstate := d\<rparr>) })
     }"

definition fop_remove ::
  "(nat \<Rightarrow> 'd driver) \<Rightarrow> 'd fs \<Rightarrow> fptr \<Rightarrow> nat \<Rightarrow> string \<Rightarrow> (error_code \<times> nat \<times> 'd fs) option" where
  "fop_remove D s p hdat name =
     do {
       f \<leftarrow> fops s p;
       (case map_of (f_children f) name of
          None \<Rightarrow> do {
            (e, hdat, d) \<leftarrow> v_remove (D (f_driver f)) (dstate s) (f_driver_data f) hdat name;
            Some (e, hdat, s\<lparr>dstate := d\<rparr>) }
        | Some c \<Rightarrow> do {
            g \<leftarrow> fops s c;
            if is_busy g then Some (FileOpened, hdat, s)
            else do {
              (e, hdat, d) \<leftarrow> v_remove (D (f_driver f)) (dstate s) (f_driver_data f) hdat name;
              let s = s\<lparr>dstate := d\<rparr>;
              if e \<noteq> Success then Some (e, hdat, s)
              else Some (Success, hdat,
                s\<lparr>fops := ((fops s)(p \<mapsto> f\<lparr>f_children := filter (\<lambda>c. fst c \<noteq> name) (f_children f)\<rparr>))(c := None)\<rparr>) } })
     }"

text \<open>\<^verbatim>\<open>prepare_fop\<close> returns a pointer to a child in the tree, or to the new operator in the storage of the caller.\<close>

datatype prepared = Existing fptr | Created file_operator

definition prepare_fop ::
  "(nat \<Rightarrow> 'd driver) \<Rightarrow> 'd fs \<Rightarrow> fptr \<Rightarrow> nat \<Rightarrow> string \<Rightarrow> (prepared result \<times> nat \<times> 'd fs) option" where
  "prepare_fop D s p hdat name =
     do {
       f \<leftarrow> fops s p;
       (case map_of (f_children f) name of
          Some c \<Rightarrow> do { q \<leftarrow> follow_mountpoints (fops s) c; Some (Inr (Existing q), hdat, s) }
        | None \<Rightarrow> do {
            (r, hdat, d) \<leftarrow> v_find (D (f_driver f)) (dstate s) (f_driver_data f) hdat name;
            Some (case r of
                Inl e \<Rightarrow> Inl e
              | Inr ad \<Rightarrow> Inr (Created (new_fop (f_driver f) ad (stale_parent s))), hdat, s\<lparr>dstate := d\<rparr>) })
     }"

text \<open>
  \<^verbatim>\<open>append_child\<close>: \<^verbatim>\<open>emplace\<close> inserts the child under its own name unless that name is already there, in which
  case the existing child is returned.
\<close>

definition append_child :: "fptr \<Rightarrow> file_operator \<Rightarrow> 'd fs \<Rightarrow> (fptr \<times> 'd fs) option" where
  "append_child p child s =
     do {
       f \<leftarrow> fops s p;
       (case map_of (f_children f) (f_name child) of
          Some c \<Rightarrow> Some (c, s)
        | None \<Rightarrow>
            let q = next_fop s in
            Some (q, s\<lparr>fops := (fops s)(p \<mapsto> f\<lparr>f_children := (f_name child, q) # f_children f\<rparr>, q \<mapsto> child),
                       next_fop := Suc q\<rparr>))
     }"

section \<open>Handles\<close>

text \<open>\<^verbatim>\<open>try_open\<close> on an operator of the tree.\<close>

definition try_open_fop :: "fptr \<Rightarrow> open_mode \<Rightarrow> 'd fs \<Rightarrow> (error_code \<times> 'd fs) option" where
  "try_open_fop p mode s =
     do {
       f \<leftarrow> fops s p;
       let (e, c) = try_open (f_attributes f) mode (f_counts f);
       Some (e, put_fop p (f\<lparr>f_counts := c\<rparr>) s)
     }"

text \<open>The constructor \<^verbatim>\<open>Handle(fop, mode)\<close>.\<close>

definition make_handle :: "(nat \<Rightarrow> 'd driver) \<Rightarrow> 'd fs \<Rightarrow> fptr \<Rightarrow> open_mode \<Rightarrow> ('d fs \<times> handle) option" where
  "make_handle D s p mode =
     do {
       f \<leftarrow> fops s p;
       (r, d) \<leftarrow> v_create_handle_data (D (f_driver f)) (dstate s) (f_driver_data f);
       (hdat, d) \<leftarrow> v_on_handle_create (D (f_driver f)) d (f_driver_data f) (case r of Inl e \<Rightarrow> stale_data s | Inr v \<Rightarrow> v);
       Some (s\<lparr>dstate := d\<rparr>, \<lparr>h_fop = p, h_data = hdat, h_mode = mode, expired = False\<rparr>)
     }"

text \<open>The operations of a handle return the handle, whose driver data the driver may have changed.\<close>

definition handle_open ::
  "(nat \<Rightarrow> 'd driver) \<Rightarrow> 'd fs \<Rightarrow> handle \<Rightarrow> string \<Rightarrow> open_mode \<Rightarrow> ('d fs \<times> handle \<times> handle result) option" where
  "handle_open D s h name mode =
     (if \<not> om_read (h_mode h) then Some (s, h, Inl FileNotOpened)
      else do {
        (r, hdat, s) \<leftarrow> prepare_fop D s (h_fop h) (h_data h) name;
        let h = h\<lparr>h_data := hdat\<rparr>;
        (case r of
           Inl e \<Rightarrow> Some (s, h, Inl e)
         | Inr (Existing q) \<Rightarrow> do {
             (e, s) \<leftarrow> try_open_fop q mode s;
             if e \<noteq> Success then Some (s, h, Inl e)
             else do { (s, n) \<leftarrow> make_handle D s q mode; Some (s, h, Inr n) } }
         | Inr (Created f) \<Rightarrow>
             let (e, c) = try_open (f_attributes f) mode (f_counts f) in
             if e \<noteq> Success then Some (s, h, Inl e)
             else do {
               (q, s) \<leftarrow> append_child (h_fop h) (f\<lparr>f_counts := c\<rparr>) s;
               (s, n) \<leftarrow> make_handle D s q mode;
               Some (s, h, Inr n) })
      })"

definition handle_find ::
  "(nat \<Rightarrow> 'd driver) \<Rightarrow> 'd fs \<Rightarrow> handle \<Rightarrow> string \<Rightarrow> ('d fs \<times> handle \<times> file_abstract result) option" where
  "handle_find D s h name =
     (if \<not> om_read (h_mode h) then Some (s, h, Inl FileNotOpened)
      else do { (r, hdat, s) \<leftarrow> fop_find D s (h_fop h) (h_data h) name; Some (s, h\<lparr>h_data := hdat\<rparr>, r) })"

definition handle_create ::
  "(nat \<Rightarrow> 'd driver) \<Rightarrow> 'd fs \<Rightarrow> handle \<Rightarrow> string \<Rightarrow> file_type \<Rightarrow> ('d fs \<times> handle \<times> error_code) option" where
  "handle_create D s h name type =
     (if \<not> om_write (h_mode h) then Some (s, h, FileNotOpened)
      else do {
        f \<leftarrow> fops s (h_fop h);
        (r, hdat, d) \<leftarrow> v_create (D (f_driver f)) (dstate s) (f_driver_data f) (h_data h) name type;
        Some (s\<lparr>dstate := d\<rparr>, h\<lparr>h_data := hdat\<rparr>, case r of Inl e \<Rightarrow> e | Inr _ \<Rightarrow> Success)
      })"

definition handle_readdir ::
  "(nat \<Rightarrow> 'd driver) \<Rightarrow> 'd fs \<Rightarrow> handle \<Rightarrow> nat \<Rightarrow> ('d fs \<times> handle \<times> file_abstract result) option" where
  "handle_readdir D s h index =
     (if \<not> om_read (h_mode h) then Some (s, h, Inl FileNotOpened)
      else do {
        f \<leftarrow> fops s (h_fop h);
        (r, hdat, d) \<leftarrow> v_readdir (D (f_driver f)) (dstate s) (f_driver_data f) (h_data h) index;
        Some (s\<lparr>dstate := d\<rparr>, h\<lparr>h_data := hdat\<rparr>, case r of Inl e \<Rightarrow> Inl e | Inr ad \<Rightarrow> Inr (fst ad))
      })"

definition handle_remove ::
  "(nat \<Rightarrow> 'd driver) \<Rightarrow> 'd fs \<Rightarrow> handle \<Rightarrow> string \<Rightarrow> ('d fs \<times> handle \<times> error_code) option" where
  "handle_remove D s h name =
     (if \<not> om_write (h_mode h) then Some (s, h, FileNotOpened)
      else do { (e, hdat, s) \<leftarrow> fop_remove D s (h_fop h) (h_data h) name; Some (s, h\<lparr>h_data := hdat\<rparr>, e) })"

definition handle_get_filesize :: "'d fs \<Rightarrow> handle \<Rightarrow> nat result option" where
  "handle_get_filesize s h =
     (if \<not> om_read (h_mode h) then Some (Inl FileNotOpened)
      else do { f \<leftarrow> fops s (h_fop h); Some (Inr (f_filesize f)) })"

definition handle_get_device_type :: "(nat \<Rightarrow> 'd driver) \<Rightarrow> 'd fs \<Rightarrow> handle \<Rightarrow> device_type result option" where
  "handle_get_device_type D s h =
     (if \<not> om_read (h_mode h) then Some (Inl FileNotOpened)
      else do {
        f \<leftarrow> fops s (h_fop h);
        if f_type f \<noteq> Device then Some (Inr DevNone)
        else do { t \<leftarrow> v_get_device_type (D (f_driver f)) (dstate s) (f_driver_data f); Some (Inr t) }
      })"

definition handle_get_blocksize :: "'d fs \<Rightarrow> handle \<Rightarrow> nat option" where
  "handle_get_blocksize s h = map_option (\<lambda>f. 2 ^ f_blocksize_exp f) (fops s (h_fop h))"

definition handle_create_device ::
  "(nat \<Rightarrow> 'd driver) \<Rightarrow> 'd fs \<Rightarrow> handle \<Rightarrow> string \<Rightarrow> nat \<Rightarrow> ('d fs \<times> handle \<times> file_abstract result) option" where
  "handle_create_device D s h name device_impl =
     (if \<not> om_write (h_mode h) then Some (s, h, Inl FileNotOpened)
      else do {
        f \<leftarrow> fops s (h_fop h);
        (r, hdat, d) \<leftarrow> v_create_device (D (f_driver f)) (dstate s) (f_driver_data f) (h_data h) name device_impl;
        Some (s\<lparr>dstate := d\<rparr>, h\<lparr>h_data := hdat\<rparr>, case r of Inl e \<Rightarrow> Inl e | Inr ad \<Rightarrow> Inr (fst ad))
      })"

definition handle_control_device ::
  "(nat \<Rightarrow> 'd driver) \<Rightarrow> 'd fs \<Rightarrow> handle \<Rightarrow> device_operation \<Rightarrow> ('d fs \<times> handle \<times> error_code \<times> control_output) option" where
  "handle_control_device D s h op =
     do {
       f \<leftarrow> fops s (h_fop h);
       (e, out, hdat, d) \<leftarrow> v_control_device (D (f_driver f)) (dstate s) (f_driver_data f) (h_data h) op;
       Some (s\<lparr>dstate := d\<rparr>, h\<lparr>h_data := hdat\<rparr>, e, out)
     }"

section \<open>Manager\<close>

text \<open>
  \<^verbatim>\<open>close\<close>. The loop that removes closed operators from the tree starts by reading \<^verbatim>\<open>parent\<close>, which no code
  assigns; it ends there when the stale value is null, ends when the operator is in use or kept, and follows the
  stale pointer otherwise.
\<close>

definition close :: "(nat \<Rightarrow> 'd driver) \<Rightarrow> 'd fs \<Rightarrow> handle \<Rightarrow> ('d fs \<times> handle) option" where
  "close D s h =
     (if expired h then Some (s, h)
      else do {
        let p = h_fop h;
        f \<leftarrow> fops s p;
        (hdat, d) \<leftarrow> v_on_handle_destroy (D (f_driver f)) (dstate s) (f_driver_data f) (h_data h);
        (e, hdat, d) \<leftarrow> v_destroy_handle_data (D (f_driver f)) d (f_driver_data f) hdat;
        let s = s\<lparr>dstate := d\<rparr>;
        let h = h\<lparr>h_data := hdat, expired := True\<rparr>;
        if e \<noteq> Success then Some (s, h)
        else do {
          let f = f\<lparr>f_counts := release_counts (h_mode h) (f_counts f)\<rparr>;
          let s = put_fop p f s;
          if f_parent f = None \<or> is_busy f \<or> volume_root (f_attributes f) \<or> keep_on_close (f_attributes f)
          then Some (s, h) else None }
      })"

definition open_root :: "(nat \<Rightarrow> 'd driver) \<Rightarrow> 'd fs \<Rightarrow> open_mode \<Rightarrow> ('d fs \<times> handle result) option" where
  "open_root D s mode =
     do {
       p \<leftarrow> follow_mountpoints (fops s) (fs_root s);
       (e, s) \<leftarrow> try_open_fop p mode s;
       if e \<noteq> Success then Some (s, Inl e)
       else do { (s, h) \<leftarrow> make_handle D s p mode; Some (s, Inr h) }
     }"

text \<open>The loop of \<^verbatim>\<open>open_parent_directory\<close>: open the next directory, close the current one.\<close>

fun open_directories ::
  "(nat \<Rightarrow> 'd driver) \<Rightarrow> 'd fs \<Rightarrow> handle \<Rightarrow> string list \<Rightarrow> ('d fs \<times> handle result) option" where
  "open_directories D s h [] = Some (s, Inr h)"
| "open_directories D s h (d # ds) =
     do {
       (s, h, r) \<leftarrow> handle_open D s h d open_ro;
       (s, _) \<leftarrow> close D s h;
       (case r of Inl e \<Rightarrow> Some (s, Inl e) | Inr h' \<Rightarrow> open_directories D s h' ds)
     }"

definition open_parent_directory ::
  "(nat \<Rightarrow> 'd driver) \<Rightarrow> 'd fs \<Rightarrow> string list \<Rightarrow> ('d fs \<times> handle result) option" where
  "open_parent_directory D s elms =
     (if elms = [] then open_root D s open_ro
      else do {
        (s, r) \<leftarrow> open_root D s open_ro;
        (case r of Inl e \<Rightarrow> Some (s, Inl e) | Inr h \<Rightarrow> open_directories D s h (butlast elms))
      })"

definition open_path ::
  "(nat \<Rightarrow> 'd driver) \<Rightarrow> 'd fs \<Rightarrow> string \<Rightarrow> open_mode \<Rightarrow> ('d fs \<times> handle result) option" where
  "open_path D s path mode =
     (let elms = split_path path in
      if elms = [] then open_root D s mode
      else do {
        (s, r) \<leftarrow> open_parent_directory D s elms;
        (case r of
           Inl e \<Rightarrow> Some (s, Inl e)
         | Inr parent \<Rightarrow> do {
             (s, parent, result) \<leftarrow> handle_open D s parent (last elms) mode;
             (s, _) \<leftarrow> close D s parent;
             Some (s, result) })
      })"

definition set_mount_driver ::
  "(nat \<Rightarrow> 'd driver) \<Rightarrow> 'd fs \<Rightarrow> string \<Rightarrow> fptr \<Rightarrow> ('d fs \<times> handle result) option" where
  "set_mount_driver D s path root =
     do {
       (s, r) \<leftarrow> open_path D s path open_rw;
       (case r of
          Inl e \<Rightarrow> Some (s, Inl e)
        | Inr h \<Rightarrow> do { f \<leftarrow> fops s (h_fop h); Some (put_fop (h_fop h) (f\<lparr>f_mount := Some root\<rparr>) s, Inr h) })
     }"

text \<open>A new operator for the root of a volume, owned by the mount record.\<close>

definition add_root :: "nat \<Rightarrow> file_abstract_data \<Rightarrow> 'd fs \<Rightarrow> fptr \<times> 'd fs" where
  "add_root drv ad s =
     (let q = next_fop s in (q, s\<lparr>fops := (fops s)(q \<mapsto> new_fop drv ad (stale_parent s)), next_fop := Suc q\<rparr>))"

text \<open>
  What \<^verbatim>\<open>mount\<close> needs of the other drivers: a new temporary file system, and the initialisation of a FAT driver
  on the handle of its device, each with the number and the root of the driver.
\<close>

record 'd volumes =
  new_tmpfs :: "'d \<Rightarrow> 'd \<times> nat \<times> file_abstract_data"
  init_fat :: "'d \<Rightarrow> handle \<Rightarrow> ('d \<times> (nat \<times> file_abstract_data) result) option"

definition mount ::
  "(nat \<Rightarrow> 'd driver) \<Rightarrow> 'd volumes \<Rightarrow> 'd fs \<Rightarrow> string \<Rightarrow> string \<Rightarrow> (error_code \<times> 'd fs) option" where
  "mount D V s device path =
     (let add = (\<lambda>root h dh shared s. s\<lparr>mount_records := mount_records s @
            [\<lparr>mr_device = device, mr_path = normalize_path path, mr_root = root, mr_handle = h, mr_device_handle = dh,
              mr_shared = shared\<rparr>]\<rparr>) in
      if device = ''devfs'' then do {
        (s, r) \<leftarrow> set_mount_driver D s path (devfs_root s);
        Some (case r of Inl e \<Rightarrow> (e, s) | Inr h \<Rightarrow> (Success, add (devfs_root s) h None True s)) }
      else if device = ''tmpfs'' then do {
        let (d, drv, ad) = new_tmpfs V (dstate s);
        let (root, s) = add_root drv ad (s\<lparr>dstate := d\<rparr>);
        (s, r) \<leftarrow> set_mount_driver D s path root;
        Some (case r of
           Inl e \<Rightarrow> (e, s\<lparr>fops := (fops s)(root := None)\<rparr>)
         | Inr h \<Rightarrow> (Success, add root h None False s)) }
      else do {
        (s, r) \<leftarrow> open_path D s device open_rw;
        (case r of
           Inl e \<Rightarrow> Some (e, s)
         | Inr dh \<Rightarrow> do {
             (d, r) \<leftarrow> init_fat V (dstate s) dh;
             let s = s\<lparr>dstate := d\<rparr>;
             (case r of
                Inl e \<Rightarrow> do { (s, _) \<leftarrow> close D s dh; Some (e, s) }
              | Inr (drv, ad) \<Rightarrow> do {
                  let (root, s) = add_root drv ad s;
                  (s, r) \<leftarrow> set_mount_driver D s path root;
                  (case r of
                     Inl e \<Rightarrow> do {
                       (s, _) \<leftarrow> close D (s\<lparr>fops := (fops s)(root := None)\<rparr>) dh;
                       Some (e, s) }
                   | Inr h \<Rightarrow> Some (Success, add root h (Some dh) False s)) }) }) })"

text \<open>The last record with the path, with the records before and after it.\<close>

fun split_last :: "('a \<Rightarrow> bool) \<Rightarrow> 'a list \<Rightarrow> ('a list \<times> 'a \<times> 'a list) option" where
  "split_last P [] = None"
| "split_last P (x # xs) =
     (case split_last P xs of
        Some (a, y, b) \<Rightarrow> Some (x # a, y, b)
      | None \<Rightarrow> if P x then Some ([], x, xs) else None)"

text \<open>
  \<^verbatim>\<open>unmount\<close>. Erasing a record that is not the last one assigns the following records over it; the assignment
  deletes the driver it overwrites and then the root, without looking at \<^verbatim>\<open>shared_driver\<close>. That is undefined when
  they are the members of the manager, and when the root has driver data, which its destructor hands to the
  driver that is already deleted.
\<close>

definition unmount :: "(nat \<Rightarrow> 'd driver) \<Rightarrow> 'd fs \<Rightarrow> string \<Rightarrow> (error_code \<times> 'd fs) option" where
  "unmount D s mountpoint_path =
     (case split_last (\<lambda>m. mr_path m = normalize_path mountpoint_path) (mount_records s) of
        None \<Rightarrow> Some (NotMounted, s)
      | Some (before, m, after) \<Rightarrow> do {
          f \<leftarrow> fops s (h_fop (mr_handle m));
          root \<leftarrow> f_mount f;
          g \<leftarrow> fops s root;
          if is_busy g then Some (VolumeBusy, s)
          else do {
            (s, _) \<leftarrow> close D (put_fop (h_fop (mr_handle m)) (f\<lparr>f_mount := None\<rparr>) s) (mr_handle m);
            if after \<noteq> [] \<and> (mr_shared m \<or> f_driver_data g \<noteq> 0) then None
            else do {
              let s = (if mr_shared m then s else s\<lparr>fops := (fops s)(mr_root m := None)\<rparr>);
              (s, _) \<leftarrow> (case mr_device_handle m of None \<Rightarrow> Some (s, mr_handle m) | Some dh \<Rightarrow> close D s dh);
              Some (Success, s\<lparr>mount_records := before @ after\<rparr>) } } })"

text \<open>The result of creating the device file is ignored.\<close>

definition create_device_file ::
  "(nat \<Rightarrow> 'd driver) \<Rightarrow> 'd fs \<Rightarrow> string \<Rightarrow> nat \<Rightarrow> (error_code \<times> 'd fs) option" where
  "create_device_file D s name device_impl =
     do {
       (s, r) \<leftarrow> open_path D s ''/dev'' open_rw;
       (case r of
          Inl e \<Rightarrow> Some (e, s)
        | Inr dev \<Rightarrow> do {
            (s, dev, _) \<leftarrow> handle_create_device D s dev name device_impl;
            (s, _) \<leftarrow> close D s dev;
            Some (Success, s) })
     }"

definition get_mounts :: "'d fs \<Rightarrow> (string \<times> string) list" where
  "get_mounts s = map (\<lambda>m. (mr_device m, mr_path m)) (mount_records s)"

section \<open>Paths\<close>

lemma split_path_Cons:
  assumes "e \<noteq> []" "CHR ''/'' \<notin> set e" "rest = [] \<or> hd rest = CHR ''/''"
  shows "split_path (CHR ''/'' # e @ rest) = e # split_path rest"
proof -
  obtain c cs where e: "e = c # cs" using assms(1) by (cases e) auto
  have c: "c \<noteq> CHR ''/''" "CHR ''/'' \<notin> set cs" using assms(2) by (auto simp: e)
  have "takeWhile (\<lambda>c. c \<noteq> CHR ''/'') (e @ rest) = e" "dropWhile (\<lambda>c. c \<noteq> CHR ''/'') (e @ rest) = rest"
    using assms(2,3) by (cases rest; auto simp: takeWhile_append dropWhile_append)+
  moreover have "dropWhile (\<lambda>c. c = CHR ''/'') (CHR ''/'' # e @ rest) = c # cs @ rest"
    using c by (simp add: e)
  ultimately show ?thesis
    by (subst split_path.simps) (simp add: e)
qed

lemma split_path_Nil [simp]: "split_path [] = []"
  by (subst split_path.simps) simp

lemma split_path_slash: "split_path [CHR ''/''] = []"
  by (subst split_path.simps) simp

lemma join_path_hd: "join_path es = [] \<or> hd (join_path es) = CHR ''/''"
  by (cases es) auto

lemma split_join:
  "(\<And>e. e \<in> set es \<Longrightarrow> e \<noteq> [] \<and> CHR ''/'' \<notin> set e) \<Longrightarrow> split_path (join_path es) = es"
proof (induction es)
  case (Cons e es)
  then show ?case
    using split_path_Cons [of e "join_path es"] join_path_hd [of es] by simp
qed simp

lemma split_path_elements: "e \<in> set (split_path path) \<Longrightarrow> e \<noteq> [] \<and> CHR ''/'' \<notin> set e"
proof (induction path rule: split_path.induct)
  case (1 path)
  show ?case
  proof (cases "dropWhile (\<lambda>c. c = CHR ''/'') path")
    case Nil
    then have "split_path path = []" by (simp only: split_path.simps [of path] list.case)
    then show ?thesis using 1 by simp
  next
    case (Cons c cs)
    then have "c \<noteq> CHR ''/''"
      using hd_dropWhile [of "\<lambda>c. c = CHR ''/''" path] by auto
    then have "takeWhile (\<lambda>c. c \<noteq> CHR ''/'') (c # cs) \<noteq> []" "CHR ''/'' \<notin> set (takeWhile (\<lambda>c. c \<noteq> CHR ''/'') (c # cs))"
      using set_takeWhileD [of "CHR ''/''" "\<lambda>c. c \<noteq> CHR ''/''" "c # cs"] by auto
    moreover have "split_path path = takeWhile (\<lambda>c. c \<noteq> CHR ''/'') (c # cs) #
        split_path (dropWhile (\<lambda>c. c \<noteq> CHR ''/'') (c # cs))"
      using Cons by (subst split_path.simps) simp
    ultimately show ?thesis
      using 1 Cons by (metis set_ConsD)
  qed
qed

lemma split_normalize: "split_path (normalize_path path) = split_path path"
  using split_join [of "split_path path"] split_path_elements
  by (auto simp: normalize_path_def Let_def split_path_slash)

text \<open>
  \<^verbatim>\<open>normalize_path\<close> keeps the elements of a path, is idempotent, and two paths have the same normal form exactly
  when they split into the same elements, so that \<^verbatim>\<open>unmount\<close> finds a mount whatever separators the caller wrote.
\<close>

theorem normalize_path_canonical:
  "split_path (normalize_path path) = split_path path \<and> normalize_path (normalize_path path) = normalize_path path \<and>
   (normalize_path path = normalize_path path') = (split_path path = split_path path')"
proof (intro conjI)
  show "(normalize_path path = normalize_path path') = (split_path path = split_path path')"
    using split_normalize [of path] split_normalize [of path'] unfolding normalize_path_def by metis
  show "normalize_path (normalize_path path) = normalize_path path"
    using split_normalize [of path] unfolding normalize_path_def by metis
qed (rule split_normalize)

end
