(* ===== verification/Fs_Handles.thy ===== *)
theory Fs_Handles
  imports Fs_Manager
begin

text \<open>
  The invariant of the tree of operators: the counts of an operator are the numbers of the open handles on it,
  no handle and no child refers to a deleted operator, and following the mounts ends. Opening and closing keep it.
\<close>

section \<open>Counts and handles\<close>

definition readers_of :: "fptr \<Rightarrow> (fptr \<times> open_mode) list \<Rightarrow> nat" where
  "readers_of p hs = length (filter (\<lambda>h. fst h = p \<and> om_read (snd h)) hs)"

definition writers_of :: "fptr \<Rightarrow> (fptr \<times> open_mode) list \<Rightarrow> nat" where
  "writers_of p hs = length (filter (\<lambda>h. fst h = p \<and> om_write (snd h)) hs)"

definition counted :: "fptr \<Rightarrow> (fptr \<times> open_mode) list \<Rightarrow> count \<Rightarrow> bool" where
  "counted p hs c \<longleftrightarrow> unat (read_count c) = readers_of p hs \<and> unat (write_count c) = writers_of p hs"

lemma readers_writers_le: "readers_of p hs \<le> length hs" "writers_of p hs \<le> length hs"
  by (simp_all add: readers_of_def writers_of_def)

lemma counted_open:
  assumes "counted p hs c" "try_open a mode c = (Success, c')" "length hs + 1 < 2 ^ 32"
  shows "counted p ((p, mode) # hs) c'"
proof -
  have "unat (read_count c) + 1 < 2 ^ 32" "unat (write_count c) + 1 < 2 ^ 32"
    using assms(1,3) readers_writers_le [of p hs] unfolding counted_def by linarith+
  then have "unat (read_count c + 1) = unat (read_count c) + 1" "unat (write_count c + 1) = unat (write_count c) + 1"
    by (simp_all only: unat_Suc_u32)
  moreover have "c' = \<lparr> read_count = (if om_read mode then read_count c + 1 else read_count c),
      write_count = (if om_write mode then write_count c + 1 else write_count c) \<rparr>"
    using assms(2) by (simp add: try_open_def Let_def split: if_split_asm)
  ultimately show ?thesis
    using assms(1) by (simp add: counted_def readers_of_def writers_of_def)
qed

lemma counted_other: "p \<noteq> q \<Longrightarrow> counted q ((p, mode) # hs) c \<longleftrightarrow> counted q hs c"
  by (simp add: counted_def readers_of_def writers_of_def)

lemma counted_close:
  assumes "counted p ((p, mode) # hs) c"
  shows "counted p hs (release_counts mode c)"
  using assms unat_pred_u32 [of "read_count c"] unat_pred_u32 [of "write_count c"]
  by (auto simp: counted_def readers_of_def writers_of_def release_counts_def split: if_split_asm)

lemma try_open_error: "try_open a mode c = (e, c') \<Longrightarrow> e \<noteq> Success \<Longrightarrow> c' = c"
  by (auto simp: try_open_def Let_def split: if_split_asm)

section \<open>Mount points\<close>

text \<open>Following mount points only reads the mounts: it gives the same in a store that keeps them.\<close>

lemma follow_induct:
  assumes "follow_mountpoints m p = Some q"
    "\<And>p f. m p = Some f \<Longrightarrow> f_mount f = None \<Longrightarrow> P p p"
    "\<And>p f r q. m p = Some f \<Longrightarrow> f_mount f = Some r \<Longrightarrow> follow_mountpoints m r = Some q \<Longrightarrow> P r q \<Longrightarrow> P p q"
  shows "P p q"
proof -
  have "follow_mountpoints m p = Some q \<and> P p q"
  proof (rule follow_mountpoints.raw_induct [where P = "\<lambda>n p q. n = m \<longrightarrow> follow_mountpoints m p = Some q \<and> P p q", THEN mp])
    fix follow n p q
    assume IH: "\<And>n p q. follow n p = Some q \<Longrightarrow> n = m \<longrightarrow> follow_mountpoints m p = Some q \<and> P p q"
    assume step: "Option.bind (n p) (\<lambda>f. case f_mount f of None \<Rightarrow> Some p | Some r \<Rightarrow> follow n r) = Some q"
    show "n = m \<longrightarrow> follow_mountpoints m p = Some q \<and> P p q"
    proof
      assume "n = m"
      with step obtain f where f: "m p = Some f" "(case f_mount f of None \<Rightarrow> Some p | Some r \<Rightarrow> follow m r) = Some q"
        by (auto simp: bind_eq_Some_conv)
      show "follow_mountpoints m p = Some q \<and> P p q"
      proof (cases "f_mount f")
        case None
        then show ?thesis
          using f assms(2) by (subst follow_mountpoints.simps) auto
      next
        case (Some r)
        then have "follow_mountpoints m r = Some q \<and> P r q" using f(2) IH [of m r q] by simp
        then show ?thesis
          using f Some assms(3) [of p f r q] by (subst follow_mountpoints.simps) simp
      qed
    qed
  qed (use assms(1) in simp_all)
  then show ?thesis ..
qed

lemma follow_end: "m p = Some f \<Longrightarrow> f_mount f = None \<Longrightarrow> follow_mountpoints m p = Some p"
  by (subst follow_mountpoints.simps) simp

lemma follow_result: "follow_mountpoints m p = Some q \<Longrightarrow> \<exists>f. m q = Some f \<and> f_mount f = None"
  by (erule follow_induct) auto

lemma follow_mono:
  assumes "follow_mountpoints m p = Some q" "\<And>x f. m x = Some f \<Longrightarrow> \<exists>f'. m' x = Some f' \<and> f_mount f' = f_mount f"
  shows "follow_mountpoints m' p = Some q"
  using assms(1)
proof (rule follow_induct)
  fix p f
  assume "m p = Some f" "f_mount f = None"
  then show "follow_mountpoints m' p = Some p" using assms(2) follow_end by metis
next
  fix p f r q
  assume "m p = Some f" "f_mount f = Some r" "follow_mountpoints m' r = Some q"
  moreover from this obtain f' where "m' p = Some f'" "f_mount f' = Some r" using assms(2) by metis
  ultimately show "follow_mountpoints m' p = Some q" by (subst follow_mountpoints.simps) simp
qed

text \<open>A volume mounted on its own root makes the loop of \<^verbatim>\<open>follow_mountpoints\<close> run for ever.\<close>

lemma follow_self_mount:
  assumes "m p = Some f" "f_mount f = Some p"
  shows "follow_mountpoints m p = None"
proof (rule ccontr)
  assume "follow_mountpoints m p \<noteq> None"
  then obtain q where "follow_mountpoints m p = Some q" by blast
  then have "p \<noteq> p" by (rule follow_induct [where P = "\<lambda>x _. x \<noteq> p"]) (use assms in auto)
  then show False by simp
qed

section \<open>The contract of a driver\<close>

text \<open>
  What the tree relies on. \<open>valid i d x\<close> says that \<open>x\<close> is driver data that driver \<open>i\<close> accepts when the state of
  the drivers is \<open>d\<close>. On valid data the functions return, keep all valid data valid, hand out valid data, and \<^verbatim>\<open>find\<close>
  returns the file with the name that was asked for.
\<close>

definition keeps :: "(nat \<Rightarrow> 'd \<Rightarrow> nat \<Rightarrow> bool) \<Rightarrow> 'd \<Rightarrow> 'd \<Rightarrow> bool" where
  "keeps valid d d' \<longleftrightarrow> (\<forall>i x. valid i d x \<longrightarrow> valid i d' x)"

lemma keeps_refl [simp, intro]: "keeps valid d d"
  by (simp add: keeps_def)

lemma keeps_trans: "keeps valid d d' \<Longrightarrow> keeps valid d' d'' \<Longrightarrow> keeps valid d d''"
  by (simp add: keeps_def)

locale driver_contract =
  fixes D :: "nat \<Rightarrow> 'd driver" and valid :: "nat \<Rightarrow> 'd \<Rightarrow> nat \<Rightarrow> bool"
  assumes find_contract: "valid i d x \<Longrightarrow> \<exists>r k' d'. v_find (D i) d x k name = Some (r, k', d') \<and> keeps valid d d' \<and>
      (\<forall>ad. r = Inr ad \<longrightarrow> fa_name (fst ad) = name \<and> valid i d' (snd ad))"
    and create_contract: "valid i d x \<Longrightarrow> \<exists>r k' d'. v_create (D i) d x k name type = Some (r, k', d') \<and> keeps valid d d'"
    and create_handle_data_contract: "valid i d x \<Longrightarrow> \<exists>r d'. v_create_handle_data (D i) d x = Some (r, d') \<and> keeps valid d d'"
    and destroy_handle_data_contract: "valid i d x \<Longrightarrow> \<exists>k' d'. v_destroy_handle_data (D i) d x k = Some (Success, k', d') \<and> keeps valid d d'"
    and on_handle_create_contract: "valid i d x \<Longrightarrow> \<exists>k' d'. v_on_handle_create (D i) d x k = Some (k', d') \<and> keeps valid d d'"
    and on_handle_destroy_contract: "valid i d x \<Longrightarrow> \<exists>k' d'. v_on_handle_destroy (D i) d x k = Some (k', d') \<and> keeps valid d d'"

section \<open>The invariant of the tree\<close>

text \<open>
  The operators in the store are counted by the open handles and have valid driver data, every handle is on an
  operator of the store, and so is every child; following the mounts from any operator ends. The constructors find
  a null pointer in \<^verbatim>\<open>parent\<close>. The operators of \<open>R\<close> are roots of volumes that are not mounted: nothing refers to
  them.
\<close>

definition fop_ok ::
  "(nat \<Rightarrow> 'd \<Rightarrow> nat \<Rightarrow> bool) \<Rightarrow> fptr set \<Rightarrow> 'd fs \<Rightarrow> (fptr \<times> open_mode) list \<Rightarrow> fptr \<Rightarrow> file_operator \<Rightarrow> bool" where
  "fop_ok valid R s hs p f \<longleftrightarrow>
     p < next_fop s \<and> f_parent f = None \<and> counted p hs (f_counts f) \<and> follow_mountpoints (fops s) p \<noteq> None \<and>
     valid (f_driver f) (dstate s) (f_driver_data f) \<and>
     (\<forall>n c. map_of (f_children f) n = Some c \<longrightarrow> fops s c \<noteq> None \<and> c \<notin> R) \<and> (\<forall>q. f_mount f = Some q \<longrightarrow> q \<notin> R)"

definition fs_inv :: "(nat \<Rightarrow> 'd \<Rightarrow> nat \<Rightarrow> bool) \<Rightarrow> fptr set \<Rightarrow> 'd fs \<Rightarrow> (fptr \<times> open_mode) list \<Rightarrow> bool" where
  "fs_inv valid R s hs \<longleftrightarrow>
     stale_parent s = None \<and> fops s (fs_root s) \<noteq> None \<and> fs_root s \<notin> R \<and>
     (\<forall>r \<in> R. \<exists>g. fops s r = Some g \<and> f_mount g = None) \<and> (\<forall>h \<in> set hs. fops s (fst h) \<noteq> None \<and> fst h \<notin> R) \<and>
     (\<forall>p f. fops s p = Some f \<longrightarrow> fop_ok valid R s hs p f)"

text \<open>What opening and closing keep of the operators: they only gain children and change counts.\<close>

definition same_fop :: "file_operator \<Rightarrow> file_operator \<Rightarrow> bool" where
  "same_fop f f' \<longleftrightarrow> f_driver f' = f_driver f \<and> f_driver_data f' = f_driver_data f \<and> f_mount f' = f_mount f \<and>
     set (f_children f) \<subseteq> set (f_children f')"

definition evolves :: "(nat \<Rightarrow> 'd \<Rightarrow> nat \<Rightarrow> bool) \<Rightarrow> 'd fs \<Rightarrow> 'd fs \<Rightarrow> bool" where
  "evolves valid s s' \<longleftrightarrow> mount_records s' = mount_records s \<and> devfs_root s' = devfs_root s \<and>
     keeps valid (dstate s) (dstate s') \<and>
     (\<forall>p f. fops s p = Some f \<longrightarrow> (\<exists>f'. fops s' p = Some f' \<and> same_fop f f'))"

lemma evolves_refl: "evolves valid s s"
  by (simp add: evolves_def same_fop_def)

lemma evolves_fop: "evolves valid s s' \<Longrightarrow> fops s p = Some f \<Longrightarrow> \<exists>f'. fops s' p = Some f' \<and> same_fop f f'"
  by (simp add: evolves_def)

lemma same_fop_trans: "same_fop f g \<Longrightarrow> same_fop g h \<Longrightarrow> same_fop f h"
  by (auto simp: same_fop_def)

lemma evolves_trans:
  assumes "evolves valid s s'" "evolves valid s' s''"
  shows "evolves valid s s''"
proof -
  have "\<exists>f''. fops s'' p = Some f'' \<and> same_fop f f''" if "fops s p = Some f" for p f
    using evolves_fop [OF assms(1) that] evolves_fop [OF assms(2)] same_fop_trans by blast
  then show ?thesis
    using assms keeps_trans unfolding evolves_def by fastforce
qed

lemma evolves_live: "evolves valid s s' \<Longrightarrow> fops s p \<noteq> None \<Longrightarrow> fops s' p \<noteq> None"
  using evolves_fop by fastforce

lemma evolves_dstate: "evolves valid s s' \<Longrightarrow> keeps valid (dstate s') d \<Longrightarrow> evolves valid s (s'\<lparr>dstate := d\<rparr>)"
  using keeps_trans by (fastforce simp: evolves_def)

lemma evolves_self_dstate: "keeps valid (dstate s) d \<Longrightarrow> evolves valid s (s\<lparr>dstate := d\<rparr>)"
  by (rule evolves_dstate [OF evolves_refl])

lemma fs_inv_fop: "fs_inv valid R s hs \<Longrightarrow> fops s p = Some f \<Longrightarrow> fop_ok valid R s hs p f"
  by (simp add: fs_inv_def)

lemma fs_inv_dstate:
  assumes "fs_inv valid R s hs" "keeps valid (dstate s) d"
  shows "fs_inv valid R (s\<lparr>dstate := d\<rparr>) hs"
proof -
  have "fop_ok valid R (s\<lparr>dstate := d\<rparr>) hs p f" if "fops s p = Some f" for p f
    using fs_inv_fop [OF assms(1) that] assms(2) by (auto simp: fop_ok_def keeps_def)
  then show ?thesis using assms(1) by (auto simp: fs_inv_def)
qed

lemma fs_inv_swap: "fs_inv valid R s (a # b # hs) \<longleftrightarrow> fs_inv valid R s (b # a # hs)"
proof -
  have "counted p (a # b # hs) c \<longleftrightarrow> counted p (b # a # hs) c" for p c
    by (simp add: counted_def readers_of_def writers_of_def)
  then show ?thesis
    by (auto simp: fs_inv_def fop_ok_def)
qed

lemma fs_inv_live: "fs_inv valid R s hs \<Longrightarrow> h \<in> set hs \<Longrightarrow> (\<exists>f. fops s (fst h) = Some f) \<and> fst h \<notin> R"
  by (auto simp: fs_inv_def)

text \<open>Replacing the counts of one operator, when the list of handles changes only there.\<close>

lemma fs_inv_put:
  assumes inv: "fs_inv valid R s hs" and f: "fops s p = Some f" and c: "counted p hs' c"
    and other: "\<And>q c. q \<noteq> p \<Longrightarrow> counted q hs' c \<longleftrightarrow> counted q hs c"
    and handles: "\<And>h. h \<in> set hs' \<Longrightarrow> fst h = p \<and> p \<notin> R \<or> h \<in> set hs"
  shows "fs_inv valid R (put_fop p (f\<lparr>f_counts := c\<rparr>) s) hs' \<and> evolves valid s (put_fop p (f\<lparr>f_counts := c\<rparr>) s)"
proof -
  let ?s = "put_fop p (f\<lparr>f_counts := c\<rparr>) s"
  have "\<exists>g'. fops ?s x = Some g' \<and> f_mount g' = f_mount g" if "fops s x = Some g" for x g
    using that f by (auto simp: put_fop_def)
  from follow_mono [OF _ this]
  have follow: "follow_mountpoints (fops s) q \<noteq> None \<Longrightarrow> follow_mountpoints (fops ?s) q \<noteq> None" for q
    by fastforce
  have live: "fops s q \<noteq> None \<Longrightarrow> fops ?s q \<noteq> None" for q by (simp add: put_fop_def)
  have "fop_ok valid R ?s hs' q g" if "fops ?s q = Some g" for q g
  proof (cases "q = p")
    case True
    then have "fop_ok valid R s hs q f" "g = f\<lparr>f_counts := c\<rparr>" using that fs_inv_fop [OF inv f] by (auto simp: put_fop_def)
    then show ?thesis using True c follow [of q] live unfolding fop_ok_def by (auto simp: put_fop_def)
  next
    case False
    then have "fop_ok valid R s hs q g" using that fs_inv_fop [OF inv, of q g] by (simp add: put_fop_def)
    then show ?thesis using False other follow [of q] live unfolding fop_ok_def by (auto simp: put_fop_def)
  qed
  moreover have "\<forall>h \<in> set hs'. fops ?s (fst h) \<noteq> None \<and> fst h \<notin> R"
    using handles fs_inv_live [OF inv] f by (fastforce simp: put_fop_def)
  moreover have "\<forall>r \<in> R. \<exists>g. fops ?s r = Some g \<and> f_mount g = None"
    using inv f by (fastforce simp: fs_inv_def put_fop_def)
  ultimately have "fs_inv valid R ?s hs'"
    using inv by (auto simp: fs_inv_def put_fop_def)
  moreover have "evolves valid s ?s" using f by (auto simp: evolves_def put_fop_def same_fop_def)
  ultimately show ?thesis ..
qed

lemma try_open_fop_inv:
  assumes "fs_inv valid R s hs" "fops s p = Some f" "p \<notin> R" "length hs + 1 < 2 ^ 32"
  obtains e s' where "try_open_fop p mode s = Some (e, s')" "evolves valid s s'"
    "fs_inv valid R s' (if e = Success then (p, mode) # hs else hs)"
proof -
  obtain e c where t: "try_open (f_attributes f) mode (f_counts f) = (e, c)" by fastforce
  have old: "counted p hs (f_counts f)" using fs_inv_fop [OF assms(1,2)] by (simp add: fop_ok_def)
  have new: "counted p (if e = Success then (p, mode) # hs else hs) c"
    using old counted_open [OF old _ assms(4)] t try_open_error [OF t] by auto
  have "fs_inv valid R (put_fop p (f\<lparr>f_counts := c\<rparr>) s) (if e = Success then (p, mode) # hs else hs) \<and>
      evolves valid s (put_fop p (f\<lparr>f_counts := c\<rparr>) s)"
    by (rule fs_inv_put [OF assms(1,2) new]) (use assms(3) in \<open>auto simp: counted_other split: if_splits\<close>)
  then show ?thesis
    using that [of e "put_fop p (f\<lparr>f_counts := c\<rparr>) s"] assms(2) t by (simp add: try_open_fop_def)
qed

definition unmounted :: "'d fs \<Rightarrow> fptr \<Rightarrow> bool" where
  "unmounted s p \<longleftrightarrow> (\<exists>f. fops s p = Some f \<and> f_mount f = None)"

lemma unmounted_evolves: "unmounted s p \<Longrightarrow> evolves valid s s' \<Longrightarrow> unmounted s' p"
  using evolves_fop by (fastforce simp: unmounted_def same_fop_def)

lemma unmounted_dstate [simp]: "unmounted (s\<lparr>dstate := d\<rparr>) p \<longleftrightarrow> unmounted s p"
  by (simp add: unmounted_def)

lemma follow_attached:
  assumes "fs_inv valid R s hs" "follow_mountpoints (fops s) p = Some q" "p \<notin> R"
  shows "unmounted s q" "q \<notin> R"
proof -
  have "p \<notin> R \<longrightarrow> q \<notin> R"
    using assms(2) by (rule follow_induct) (use fs_inv_fop [OF assms(1)] in \<open>auto simp: fop_ok_def\<close>)
  then show "q \<notin> R" using assms(3) by simp
  show "unmounted s q" using follow_result [OF assms(2)] by (simp add: unmounted_def)
qed

text \<open>A new child in the store, with one handle.\<close>

lemma fs_inv_child:
  assumes inv: "fs_inv valid R s hs" and f: "fops s p = Some f" "map_of (f_children f) n = None"
    and child: "f_parent child = None" "f_mount child = None" "f_children child = []"
      "counted (next_fop s) [(next_fop s, mode)] (f_counts child)"
      "valid (f_driver child) (dstate s) (f_driver_data child)"
    and s': "s' = s\<lparr>fops := (fops s)(p \<mapsto> f\<lparr>f_children := (n, next_fop s) # f_children f\<rparr>, next_fop s \<mapsto> child),
                       next_fop := Suc (next_fop s)\<rparr>"
  shows "fs_inv valid R s' ((next_fop s, mode) # hs) \<and> evolves valid s s'"
proof -
  let ?q = "next_fop s"
  have below: "fops s x = Some g \<Longrightarrow> x < ?q" for x g using fs_inv_fop [OF inv] by (auto simp: fop_ok_def)
  have fresh: "fops s ?q = None" "p \<noteq> ?q" using below [of ?q] below [OF f(1)] by (cases "fops s ?q"; auto)+
  then have detached: "?q \<notin> R" using inv by (auto simp: fs_inv_def)
  have "fst h \<noteq> ?q" if "h \<in> set hs" for h using fs_inv_live [OF inv that] fresh by auto
  then have q: "counted ?q ((?q, mode) # hs) (f_counts child)"
    using child(4) by (auto simp: counted_def readers_of_def writers_of_def filter_empty_conv)
  have mounts: "\<exists>g'. fops s' x = Some g' \<and> f_mount g' = f_mount g" if "fops s x = Some g" for x g
    using that f(1) below [OF that] by (auto simp: s')
  have follow: "follow_mountpoints (fops s) x \<noteq> None \<Longrightarrow> follow_mountpoints (fops s') x \<noteq> None" for x
    using follow_mono [OF _ mounts] by fastforce
  have live: "fops s x \<noteq> None \<Longrightarrow> fops s' x \<noteq> None" for x by (auto simp: s')
  have "fop_ok valid R s' ((?q, mode) # hs) x g" if g: "fops s' x = Some g" for x g
  proof (cases "x = ?q")
    case True
    then have "g = child" "follow_mountpoints (fops s') x = Some x" using g child(2) follow_end [of "fops s'" x g] by (auto simp: s')
    then show ?thesis using True q child by (simp add: fop_ok_def s')
  next
    case False
    define g0 where "g0 = (if x = p then f else g)"
    have g0: "fops s x = Some g0" "f_counts g = f_counts g0" "f_parent g = f_parent g0" "f_mount g = f_mount g0"
        "f_driver g = f_driver g0" "f_driver_data g = f_driver_data g0"
        "\<And>m c. map_of (f_children g) m = Some c \<Longrightarrow> map_of (f_children g0) m = Some c \<or> c = ?q"
      using g f(1) False by (auto simp: s' g0_def split: if_splits)
    have "fops s' ?q \<noteq> None" by (simp add: s')
    then have "\<forall>m c. map_of (f_children g) m = Some c \<longrightarrow> fops s' c \<noteq> None \<and> c \<notin> R"
      using fs_inv_fop [OF inv g0(1)] g0(7) live detached unfolding fop_ok_def by metis
    then show ?thesis
      using fs_inv_fop [OF inv g0(1)] g0 False follow by (simp add: fop_ok_def counted_other s' less_Suc_eq)
  qed
  moreover have "\<forall>h \<in> set ((?q, mode) # hs). fops s' (fst h) \<noteq> None \<and> fst h \<notin> R"
    using fs_inv_live [OF inv] live detached by (fastforce simp: s')
  moreover have "\<forall>r \<in> R. \<exists>g. fops s' r = Some g \<and> f_mount g = None" using inv mounts by (fastforce simp: fs_inv_def)
  ultimately have "fs_inv valid R s' ((?q, mode) # hs)"
    using inv by (simp add: fs_inv_def s')
  moreover have "evolves valid s s'"
    using f below by (fastforce simp: evolves_def s' same_fop_def)
  ultimately show ?thesis ..
qed

lemma counted_new:
  assumes "try_open a mode no_count = (Success, c)"
  shows "counted q [(q, mode)] c"
  by (rule counted_open [OF _ assms]) (simp_all add: counted_def readers_of_def writers_of_def no_count_def)

text \<open>The result of an open: the new handle is on the list exactly when there is one.\<close>

definition opened ::
  "(nat \<Rightarrow> 'd \<Rightarrow> nat \<Rightarrow> bool) \<Rightarrow> fptr set \<Rightarrow> 'd fs \<Rightarrow> (fptr \<times> open_mode) list \<Rightarrow> open_mode \<Rightarrow> 'd fs \<times> handle result \<Rightarrow> bool" where
  "opened valid R s hs mode sr \<longleftrightarrow> evolves valid s (fst sr) \<and>
     (case snd sr of
        Inl e \<Rightarrow> fs_inv valid R (fst sr) hs
      | Inr h \<Rightarrow> fs_inv valid R (fst sr) ((h_fop h, mode) # hs) \<and> h_mode h = mode \<and> \<not> expired h \<and>
          unmounted (fst sr) (h_fop h))"

lemma openedE:
  assumes "opened valid R s hs mode sr"
  obtains s' e where "sr = (s', Inl e)" "fs_inv valid R s' hs" "evolves valid s s'"
  | s' h where "sr = (s', Inr h)" "fs_inv valid R s' ((h_fop h, mode) # hs)" "h_mode h = mode" "\<not> expired h"
      "evolves valid s s'" "unmounted s' (h_fop h)"
  using assms by (cases sr; cases "snd sr") (auto simp: opened_def)

lemma opened_later: "evolves valid s s' \<Longrightarrow> opened valid R s' hs mode sr \<Longrightarrow> opened valid R s hs mode sr"
  using evolves_trans by (fastforce simp: opened_def)

section \<open>Opening and closing keep the invariant\<close>

definition same_handle :: "handle \<Rightarrow> handle \<Rightarrow> bool" where
  "same_handle h h' \<longleftrightarrow> h_fop h' = h_fop h \<and> h_mode h' = h_mode h \<and> expired h' = expired h"

lemma same_handle_data [simp]: "same_handle h h" "same_handle h (h\<lparr>h_data := k\<rparr>)"
  by (simp_all add: same_handle_def)

context driver_contract
begin

lemma make_handle_inv:
  assumes "fops s p = Some f" "valid (f_driver f) (dstate s) (f_driver_data f)"
  obtains d h where "make_handle D s p mode = Some (s\<lparr>dstate := d\<rparr>, h)" "h_fop h = p" "h_mode h = mode" "\<not> expired h"
    "keeps valid (dstate s) d"
proof -
  obtain r d where r: "v_create_handle_data (D (f_driver f)) (dstate s) (f_driver_data f) = Some (r, d)" "keeps valid (dstate s) d"
    using create_handle_data_contract [OF assms(2)] by blast
  then have "valid (f_driver f) d (f_driver_data f)" using assms(2) by (simp add: keeps_def)
  from on_handle_create_contract [OF this] obtain k d' where
    "v_on_handle_create (D (f_driver f)) d (f_driver_data f) (case r of Inl e \<Rightarrow> stale_data s | Inr v \<Rightarrow> v) = Some (k, d')"
    "keeps valid d d'" by blast
  with r that assms(1) keeps_trans show ?thesis by (fastforce simp: make_handle_def)
qed

lemma open_fop_inv:
  assumes "fs_inv valid R s hs" "unmounted s p" "p \<notin> R" "length hs + 1 < 2 ^ 32"
  shows "\<exists>sr. do { (e, s) \<leftarrow> try_open_fop p mode s;
                   if e \<noteq> Success then Some (s, Inl e)
                   else do { (s, h) \<leftarrow> make_handle D s p mode; Some (s, Inr h) } } = Some sr \<and> opened valid R s hs mode sr"
proof -
  obtain f where "fops s p = Some f" using assms(2) by (auto simp: unmounted_def)
  then obtain e s' where t: "try_open_fop p mode s = Some (e, s')" "evolves valid s s'"
      "fs_inv valid R s' (if e = Success then (p, mode) # hs else hs)"
    using try_open_fop_inv [OF assms(1) _ assms(3,4)] by blast
  show ?thesis
  proof (cases "e = Success")
    case True
    have un: "unmounted s' p" using t(2) assms(2) unmounted_evolves by blast
    then obtain f' where f': "fops s' p = Some f'" by (auto simp: unmounted_def)
    then have "valid (f_driver f') (dstate s') (f_driver_data f')"
      using fs_inv_fop [OF t(3)] assms(3) by (auto simp: fop_ok_def)
    from make_handle_inv [OF f' this] obtain d h where h: "make_handle D s' p mode = Some (s'\<lparr>dstate := d\<rparr>, h)"
        "h_fop h = p" "h_mode h = mode" "\<not> expired h" "keeps valid (dstate s') d" by blast
    have "fs_inv valid R (s'\<lparr>dstate := d\<rparr>) ((p, mode) # hs)" "evolves valid s (s'\<lparr>dstate := d\<rparr>)"
      using fs_inv_dstate [OF t(3) h(5)] evolves_dstate [OF t(2) h(5)] True by simp_all
    then show ?thesis using t True h un by (simp add: opened_def)
  next
    case False
    with t show ?thesis by (simp add: opened_def)
  qed
qed

lemma open_root_inv:
  assumes "fs_inv valid R s hs" "length hs + 1 < 2 ^ 32"
  shows "\<exists>sr. open_root D s mode = Some sr \<and> opened valid R s hs mode sr"
proof -
  obtain f where "fops s (fs_root s) = Some f" using assms(1) by (auto simp: fs_inv_def)
  from fs_inv_fop [OF assms(1) this] obtain p where p: "follow_mountpoints (fops s) (fs_root s) = Some p"
    by (auto simp: fop_ok_def)
  have "fs_root s \<notin> R" using assms(1) by (simp add: fs_inv_def)
  from follow_attached [OF assms(1) p this] show ?thesis
    unfolding open_root_def p Option.bind.bind_lunit by (rule open_fop_inv [OF assms(1) _ _ assms(2)])
qed

lemma close_inv:
  assumes "fs_inv valid R s ((h_fop h, h_mode h) # hs)" "\<not> expired h"
  shows "\<exists>s' h'. close D s h = Some (s', h') \<and> expired h' \<and> fs_inv valid R s' hs \<and> evolves valid s s'"
proof -
  let ?p = "h_fop h"
  obtain f where f: "fops s ?p = Some f" "?p \<notin> R" using fs_inv_live [OF assms(1), of "(?p, h_mode h)"] by auto
  have ok: "fop_ok valid R s ((?p, h_mode h) # hs) ?p f" by (rule fs_inv_fop [OF assms(1) f(1)])
  then have "valid (f_driver f) (dstate s) (f_driver_data f)" using f(2) by (simp add: fop_ok_def)
  from on_handle_destroy_contract [OF this] obtain k d where
    d: "v_on_handle_destroy (D (f_driver f)) (dstate s) (f_driver_data f) (h_data h) = Some (k, d)" "keeps valid (dstate s) d" by blast
  then have "valid (f_driver f) d (f_driver_data f)" using \<open>valid (f_driver f) (dstate s) (f_driver_data f)\<close> by (simp add: keeps_def)
  from destroy_handle_data_contract [OF this] obtain k' d' where
    d': "v_destroy_handle_data (D (f_driver f)) d (f_driver_data f) k = Some (Success, k', d')" "keeps valid d d'" by blast
  have keep: "keeps valid (dstate s) d'" using d(2) d'(2) by (rule keeps_trans)
  let ?s = "put_fop ?p (f\<lparr>f_counts := release_counts (h_mode h) (f_counts f)\<rparr>) s"
  have "fs_inv valid R ?s hs \<and> evolves valid s ?s"
    using ok by (intro fs_inv_put [OF assms(1) f(1)]) (auto simp: counted_other fop_ok_def counted_close)
  then have "fs_inv valid R (?s\<lparr>dstate := d'\<rparr>) hs" "evolves valid s (?s\<lparr>dstate := d'\<rparr>)"
    using fs_inv_dstate [of valid R ?s hs d'] evolves_dstate [of valid s ?s d'] keep by (simp_all add: put_fop_def)
  moreover have "put_fop ?p (f\<lparr>f_counts := release_counts (h_mode h) (f_counts f)\<rparr>) (s\<lparr>dstate := d'\<rparr>) = ?s\<lparr>dstate := d'\<rparr>"
    by (simp add: put_fop_def)
  ultimately show ?thesis
    using assms(2) f d d' ok by (auto simp: close_def Let_def fop_ok_def)
qed

lemma handle_open_inv:
  assumes inv: "fs_inv valid R s hs" and p: "fops s (h_fop h) = Some f" "h_fop h \<notin> R" and len: "length hs + 1 < 2 ^ 32"
  shows "\<exists>s' h' r. handle_open D s h name mode = Some (s', h', r) \<and> same_handle h h' \<and> opened valid R s hs mode (s', r)"
proof (cases "om_read (h_mode h)")
  case False
  then show ?thesis using inv by (simp add: handle_open_def opened_def evolves_refl)
next
  case read: True
  have v: "valid (f_driver f) (dstate s) (f_driver_data f)" using fs_inv_fop [OF inv p(1)] p(2) by (simp add: fop_ok_def)
  show ?thesis
  proof (cases "map_of (f_children f) name")
    case (Some c)
    have c: "fops s c \<noteq> None" "c \<notin> R" using fs_inv_fop [OF inv p(1)] Some by (auto simp: fop_ok_def)
    then obtain q where q: "follow_mountpoints (fops s) c = Some q" using fs_inv_fop [OF inv] by (fastforce simp: fop_ok_def)
    from open_fop_inv [OF inv follow_attached [OF inv q c(2)] len, of mode]
    obtain s' r where sr: "do { (e, s) \<leftarrow> try_open_fop q mode s;
                   if e \<noteq> Success then Some (s, Inl e)
                   else do { (s, h) \<leftarrow> make_handle D s q mode; Some (s, Inr h) } } = Some (s', r)" "opened valid R s hs mode (s', r)" by auto
    then have "handle_open D s h name mode = Some (s', h\<lparr>h_data := h_data h\<rparr>, r)"
      using read Some p q
      by (auto simp: handle_open_def prepare_fop_def Let_def bind_eq_Some_conv split: if_splits prod.splits)
    with sr(2) show ?thesis by (metis same_handle_data(2))
  next
    case None
    from find_contract [OF v] obtain r k d where r: "v_find (D (f_driver f)) (dstate s) (f_driver_data f) (h_data h) name = Some (r, k, d)"
      "keeps valid (dstate s) d" "\<And>ad. r = Inr ad \<Longrightarrow> fa_name (fst ad) = name \<and> valid (f_driver f) d (snd ad)" by blast
    let ?sd = "s\<lparr>dstate := d\<rparr>"
    have inv': "fs_inv valid R ?sd hs" and ev: "evolves valid s ?sd"
      using fs_inv_dstate [OF inv r(2)] evolves_self_dstate [OF r(2)] .
    show ?thesis
    proof (cases r)
      case (Inl e)
      then have "handle_open D s h name mode = Some (?sd, h\<lparr>h_data := k\<rparr>, Inl e)"
        using read None p r by (simp add: handle_open_def prepare_fop_def)
      then show ?thesis using inv' ev by (simp add: opened_def)
    next
      case (Inr ad)
      let ?child = "new_fop (f_driver f) ad (stale_parent s)"
      have parent: "stale_parent s = None" using inv by (simp add: fs_inv_def)
      obtain e c where t: "try_open (f_attributes ?child) mode no_count = (e, c)" by fastforce
      show ?thesis
      proof (cases "e = Success")
        case False
        then have "handle_open D s h name mode = Some (?sd, h\<lparr>h_data := k\<rparr>, Inl e)"
          using read None p r Inr t by (simp add: handle_open_def prepare_fop_def new_fop_def)
        then show ?thesis using inv' ev by (simp add: opened_def)
      next
        case True
        let ?q = "next_fop ?sd"
        let ?s = "?sd\<lparr>fops := (fops ?sd)(h_fop h \<mapsto> f\<lparr>f_children := (name, ?q) # f_children f\<rparr>,
            ?q \<mapsto> ?child\<lparr>f_counts := c\<rparr>), next_fop := Suc ?q\<rparr>"
        have s': "fs_inv valid R ?s ((?q, mode) # hs) \<and> evolves valid ?sd ?s"
          by (rule fs_inv_child [OF inv' _ None])
            (use p True t parent counted_new r(3) Inr in \<open>auto simp: new_fop_def\<close>)
        have "valid (f_driver (?child\<lparr>f_counts := c\<rparr>)) (dstate ?s) (f_driver_data (?child\<lparr>f_counts := c\<rparr>))"
          using r(3) Inr by (simp add: new_fop_def)
        from make_handle_inv [of ?s ?q "?child\<lparr>f_counts := c\<rparr>", OF _ this, of mode]
        obtain d' n where n: "make_handle D ?s ?q mode = Some (?s\<lparr>dstate := d'\<rparr>, n)" "h_fop n = ?q" "h_mode n = mode" "\<not> expired n"
          "keeps valid (dstate ?s) d'" by auto
        have "append_child (h_fop h) (?child\<lparr>f_counts := c\<rparr>) ?sd = Some (?q, ?s)"
          using p None r(3) Inr by (simp add: append_child_def new_fop_def Let_def)
        then have "handle_open D s h name mode = Some (?s\<lparr>dstate := d'\<rparr>, h\<lparr>h_data := k\<rparr>, Inr n)"
          using read True None p r(1) Inr t n(1) by (simp add: handle_open_def prepare_fop_def new_fop_def)
        moreover have "fs_inv valid R (?s\<lparr>dstate := d'\<rparr>) ((?q, mode) # hs)" "evolves valid s (?s\<lparr>dstate := d'\<rparr>)"
          using fs_inv_dstate [OF conjunct1 [OF s'] n(5)] evolves_dstate [OF evolves_trans [OF ev conjunct2 [OF s']] n(5)] .
        then have "opened valid R s hs mode (?s\<lparr>dstate := d'\<rparr>, Inr n)"
          using n by (simp add: opened_def) (simp add: unmounted_def new_fop_def)
        ultimately show ?thesis using same_handle_data(2) by blast
      qed
    qed
  qed
qed

text \<open>Opening below a directory and closing the directory.\<close>

lemma step_down_inv:
  assumes inv: "fs_inv valid R s ((h_fop h, h_mode h) # hs)" "\<not> expired h" and len: "length hs + 2 < 2 ^ 32"
  shows "\<exists>s1 h1 r s2 h2. handle_open D s h name mode = Some (s1, h1, r) \<and> close D s1 h1 = Some (s2, h2) \<and>
     opened valid R s hs mode (s2, r)"
proof -
  obtain f where "fops s (h_fop h) = Some f" "h_fop h \<notin> R" using fs_inv_live [OF inv(1), of "(h_fop h, h_mode h)"] by auto
  from handle_open_inv [OF inv(1) this, of name mode] len
  obtain s1 h1 r where sr: "handle_open D s h name mode = Some (s1, h1, r)" "same_handle h h1"
    "opened valid R s ((h_fop h, h_mode h) # hs) mode (s1, r)" by auto
  have h1: "h_fop h1 = h_fop h" "h_mode h1 = h_mode h" "\<not> expired h1" using sr(2) inv(2) by (simp_all add: same_handle_def)
  from sr(3) show ?thesis
  proof (cases rule: openedE)
    case (1 s' e)
    then have "fs_inv valid R s1 ((h_fop h1, h_mode h1) # hs)" by (simp add: h1)
    from close_inv [OF this h1(3)] obtain s2 h2 where "close D s1 h1 = Some (s2, h2)" "fs_inv valid R s2 hs" "evolves valid s1 s2" by blast
    moreover from this have "evolves valid s s2" using 1 evolves_trans by blast
    ultimately show ?thesis using sr(1) 1 by (simp add: opened_def)
  next
    case (2 s' n)
    have "fs_inv valid R s1 ((h_fop h1, h_mode h1) # (h_fop n, mode) # hs)"
      using 2(1,2) by (simp add: h1 fs_inv_swap [of _ _ _ "(h_fop h, h_mode h)"])
    from close_inv [OF this h1(3)] obtain s2 h2 where
      c: "close D s1 h1 = Some (s2, h2)" "fs_inv valid R s2 ((h_fop n, mode) # hs)" "evolves valid s1 s2" by blast
    moreover from c have "evolves valid s s2" using 2 evolves_trans by blast
    moreover have "unmounted s2 (h_fop n)" using 2 c(3) unmounted_evolves by blast
    ultimately show ?thesis using sr(1) 2 by (simp add: opened_def)
  qed
qed

lemma open_directories_inv:
  assumes "length hs + 2 < 2 ^ 32" "fs_inv valid R s ((h_fop h, open_ro) # hs)" "h_mode h = open_ro" "\<not> expired h"
    "unmounted s (h_fop h)"
  shows "\<exists>sr. open_directories D s h ds = Some sr \<and> opened valid R s hs open_ro sr"
  using assms(2-)
proof (induction ds arbitrary: s h)
  case Nil
  then show ?case by (simp add: opened_def evolves_refl)
next
  case (Cons d ds)
  then obtain s1 h1 r s2 h2 where step: "handle_open D s h d open_ro = Some (s1, h1, r)" "close D s1 h1 = Some (s2, h2)"
      "opened valid R s hs open_ro (s2, r)"
    using step_down_inv [OF _ _ assms(1), of R s h d open_ro] by auto
  from step(3) show ?case
  proof (cases rule: openedE)
    case (1 s' e)
    then show ?thesis using step by auto
  next
    case (2 s' h')
    with Cons.IH [of s' h'] obtain sr where "open_directories D s' h' ds = Some sr" "opened valid R s' hs open_ro sr" by auto
    moreover from this have "opened valid R s hs open_ro sr" using 2(5) opened_later by blast
    ultimately show ?thesis using step 2(1) by auto
  qed
qed

lemma open_path_inv:
  assumes inv: "fs_inv valid R s hs" and len: "length hs + 2 < 2 ^ 32"
  shows "\<exists>sr. open_path D s path mode = Some sr \<and> opened valid R s hs mode sr"
proof (cases "split_path path = []")
  case True
  then show ?thesis using open_root_inv [OF inv, of mode] len by (simp add: open_path_def)
next
  case False
  obtain sr where root: "open_root D s open_ro = Some sr" "opened valid R s hs open_ro sr"
    using open_root_inv [OF inv, of open_ro] len by auto
  from root(2) have "\<exists>sr. open_parent_directory D s (split_path path) = Some sr \<and> opened valid R s hs open_ro sr"
  proof (cases rule: openedE)
    case (1 s' e)
    then show ?thesis using root False by (simp add: open_parent_directory_def)
  next
    case (2 s' h)
    from open_directories_inv [OF len 2(2-4,6), of "butlast (split_path path)"] show ?thesis
      using root False 2 opened_later by (auto simp: open_parent_directory_def)
  qed
  then obtain sr where par: "open_parent_directory D s (split_path path) = Some sr" "opened valid R s hs open_ro sr" by blast
  from par(2) show ?thesis
  proof (cases rule: openedE)
    case (1 s' e)
    then show ?thesis using par False by (simp add: open_path_def opened_def)
  next
    case (2 s' h)
    from step_down_inv [of R s' h hs "last (split_path path)" mode] 2 len
    obtain s1 h1 r s2 h2 where "handle_open D s' h (last (split_path path)) mode = Some (s1, h1, r)" "close D s1 h1 = Some (s2, h2)"
        "opened valid R s' hs mode (s2, r)" by auto
    then show ?thesis
      using par False 2 opened_later by (auto simp: open_path_def)
  qed
qed

lemma handle_create_inv:
  assumes "fs_inv valid R s hs" "fops s (h_fop h) = Some f" "h_fop h \<notin> R"
  shows "\<exists>s' h' e. handle_create D s h name type = Some (s', h', e) \<and> same_handle h h' \<and> fs_inv valid R s' hs \<and> evolves valid s s'"
proof (cases "om_write (h_mode h)")
  case False
  then show ?thesis using assms(1) by (simp add: handle_create_def evolves_refl)
next
  case True
  have "valid (f_driver f) (dstate s) (f_driver_data f)" using fs_inv_fop [OF assms(1,2)] assms(3) by (simp add: fop_ok_def)
  from create_contract [OF this] obtain r k d where
    "v_create (D (f_driver f)) (dstate s) (f_driver_data f) (h_data h) name type = Some (r, k, d)" "keeps valid (dstate s) d" by blast
  then show ?thesis
    using True assms(2) fs_inv_dstate [OF assms(1)] evolves_self_dstate by (simp add: handle_create_def)
qed

end

end
