(* ===== verification/Fs_Runs.thy ===== *)
theory Fs_Runs
  imports Fs_Handles
begin

text \<open>
  Mounting keeps the invariant of the tree, hence every sequence of opens, closes and mounts does. The properties of
  the file system manager follow from it.
\<close>

section \<open>Mounting\<close>

lemma fs_inv_subset: "fs_inv valid R s hs \<Longrightarrow> R' \<subseteq> R \<Longrightarrow> fs_inv valid R' s hs"
  unfolding fs_inv_def fop_ok_def by blast

text \<open>The root of a new volume is detached.\<close>

lemma add_root_inv:
  assumes inv: "fs_inv valid R s hs" and s': "add_root drv ad s = (r, s')" and v: "valid drv (dstate s) (snd ad)"
  shows "fs_inv valid (insert r R) s' hs \<and> evolves valid s s' \<and> fops s' r = Some (new_fop drv ad None) \<and> fops s r = None \<and> r = next_fop s"
proof -
  let ?g = "new_fop drv ad None"
  have r: "r = next_fop s" and s': "s' = s\<lparr>fops := (fops s)(r \<mapsto> ?g), next_fop := Suc r\<rparr>"
    using s' inv by (auto simp: add_root_def Let_def fs_inv_def)
  have below: "fops s x = Some g \<Longrightarrow> x < r" for x g using fs_inv_fop [OF inv] by (auto simp: fop_ok_def r)
  then have fresh: "fops s r = None" by (cases "fops s r") auto
  have old: "fops s x \<noteq> None \<Longrightarrow> fops s' x \<noteq> None \<and> x \<noteq> r" for x using fresh by (auto simp: s')
  have mounts: "\<exists>g'. fops s' x = Some g' \<and> f_mount g' = f_mount g" if "fops s x = Some g" for x g
    using that fresh by (auto simp: s')
  have follow: "follow_mountpoints (fops s) x \<noteq> None \<Longrightarrow> follow_mountpoints (fops s') x \<noteq> None" for x
    using follow_mono [OF _ mounts] by fastforce
  have attached: "q \<noteq> r" if g: "fops s x = Some g" "f_mount g = Some q" for x g q
  proof -
    obtain y where "follow_mountpoints (fops s) x = Some y" using fs_inv_fop [OF inv g(1)] by (auto simp: fop_ok_def)
    then have "follow_mountpoints (fops s) q = Some y" using g by (subst (asm) follow_mountpoints.simps) simp
    then show ?thesis using fresh by (subst (asm) follow_mountpoints.simps) (auto simp: bind_eq_Some_conv)
  qed
  have "readers_of r hs = 0" "writers_of r hs = 0"
    using fs_inv_live [OF inv] fresh by (fastforce simp: readers_of_def writers_of_def filter_empty_conv)+
  then have "fop_ok valid (insert r R) s' hs r ?g"
    using follow_end [of "fops s'" r ?g] v by (simp add: fop_ok_def s' new_fop_def counted_def no_count_def)
  moreover have "fop_ok valid (insert r R) s' hs x g" if "fops s' x = Some g" "x \<noteq> r" for x g
  proof -
    have x: "fops s x = Some g" using that by (simp add: s')
    show ?thesis
      using fs_inv_fop [OF inv x] attached [OF x] old follow [of x] unfolding fop_ok_def by (auto simp: s' r less_Suc_eq)
  qed
  ultimately have "\<forall>x g. fops s' x = Some g \<longrightarrow> fop_ok valid (insert r R) s' hs x g"
    by (auto simp: s')
  then have "fs_inv valid (insert r R) s' hs"
    using inv old fresh by (auto simp: fs_inv_def s' new_fop_def)
  moreover have "evolves valid s s'" using fresh by (auto simp: evolves_def s' same_fop_def)
  ultimately show ?thesis using r fresh by (simp add: s')
qed

text \<open>A detached root can be deleted.\<close>

lemma drop_root_inv:
  assumes inv: "fs_inv valid R s hs" and "r \<in> R"
  shows "fs_inv valid (R - {r}) (s\<lparr>fops := (fops s)(r := None)\<rparr>) hs"
proof -
  let ?s = "s\<lparr>fops := (fops s)(r := None)\<rparr>"
  have "follow_mountpoints (fops ?s) x \<noteq> None" if follow: "follow_mountpoints (fops s) x = Some y" and x: "x \<noteq> r" for x y
  proof -
    have "x \<noteq> r \<longrightarrow> follow_mountpoints (fops ?s) x = Some y"
      using follow
    proof (rule follow_induct)
      fix p f assume "fops s p = Some f" "f_mount f = None"
      then show "p \<noteq> r \<longrightarrow> follow_mountpoints (fops ?s) p = Some p" using follow_end [of "fops ?s" p f] by simp
    next
      fix p f q y
      assume f: "fops s p = Some f" "f_mount f = Some q" "q \<noteq> r \<longrightarrow> follow_mountpoints (fops ?s) q = Some y"
      then have "q \<noteq> r" using fs_inv_fop [OF inv f(1)] assms(2) by (auto simp: fop_ok_def)
      then show "p \<noteq> r \<longrightarrow> follow_mountpoints (fops ?s) p = Some y"
        using f by (auto simp: follow_mountpoints.simps [of _ p])
    qed
    then show ?thesis using x by simp
  qed
  then have "fop_ok valid (R - {r}) ?s hs x f" if "fops ?s x = Some f" for x f
    using that fs_inv_fop [OF inv, of x f] assms(2) unfolding fop_ok_def by (auto split: if_splits)
  then show ?thesis
    using inv assms(2) by (auto simp: fs_inv_def)
qed

text \<open>Setting the mount of an operator to a detached root attaches it.\<close>

lemma set_mount_inv:
  assumes inv: "fs_inv valid R s hs" and f: "fops s p = Some f" "p \<notin> R" and r: "r \<in> R" "fops s r = Some g" "f_mount g = None"
    and final: "f_mount f = None"
  shows "fs_inv valid (R - {r}) (put_fop p (f\<lparr>f_mount := Some r\<rparr>) s) hs"
proof -
  let ?s = "put_fop p (f\<lparr>f_mount := Some r\<rparr>) s"
  have at_r: "follow_mountpoints (fops ?s) r = Some r"
    using r f by (intro follow_end [of _ _ g]) (auto simp: put_fop_def)
  have "follow_mountpoints (fops ?s) x \<noteq> None" if "follow_mountpoints (fops s) x = Some y" for x y
    using that
  proof (rule follow_induct)
    fix q h assume h: "fops s q = Some h" "f_mount h = None"
    show "follow_mountpoints (fops ?s) q \<noteq> None"
    proof (cases "q = p")
      case True
      then show ?thesis using at_r by (subst follow_mountpoints.simps) (simp add: put_fop_def)
    next
      case False
      then show ?thesis using h follow_end [of "fops ?s" q h] by (simp add: put_fop_def)
    qed
  next
    fix q h q' y
    assume "fops s q = Some h" "f_mount h = Some q'" "follow_mountpoints (fops ?s) q' \<noteq> None"
    moreover from this have "q \<noteq> p" using f final by auto
    ultimately show "follow_mountpoints (fops ?s) q \<noteq> None"
      by (subst follow_mountpoints.simps) (simp add: put_fop_def)
  qed
  then have follow: "follow_mountpoints (fops s) x \<noteq> None \<Longrightarrow> follow_mountpoints (fops ?s) x \<noteq> None" for x by blast
  have "fop_ok valid (R - {r}) ?s hs x h" if h: "fops ?s x = Some h" for x h
  proof (cases "x = p")
    case True
    then show ?thesis
      using h fs_inv_fop [OF inv f(1)] follow [of p] unfolding fop_ok_def by (auto simp: put_fop_def)
  next
    case False
    then show ?thesis
      using h fs_inv_fop [OF inv, of x h] follow [of x] unfolding fop_ok_def by (auto simp: put_fop_def)
  qed
  then show ?thesis
    using inv f by (auto simp: fs_inv_def put_fop_def)
qed

text \<open>What mounting keeps of the operators and the records.\<close>

definition grows :: "'d fs \<Rightarrow> 'd fs \<Rightarrow> bool" where
  "grows s s' \<longleftrightarrow> devfs_root s' = devfs_root s \<and> set (mount_records s) \<subseteq> set (mount_records s') \<and>
     (\<forall>p f. fops s p = Some f \<longrightarrow>
        (\<exists>f'. fops s' p = Some f' \<and> (f_mount f \<noteq> None \<longrightarrow> f_mount f' = f_mount f) \<and> set (f_children f) \<subseteq> set (f_children f')))"

lemma evolves_grows: "evolves valid s s' \<Longrightarrow> grows s s'"
  by (fastforce simp: evolves_def grows_def same_fop_def)

lemma grows_trans:
  assumes "grows s s'" "grows s' s''"
  shows "grows s s''"
proof -
  have "\<exists>f''. fops s'' p = Some f'' \<and> (f_mount f \<noteq> None \<longrightarrow> f_mount f'' = f_mount f) \<and> set (f_children f) \<subseteq> set (f_children f'')"
    if f: "fops s p = Some f" for p f
  proof -
    obtain f' where f': "fops s' p = Some f'" "f_mount f \<noteq> None \<longrightarrow> f_mount f' = f_mount f" "set (f_children f) \<subseteq> set (f_children f')"
      using assms(1) f unfolding grows_def by blast
    obtain f'' where "fops s'' p = Some f''" "f_mount f' \<noteq> None \<longrightarrow> f_mount f'' = f_mount f'" "set (f_children f') \<subseteq> set (f_children f'')"
      using assms(2) f'(1) unfolding grows_def by blast
    with f' show ?thesis by fastforce
  qed
  then show ?thesis using assms by (auto simp: grows_def)
qed

context driver_contract
begin

lemma set_mount_driver_inv:
  assumes inv: "fs_inv valid R s hs" and len: "length hs + 2 < 2 ^ 32" and r: "r \<in> R"
  shows "\<exists>s' res. set_mount_driver D s path r = Some (s', res) \<and> grows s s' \<and> mount_records s' = mount_records s \<and>
     (case res of
        Inl e \<Rightarrow> fs_inv valid R s' hs
      | Inr h \<Rightarrow> fs_inv valid (R - {r}) s' ((h_fop h, open_rw) # hs) \<and> h_mode h = open_rw \<and> \<not> expired h \<and>
          (\<exists>f. fops s' (h_fop h) = Some f \<and> f_mount f = Some r))"
proof -
  obtain sr where sr: "open_path D s path open_rw = Some sr" "opened valid R s hs open_rw sr"
    using open_path_inv [OF inv len] by blast
  from sr(2) show ?thesis
  proof (cases rule: openedE)
    case (1 s' e)
    then show ?thesis using sr(1) evolves_grows by (auto simp: set_mount_driver_def evolves_def)
  next
    case (2 s' h)
    let ?p = "h_fop h"
    obtain f where f: "fops s' ?p = Some f" "f_mount f = None" using 2(6) by (auto simp: unmounted_def)
    obtain g where g: "fops s' r = Some g" "f_mount g = None" using 2(2) r by (auto simp: fs_inv_def)
    have p: "?p \<notin> R" using fs_inv_live [OF 2(2), of "(?p, open_rw)"] by simp
    let ?s = "put_fop ?p (f\<lparr>f_mount := Some r\<rparr>) s'"
    have "fs_inv valid (R - {r}) ?s ((?p, open_rw) # hs)"
      by (rule set_mount_inv [OF 2(2) f(1) p r g f(2)])
    moreover have "grows s' ?s" using f by (auto simp: grows_def put_fop_def)
    then have "grows s ?s" using grows_trans [OF evolves_grows [OF 2(5)]] by simp
    moreover have "mount_records ?s = mount_records s" using 2(5) by (simp add: evolves_def put_fop_def)
    moreover have "set_mount_driver D s path r = Some (?s, Inr h)"
      using sr(1) 2(1) f by (simp add: set_mount_driver_def)
    ultimately show ?thesis using 2(3,4) by (auto simp: put_fop_def)
  qed
qed

lemma mount_volume_inv:
  assumes inv: "fs_inv valid R s hs" and len: "length hs + 2 < 2 ^ 32"
    and add: "add_root drv ad s = (r, s1)" "valid drv (dstate s) (snd ad)"
  shows "\<exists>s2 res. set_mount_driver D s1 path r = Some (s2, res) \<and> mount_records s2 = mount_records s \<and>
     (case res of
        Inl e \<Rightarrow> fs_inv valid R (s2\<lparr>fops := (fops s2)(r := None)\<rparr>) hs \<and> grows s (s2\<lparr>fops := (fops s2)(r := None)\<rparr>)
      | Inr h \<Rightarrow> fs_inv valid R s2 ((h_fop h, open_rw) # hs) \<and> h_mode h = open_rw \<and> \<not> expired h \<and> grows s s2 \<and>
          fops s2 r \<noteq> None \<and> (\<exists>f. fops s2 (h_fop h) = Some f \<and> f_mount f = Some r))"
proof -
  note root = add_root_inv [OF inv add]
  then have R: "insert r R - {r} = R" using inv by (auto simp: fs_inv_def)
  obtain s2 res where m: "set_mount_driver D s1 path r = Some (s2, res)" "grows s1 s2" "mount_records s2 = mount_records s1"
      "case res of
        Inl e \<Rightarrow> fs_inv valid (insert r R) s2 hs
      | Inr h \<Rightarrow> fs_inv valid (insert r R - {r}) s2 ((h_fop h, open_rw) # hs) \<and> h_mode h = open_rw \<and> \<not> expired h \<and>
          (\<exists>f. fops s2 (h_fop h) = Some f \<and> f_mount f = Some r)"
    using set_mount_driver_inv [OF _ len, of "insert r R" s1 r path] root by blast
  have grows: "grows s s2" using grows_trans [OF evolves_grows m(2)] root by blast
  have records: "mount_records s2 = mount_records s" using m(3) root by (simp add: evolves_def)
  show ?thesis
  proof (cases res)
    case (Inl e)
    then have "fs_inv valid R (s2\<lparr>fops := (fops s2)(r := None)\<rparr>) hs"
      using drop_root_inv [of valid "insert r R" s2 hs r] m(4) R by simp
    moreover have "grows s (s2\<lparr>fops := (fops s2)(r := None)\<rparr>)"
      using grows root by (auto simp: grows_def)
    ultimately show ?thesis using m(1) records Inl by simp
  next
    case (Inr h)
    moreover have "fops s2 r \<noteq> None" using m(2) root unfolding grows_def by blast
    ultimately show ?thesis using m(1,4) records grows R by simp
  qed
qed

end

text \<open>
  The whole manager: the handles of the mount records are open, each record is on an operator whose mount is its
  root, and the root of \<^verbatim>\<open>devfs\<close> is detached until it is mounted.
\<close>

definition record_handles :: "'d fs \<Rightarrow> handle list" where
  "record_handles s =
     concat (map (\<lambda>m. mr_handle m # (case mr_device_handle m of None \<Rightarrow> [] | Some h \<Rightarrow> [h])) (mount_records s))"

definition detached :: "'d fs \<Rightarrow> fptr set" where
  "detached s = (if ''devfs'' \<in> mr_device ` set (mount_records s) then {} else {devfs_root s})"

definition records_ok :: "'d fs \<Rightarrow> bool" where
  "records_ok s \<longleftrightarrow> (\<forall>m \<in> set (mount_records s). fops s (mr_root m) \<noteq> None \<and>
     (\<exists>f. fops s (h_fop (mr_handle m)) = Some f \<and> f_mount f = Some (mr_root m)))"

abbreviation open_on :: "handle list \<Rightarrow> (fptr \<times> open_mode) list" where
  "open_on hs \<equiv> map (\<lambda>h. (h_fop h, h_mode h)) hs"

definition fs_ok :: "(nat \<Rightarrow> 'd \<Rightarrow> nat \<Rightarrow> bool) \<Rightarrow> 'd fs \<Rightarrow> handle list \<Rightarrow> bool" where
  "fs_ok valid s hs \<longleftrightarrow> fs_inv valid (detached s) s (open_on (hs @ record_handles s)) \<and>
     (\<forall>h \<in> set (hs @ record_handles s). \<not> expired h) \<and> records_ok s"

lemma counted_rotate: "counted p (as @ bs) c \<longleftrightarrow> counted p (bs @ as) c"
  by (simp add: counted_def readers_of_def writers_of_def add.commute)

lemma fs_inv_rotate: "fs_inv valid R s (as @ bs) \<longleftrightarrow> fs_inv valid R s (bs @ as)"
  unfolding fs_inv_def fop_ok_def counted_rotate [of _ as bs] by auto

lemma fs_inv_move: "fs_inv valid R s (as @ h # bs) \<longleftrightarrow> fs_inv valid R s (h # as @ bs)"
proof -
  have "counted p (as @ h # bs) c \<longleftrightarrow> counted p (h # as @ bs) c" for p c
    by (simp add: counted_def readers_of_def writers_of_def)
  then show ?thesis by (auto simp: fs_inv_def fop_ok_def)
qed

lemma fs_inv_records [simp]: "fs_inv valid R (s\<lparr>mount_records := ms\<rparr>) hs \<longleftrightarrow> fs_inv valid R s hs"
  by (simp add: fs_inv_def fop_ok_def)

lemma records_ok_grows: "records_ok s \<Longrightarrow> grows s s' \<Longrightarrow> mount_records s' = mount_records s \<Longrightarrow> records_ok s'"
  unfolding records_ok_def grows_def by (metis option.distinct(1) option.exhaust)

text \<open>The manager after a change that keeps the records, and after a new record.\<close>

lemma fs_ok_same:
  assumes "fs_ok valid s hs" "grows s s'" "mount_records s' = mount_records s"
    "fs_inv valid (detached s) s' (open_on (hs' @ record_handles s))" "\<forall>h \<in> set hs'. \<not> expired h"
  shows "fs_ok valid s' hs'"
proof -
  have "detached s' = detached s" "record_handles s' = record_handles s"
    using assms(2,3) by (simp_all add: detached_def record_handles_def grows_def)
  then show ?thesis
    using assms records_ok_grows [of s s'] by (auto simp: fs_ok_def)
qed

lemma fs_ok_record:
  assumes "fs_ok valid s hs" "grows s s'" "mount_records s' = mount_records s"
    and R: "fs_inv valid R s' (open_on (new @ hs @ record_handles s))" "\<forall>h \<in> set new. \<not> expired h"
    and m: "new = mr_handle m # (case mr_device_handle m of None \<Rightarrow> [] | Some h \<Rightarrow> [h])"
      "\<exists>f. fops s' (h_fop (mr_handle m)) = Some f \<and> f_mount f = Some (mr_root m)" "fops s' (mr_root m) \<noteq> None"
      "R = (if mr_device m = ''devfs'' then {} else detached s)"
  shows "fs_ok valid (s'\<lparr>mount_records := mount_records s' @ [m]\<rparr>) hs"
    "grows s (s'\<lparr>mount_records := mount_records s' @ [m]\<rparr>)"
proof -
  let ?s = "s'\<lparr>mount_records := mount_records s' @ [m]\<rparr>"
  have "detached ?s = R" "record_handles ?s = record_handles s @ new"
    using assms(2,3) m by (auto simp: detached_def record_handles_def grows_def)
  moreover have "fs_inv valid R ?s (open_on (hs @ record_handles s @ new))"
    using R(1) fs_inv_rotate [of valid R s' "open_on (hs @ record_handles s)" "open_on new"] by simp
  moreover have "records_ok ?s"
    using records_ok_grows [of s s'] assms(1-3) m by (auto simp: records_ok_def fs_ok_def)
  ultimately show "fs_ok valid ?s hs"
    using assms(1) R(2) by (auto simp: fs_ok_def)
  show "grows s ?s" using assms(2,3) by (auto simp: grows_def)
qed

definition room :: "'d fs \<Rightarrow> handle list \<Rightarrow> bool" where
  "room s hs \<longleftrightarrow> length hs + length (record_handles s) + 4 < 2 ^ 32"

lemma grows_dstate [simp]: "grows s (s'\<lparr>dstate := d\<rparr>) \<longleftrightarrow> grows s s'" "grows (s\<lparr>dstate := d\<rparr>) s' \<longleftrightarrow> grows s s'"
  by (simp_all add: grows_def)

lemma fs_ok_inv: "fs_ok valid s hs \<Longrightarrow> fs_inv valid (detached s) s (open_on (hs @ record_handles s))"
  by (simp add: fs_ok_def)

lemma fs_inv_valid: "fs_inv valid R s hs \<Longrightarrow> \<exists>i x. valid i (dstate s) x"
  using fs_inv_fop [of valid R s hs "fs_root s"] unfolding fs_inv_def fop_ok_def by blast

text \<open>The contract of what mounting needs from the other drivers.\<close>

locale volume_contract = driver_contract +
  fixes V :: "'a volumes"
  assumes new_tmpfs_contract: "\<lbrakk>valid i d x; new_tmpfs V d = (d', drv, ad)\<rbrakk> \<Longrightarrow> keeps valid d d' \<and> valid drv d' (snd ad)"
    and init_fat_contract: "valid i d x \<Longrightarrow> \<exists>d' r. init_fat V d h = Some (d', r) \<and> keeps valid d d' \<and>
      (\<forall>drv ad. r = Inr (drv, ad) \<longrightarrow> valid drv d' (snd ad))"
begin

lemma mount_devfs_inv:
  assumes "fs_ok valid s hs" "room s hs" "detached s \<noteq> {}"
  shows "\<exists>e s'. mount D V s ''devfs'' path = Some (e, s') \<and> fs_ok valid s' hs \<and> grows s s'"
proof -
  let ?r = "devfs_root s" and ?hs = "open_on (hs @ record_handles s)"
  have R: "detached s = {?r}" using assms(3) by (auto simp: detached_def split: if_splits)
  have inv: "fs_inv valid {?r} s ?hs" using assms(1) by (simp add: fs_ok_def R)
  have "length ?hs + 2 < 2 ^ 32" using assms(2) by (simp add: room_def)
  from set_mount_driver_inv [OF inv this, of ?r path]
  obtain s' res where m: "set_mount_driver D s path ?r = Some (s', res)" "grows s s'" "mount_records s' = mount_records s"
      "case res of
        Inl e \<Rightarrow> fs_inv valid {?r} s' ?hs
      | Inr h \<Rightarrow> fs_inv valid ({?r} - {?r}) s' ((h_fop h, open_rw) # ?hs) \<and> h_mode h = open_rw \<and> \<not> expired h \<and>
          (\<exists>f. fops s' (h_fop h) = Some f \<and> f_mount f = Some ?r)" by blast
  obtain g where "fops s ?r = Some g" using inv by (auto simp: fs_inv_def)
  then have root: "fops s' ?r \<noteq> None" "devfs_root s' = ?r"
    using m(2) unfolding grows_def by blast+
  show ?thesis
  proof (cases res)
    case (Inl e)
    then show ?thesis
      using m fs_ok_same [OF assms(1) m(2,3), of hs] assms(1) by (simp add: mount_def R fs_ok_def)
  next
    case (Inr h)
    let ?m = "\<lparr>mr_device = ''devfs'', mr_path = normalize_path path, mr_root = ?r, mr_handle = h, mr_device_handle = None,
              mr_shared = True\<rparr>"
    have "fs_ok valid (s'\<lparr>mount_records := mount_records s' @ [?m]\<rparr>) hs" "grows s (s'\<lparr>mount_records := mount_records s' @ [?m]\<rparr>)"
      by (rule fs_ok_record [OF assms(1) m(2,3), where R = "{}" and new = "[h]"]; use m(4) Inr root in simp)+
    then show ?thesis using m(1) Inr root(2) by (simp add: mount_def Let_def)
  qed
qed

lemma mount_tmpfs_inv:
  assumes "fs_ok valid s hs" "room s hs"
  shows "\<exists>e s'. mount D V s ''tmpfs'' path = Some (e, s') \<and> fs_ok valid s' hs \<and> grows s s'"
proof -
  let ?hs = "open_on (hs @ record_handles s)"
  obtain d drv ad where v: "new_tmpfs V (dstate s) = (d, drv, ad)" by (metis prod_cases3)
  obtain i x where "valid i (dstate s) x" using fs_inv_valid [OF fs_ok_inv [OF assms(1)]] by blast
  from new_tmpfs_contract [OF this v] have v': "keeps valid (dstate s) d" "valid drv d (snd ad)" by blast+
  obtain r s1 where add: "add_root drv ad (s\<lparr>dstate := d\<rparr>) = (r, s1)" by fastforce
  have inv: "fs_inv valid (detached s) (s\<lparr>dstate := d\<rparr>) ?hs" using fs_inv_dstate [OF fs_ok_inv [OF assms(1)] v'(1)] .
  have len: "length ?hs + 2 < 2 ^ 32" using assms(2) by (simp add: room_def)
  have "valid drv (dstate (s\<lparr>dstate := d\<rparr>)) (snd ad)" using v'(2) by simp
  from mount_volume_inv [OF inv len add this, of path]
  obtain s2 res where m: "set_mount_driver D s1 path r = Some (s2, res)" "mount_records s2 = mount_records s"
      "case res of
        Inl e \<Rightarrow> fs_inv valid (detached s) (s2\<lparr>fops := (fops s2)(r := None)\<rparr>) ?hs \<and> grows (s\<lparr>dstate := d\<rparr>) (s2\<lparr>fops := (fops s2)(r := None)\<rparr>)
      | Inr h \<Rightarrow> fs_inv valid (detached s) s2 ((h_fop h, open_rw) # ?hs) \<and> h_mode h = open_rw \<and> \<not> expired h \<and> grows (s\<lparr>dstate := d\<rparr>) s2 \<and>
          fops s2 r \<noteq> None \<and> (\<exists>f. fops s2 (h_fop h) = Some f \<and> f_mount f = Some r)" by auto
  show ?thesis
  proof (cases res)
    case (Inl e)
    then have "fs_ok valid (s2\<lparr>fops := (fops s2)(r := None)\<rparr>) hs"
      using m assms(1) by (intro fs_ok_same [OF assms(1)]) (auto simp: fs_ok_def)
    then show ?thesis using m v add Inl by (simp add: mount_def Let_def)
  next
    case (Inr h)
    let ?m = "\<lparr>mr_device = ''tmpfs'', mr_path = normalize_path path, mr_root = r, mr_handle = h, mr_device_handle = None,
              mr_shared = False\<rparr>"
    have "fs_ok valid (s2\<lparr>mount_records := mount_records s2 @ [?m]\<rparr>) hs" "grows s (s2\<lparr>mount_records := mount_records s2 @ [?m]\<rparr>)"
      by (rule fs_ok_record [OF assms(1), where R = "detached s" and new = "[h]"]; use m Inr in simp)+
    then show ?thesis using m v add Inr by (simp add: mount_def Let_def)
  qed
qed

lemma mount_fat_inv:
  assumes ok: "fs_ok valid s hs" and room: "room s hs"
    and device: "device \<noteq> ''devfs''" "device \<noteq> ''tmpfs''"
  shows "\<exists>e s'. mount D V s device path = Some (e, s') \<and> fs_ok valid s' hs \<and> grows s s'"
proof -
  let ?hs = "open_on (hs @ record_handles s)"
  have len: "length ?hs + 2 < 2 ^ 32" using room by (simp add: room_def)
  obtain sr where sr: "open_path D s device open_rw = Some sr" "opened valid (detached s) s ?hs open_rw sr"
    using open_path_inv [OF fs_ok_inv [OF ok] len] by blast
  have live: "\<forall>h \<in> set hs. \<not> expired h" using ok by (simp add: fs_ok_def)
  from sr(2) show ?thesis
  proof (cases rule: openedE)
    case (1 s1 e)
    then have "fs_ok valid s1 hs"
      using live by (intro fs_ok_same [OF ok evolves_grows]) (auto simp: evolves_def)
    then show ?thesis using sr(1) 1 device evolves_grows by (auto simp: mount_def Let_def)
  next
    case (2 s1 dh)
    obtain i x where "valid i (dstate s1) x" using fs_inv_valid [OF 2(2)] by blast
    from init_fat_contract [OF this, of dh]
    obtain d r where v: "init_fat V (dstate s1) dh = Some (d, r)" "keeps valid (dstate s1) d"
        "\<And>drv ad. r = Inr (drv, ad) \<Longrightarrow> valid drv d (snd ad)"
      by blast
    have inv1: "fs_inv valid (detached s) (s1\<lparr>dstate := d\<rparr>) ((h_fop dh, h_mode dh) # ?hs)"
      using fs_inv_dstate [OF 2(2) v(2)] 2(3) by simp
    have grows1: "grows s (s1\<lparr>dstate := d\<rparr>)" "mount_records s1 = mount_records s"
      using 2(5) evolves_grows by (auto simp: evolves_def)
    have closed: "\<exists>s' h'. close D s2 dh = Some (s', h') \<and> fs_ok valid s' hs \<and> grows s s'"
      if s2: "fs_inv valid (detached s) s2 ((h_fop dh, h_mode dh) # ?hs)" "grows s s2" "mount_records s2 = mount_records s" for s2
    proof -
      obtain s' h' where c: "close D s2 dh = Some (s', h')" "fs_inv valid (detached s) s' ?hs" "evolves valid s2 s'"
        using close_inv [OF s2(1) 2(4)] by blast
      have "grows s s'" using grows_trans [OF s2(2) evolves_grows [OF c(3)]] .
      moreover have "fs_ok valid s' hs"
        using calculation c s2(3) live by (intro fs_ok_same [OF ok]) (auto simp: evolves_def)
      ultimately show ?thesis using c(1) by blast
    qed
    show ?thesis
    proof (cases r)
      case (Inl e)
      then show ?thesis
        using closed [OF inv1 grows1(1)] grows1(2) sr(1) 2(1) v(1) device by (auto simp: mount_def Let_def)
    next
      case (Inr va)
      obtain drv ad where va: "va = (drv, ad)" by (cases va) blast
      obtain root s2 where add: "add_root drv ad (s1\<lparr>dstate := d\<rparr>) = (root, s2)" by fastforce
      have "length ((h_fop dh, h_mode dh) # ?hs) + 2 < 2 ^ 32" using room by (simp add: room_def)
      moreover have "valid drv (dstate (s1\<lparr>dstate := d\<rparr>)) (snd ad)" using v(3) Inr va by simp
      ultimately have mv: "\<exists>s2a res. set_mount_driver D s2 path root = Some (s2a, res) \<and> mount_records s2a = mount_records (s1\<lparr>dstate := d\<rparr>) \<and>
     (case res of
        Inl e \<Rightarrow> fs_inv valid (detached s) (s2a\<lparr>fops := (fops s2a)(root := None)\<rparr>) ((h_fop dh, h_mode dh) # ?hs) \<and>
          grows (s1\<lparr>dstate := d\<rparr>) (s2a\<lparr>fops := (fops s2a)(root := None)\<rparr>)
      | Inr h \<Rightarrow> fs_inv valid (detached s) s2a ((h_fop h, open_rw) # (h_fop dh, h_mode dh) # ?hs) \<and> h_mode h = open_rw \<and>
          \<not> expired h \<and> grows (s1\<lparr>dstate := d\<rparr>) s2a \<and>
          fops s2a root \<noteq> None \<and> (\<exists>f. fops s2a (h_fop h) = Some f \<and> f_mount f = Some root))"
        by (rule mount_volume_inv [OF inv1 _ add])
      from mv
      obtain s3 res where m: "set_mount_driver D s2 path root = Some (s3, res)" "mount_records s3 = mount_records s1"
          "case res of
            Inl e \<Rightarrow> fs_inv valid (detached s) (s3\<lparr>fops := (fops s3)(root := None)\<rparr>) ((h_fop dh, h_mode dh) # ?hs) \<and>
              grows (s1\<lparr>dstate := d\<rparr>) (s3\<lparr>fops := (fops s3)(root := None)\<rparr>)
          | Inr h \<Rightarrow> fs_inv valid (detached s) s3 ((h_fop h, open_rw) # (h_fop dh, h_mode dh) # ?hs) \<and> h_mode h = open_rw \<and>
              \<not> expired h \<and> grows (s1\<lparr>dstate := d\<rparr>) s3 \<and>
              fops s3 root \<noteq> None \<and> (\<exists>f. fops s3 (h_fop h) = Some f \<and> f_mount f = Some root)" by auto
      show ?thesis
      proof (cases res)
        case Err: (Inl e)
        let ?s = "s3\<lparr>fops := (fops s3)(root := None)\<rparr>"
        have "grows s ?s" using grows_trans [OF grows1(1)] m(3) Err by auto
        with closed [of ?s] m(2,3) grows1(2) Err show ?thesis
          using sr(1) 2(1) v(1) device Inr va add m(1) by (auto simp: mount_def Let_def)
      next
        case Ok: (Inr h)
        let ?m = "\<lparr>mr_device = device, mr_path = normalize_path path, mr_root = root, mr_handle = h,
                  mr_device_handle = Some dh, mr_shared = False\<rparr>"
        have "grows s s3" using grows_trans [OF grows1(1), of s3] m(3) Ok by simp
        then have "fs_ok valid (s3\<lparr>mount_records := mount_records s3 @ [?m]\<rparr>) hs"
            "grows s (s3\<lparr>mount_records := mount_records s3 @ [?m]\<rparr>)"
          by (rule fs_ok_record [OF ok, where R = "detached s" and new = "[h, dh]"];
              use m Ok 2 grows1 device in simp)+
        then show ?thesis
          using sr(1) 2(1) v(1) device Inr va add m(1) Ok by (simp add: mount_def Let_def)
      qed
    qed
  qed
qed

lemma mount_inv:
  assumes "fs_ok valid s hs" "room s hs" "device = ''devfs'' \<Longrightarrow> detached s \<noteq> {}"
  shows "\<exists>e s'. mount D V s device path = Some (e, s') \<and> fs_ok valid s' hs \<and> grows s s'"
  using assms mount_devfs_inv [of s hs path] mount_tmpfs_inv [of s hs path] mount_fat_inv [of s hs device path]
  by blast

end

section \<open>Runs\<close>

text \<open>
  Sequences of opens, closes, creations and mounts from a state, with the handles that the callers hold. \<^verbatim>\<open>devfs\<close> is
  mounted at most once, and there are fewer handles than a count can hold.
\<close>

inductive fs_run :: "(nat \<Rightarrow> 'd driver) \<Rightarrow> 'd volumes \<Rightarrow> 'd fs \<Rightarrow> handle list \<Rightarrow> 'd fs \<Rightarrow> handle list \<Rightarrow> bool"
  for D :: "nat \<Rightarrow> 'd driver" and V :: "'d volumes" and s0 :: "'d fs" and hs0 :: "handle list" where
  start: "fs_run D V s0 hs0 s0 hs0"
| opens: "\<lbrakk>fs_run D V s0 hs0 s hs; room s hs; open_path D s path mode = Some (s', Inr h)\<rbrakk>
    \<Longrightarrow> fs_run D V s0 hs0 s' (h # hs)"
| open_fails: "\<lbrakk>fs_run D V s0 hs0 s hs; room s hs; open_path D s path mode = Some (s', Inl e)\<rbrakk>
    \<Longrightarrow> fs_run D V s0 hs0 s' hs"
| opens_below: "\<lbrakk>fs_run D V s0 hs0 s (as @ h # bs); room s (as @ h # bs); handle_open D s h name mode = Some (s', h', Inr n)\<rbrakk>
    \<Longrightarrow> fs_run D V s0 hs0 s' (n # as @ h' # bs)"
| closes: "\<lbrakk>fs_run D V s0 hs0 s (as @ h # bs); close D s h = Some (s', h')\<rbrakk> \<Longrightarrow> fs_run D V s0 hs0 s' (as @ bs)"
| creates: "\<lbrakk>fs_run D V s0 hs0 s (as @ h # bs); handle_create D s h name type = Some (s', h', e)\<rbrakk>
    \<Longrightarrow> fs_run D V s0 hs0 s' (as @ h' # bs)"
| mounts: "\<lbrakk>fs_run D V s0 hs0 s hs; room s hs; device = ''devfs'' \<Longrightarrow> detached s \<noteq> {};
     mount D V s device path = Some (e, s')\<rbrakk> \<Longrightarrow> fs_run D V s0 hs0 s' hs"

text \<open>The constructor of the manager: the operators of the two built-in roots, with the drivers 0 and 1.\<close>

definition new_manager :: "file_abstract_data \<Rightarrow> file_abstract_data \<Rightarrow> 'd \<Rightarrow> nat \<Rightarrow> 'd fs" where
  "new_manager basic dev d garbage =
     \<lparr>fops = [0 \<mapsto> new_fop 0 basic None, 1 \<mapsto> new_fop 1 dev None], next_fop = 2, fs_root = 0, devfs_root = 1, dstate = d,
      stale_parent = None, stale_data = garbage, mount_records = []\<rparr>"

lemma new_manager_ok:
  assumes "valid 0 d (snd basic)" "valid 1 d (snd dev)"
  shows "fs_ok valid (new_manager basic dev d garbage) []"
proof -
  let ?s = "new_manager basic dev d garbage"
  have "follow_mountpoints (fops ?s) p = Some p" if "p = 0 \<or> p = 1" for p
    using that by (subst follow_mountpoints.simps) (auto simp: new_manager_def new_fop_def)
  then show ?thesis
    using assms
    by (auto simp: fs_ok_def fs_inv_def fop_ok_def detached_def record_handles_def records_ok_def new_manager_def
        new_fop_def counted_def readers_of_def writers_of_def no_count_def)
qed

context volume_contract
begin

lemma open_path_ok:
  assumes "fs_ok valid s hs" "room s hs"
  shows "\<exists>s' r. open_path D s path mode = Some (s', r) \<and> evolves valid s s' \<and>
     fs_ok valid s' (case r of Inl e \<Rightarrow> hs | Inr h \<Rightarrow> h # hs)"
proof -
  have "length (open_on (hs @ record_handles s)) + 2 < 2 ^ 32" using assms(2) by (simp add: room_def)
  from open_path_inv [OF fs_ok_inv [OF assms(1)] this, of path mode]
  obtain sr where sr: "open_path D s path mode = Some sr"
    "opened valid (detached s) s (open_on (hs @ record_handles s)) mode sr" by blast
  have live: "\<forall>h \<in> set hs. \<not> expired h" using assms(1) by (simp add: fs_ok_def)
  from sr(2) show ?thesis
  proof (cases rule: openedE)
    case (1 s' e)
    then have "fs_ok valid s' hs"
      using live by (intro fs_ok_same [OF assms(1) evolves_grows]) (auto simp: evolves_def)
    then show ?thesis using sr(1) 1 by simp
  next
    case (2 s' h)
    then have "fs_ok valid s' (h # hs)"
      using live by (intro fs_ok_same [OF assms(1) evolves_grows]) (auto simp: evolves_def)
    then show ?thesis using sr(1) 2 by simp
  qed
qed

lemma fs_ok_handle:
  assumes "fs_ok valid s (as @ h # bs)"
  shows "fs_inv valid (detached s) s ((h_fop h, h_mode h) # open_on ((as @ bs) @ record_handles s))"
    "\<exists>f. fops s (h_fop h) = Some f" "h_fop h \<notin> detached s" "\<not> expired h"
proof -
  show inv: "fs_inv valid (detached s) s ((h_fop h, h_mode h) # open_on ((as @ bs) @ record_handles s))"
    using fs_ok_inv [OF assms]
      fs_inv_move [of valid "detached s" s "open_on as" "(h_fop h, h_mode h)" "open_on (bs @ record_handles s)"] by simp
  show "\<exists>f. fops s (h_fop h) = Some f" "h_fop h \<notin> detached s" using fs_inv_live [OF inv, of "(h_fop h, h_mode h)"] by auto
  show "\<not> expired h" using assms by (simp add: fs_ok_def)
qed

lemma close_ok:
  assumes "fs_ok valid s (as @ h # bs)"
  shows "\<exists>s' h'. close D s h = Some (s', h') \<and> evolves valid s s' \<and> fs_ok valid s' (as @ bs)"
proof -
  obtain s' h' where "close D s h = Some (s', h')" "evolves valid s s'"
      "fs_inv valid (detached s) s' (open_on ((as @ bs) @ record_handles s))"
    using close_inv [OF fs_ok_handle(1,4) [OF assms]] by blast
  moreover from this have "fs_ok valid s' (as @ bs)"
    using assms by (intro fs_ok_same [OF assms evolves_grows]) (auto simp: evolves_def fs_ok_def)
  ultimately show ?thesis by blast
qed

lemma create_ok:
  assumes "fs_ok valid s (as @ h # bs)"
  shows "\<exists>s' h' e. handle_create D s h name type = Some (s', h', e) \<and> evolves valid s s' \<and> fs_ok valid s' (as @ h' # bs)"
proof -
  obtain f where "fops s (h_fop h) = Some f" using fs_ok_handle(2) [OF assms] by blast
  from handle_create_inv [OF fs_ok_inv [OF assms] this fs_ok_handle(3) [OF assms]]
  obtain s' h' e where c: "handle_create D s h name type = Some (s', h', e)" "same_handle h h'" "evolves valid s s'"
      "fs_inv valid (detached s) s' (open_on ((as @ h # bs) @ record_handles s))" by blast
  then have "fs_ok valid s' (as @ h' # bs)"
    using assms by (intro fs_ok_same [OF assms evolves_grows]) (auto simp: evolves_def fs_ok_def same_handle_def)
  with c show ?thesis by blast
qed

lemma handle_open_ok:
  assumes "fs_ok valid s (as @ h # bs)" "room s (as @ h # bs)"
  shows "\<exists>s' h' r. handle_open D s h name mode = Some (s', h', r) \<and> evolves valid s s' \<and>
     fs_ok valid s' (case r of Inl e \<Rightarrow> as @ h' # bs | Inr n \<Rightarrow> n # as @ h' # bs)"
proof -
  obtain f where f: "fops s (h_fop h) = Some f" using fs_ok_handle(2) [OF assms(1)] by blast
  have "length (open_on ((as @ h # bs) @ record_handles s)) + 1 < 2 ^ 32" using assms(2) by (simp add: room_def)
  from handle_open_inv [OF fs_ok_inv [OF assms(1)] f fs_ok_handle(3) [OF assms(1)] this, of name mode]
  obtain s' h' r where o: "handle_open D s h name mode = Some (s', h', r)" "same_handle h h'"
    "opened valid (detached s) s (open_on ((as @ h # bs) @ record_handles s)) mode (s', r)" by blast
  have live: "\<forall>h \<in> set (as @ h' # bs). \<not> expired h" using assms(1) o(2) by (auto simp: fs_ok_def same_handle_def)
  from o(3) show ?thesis
  proof (cases rule: openedE)
    case (1 s1 e)
    then have "fs_ok valid s' (as @ h' # bs)"
      using live o(2) by (intro fs_ok_same [OF assms(1) evolves_grows]) (auto simp: evolves_def same_handle_def)
    then show ?thesis using o(1) 1 by simp
  next
    case (2 s1 n)
    then have "fs_ok valid s' (n # as @ h' # bs)"
      using live o(2) by (intro fs_ok_same [OF assms(1) evolves_grows]) (auto simp: evolves_def same_handle_def)
    then show ?thesis using o(1) 2 by simp
  qed
qed

lemma fs_run_ok:
  assumes "fs_run D V s0 hs0 s hs" "fs_ok valid s0 hs0"
  shows "fs_ok valid s hs \<and> grows s0 s"
  using assms(1)
proof induction
  case start
  then show ?case using assms(2) evolves_refl evolves_grows by blast
next
  case (opens s hs path mode s' h)
  then have "evolves valid s s'" "fs_ok valid s' (h # hs)"
    using open_path_ok [of s hs path mode] by auto
  then show ?case using opens.IH grows_trans evolves_grows by blast
next
  case (open_fails s hs path mode s' e)
  then have "evolves valid s s'" "fs_ok valid s' hs"
    using open_path_ok [of s hs path mode] by auto
  then show ?case using open_fails.IH grows_trans evolves_grows by blast
next
  case (opens_below s as h bs name mode s' h' n)
  then have "evolves valid s s'" "fs_ok valid s' (n # as @ h' # bs)"
    using handle_open_ok [of s as h bs name mode] by auto
  then show ?case using opens_below.IH grows_trans evolves_grows by blast
next
  case (closes s as h bs s' h')
  then have "evolves valid s s'" "fs_ok valid s' (as @ bs)"
    using close_ok [of s as h bs] by auto
  then show ?case using closes.IH grows_trans evolves_grows by blast
next
  case (creates s as h bs name type s' h' e)
  then have "evolves valid s s'" "fs_ok valid s' (as @ h' # bs)"
    using create_ok [of s as h bs name type] by auto
  then show ?case using creates.IH grows_trans evolves_grows by blast
next
  case (mounts s hs device path e s')
  then have "grows s s'" "fs_ok valid s' hs"
    using mount_inv [of s hs device path] by auto
  then show ?case using mounts.IH grows_trans by blast
qed

text \<open>The counts are the numbers of open handles, and every operation on an open handle returns.\<close>

lemma counts_are_handles:
  assumes "fs_ok valid s hs" "fops s p = Some f"
  shows "unat (read_count (f_counts f)) = length (filter (\<lambda>h. h_fop h = p \<and> om_read (h_mode h)) (hs @ record_handles s))"
    "unat (write_count (f_counts f)) = length (filter (\<lambda>h. h_fop h = p \<and> om_write (h_mode h)) (hs @ record_handles s))"
  using fs_inv_fop [OF fs_ok_inv [OF assms(1)] assms(2)]
  by (simp_all add: fop_ok_def counted_def readers_of_def writers_of_def filter_map comp_def)

lemma handles_live:
  assumes "fs_ok valid s hs" "h \<in> set (hs @ record_handles s)"
  shows "\<exists>f. fops s (h_fop h) = Some f"
  using fs_inv_live [OF fs_ok_inv [OF assms(1)], of "(h_fop h, h_mode h)"] assms(2) by auto

lemma busy_volume:
  assumes ok: "fs_ok valid s hs" and m: "m \<in> set (mount_records s)" "fops s (mr_root m) = Some g" "f_children g \<noteq> []"
    and run: "fs_run D V s hs s' hs'"
      "split_last (\<lambda>m'. mr_path m' = normalize_path path) (mount_records s') = Some (before, m, after)"
  shows "unmount D s' path = Some (VolumeBusy, s')"
proof -
  have grows: "grows s s'" using fs_run_ok [OF run(1) ok] by blast
  obtain f where f: "fops s (h_fop (mr_handle m)) = Some f" "f_mount f = Some (mr_root m)"
    using ok m(1) unfolding fs_ok_def records_ok_def by blast
  obtain f' where f': "fops s' (h_fop (mr_handle m)) = Some f'" "f_mount f \<noteq> None \<longrightarrow> f_mount f' = f_mount f"
    using grows f(1) unfolding grows_def by blast
  obtain g' where g': "fops s' (mr_root m) = Some g'" "set (f_children g) \<subseteq> set (f_children g')"
    using grows m(2) unfolding grows_def by blast
  have "is_busy g'" using m(3) g'(2) by (cases "f_children g'") (auto simp: is_busy_def)
  then show ?thesis using run(2) f f' g' by (simp add: unmount_def)
qed

end

end
