(* ===== verification/Fs_Drivers.thy ===== *)
theory Fs_Drivers
  imports Fs_Runs Byte_Layout
begin

text \<open>
  The drivers of the built-in file systems: the root (\<^verbatim>\<open>src/fs/drivers/basic.hpp\<close>), the temporary file system
  (\<^verbatim>\<open>src/fs/drivers/tmp.hpp\<close>) and the device file system (\<^verbatim>\<open>src/fs/drivers/dev/driver.hpp\<close>) with its devices
  (\<^verbatim>\<open>dev/base.hpp\<close>, \<^verbatim>\<open>dev/block.hpp\<close>, \<^verbatim>\<open>dev/fb.hpp\<close>, \<^verbatim>\<open>dev/keyboard.hpp\<close>, \<^verbatim>\<open>src/devfs\<close>). They are instances of the
  contract of a driver, so the properties of the manager hold for them.

  The objects a driver points to are in stores of addresses, members of \<open>drv_state\<close>; an address that holds no object
  is undefined to follow. The maps of the source are association lists, in the order in which they are iterated.
\<close>

section \<open>Root\<close>

definition basic_dev :: file_abstract_data where
  "basic_dev = (\<lparr>fa_name = ''dev'', fa_filesize = 0, fa_type = Directory, fa_blocksize_exp = 0,
     fa_attributes = default_attributes\<rparr>, 1)"

definition basic_find :: "nat \<Rightarrow> string \<Rightarrow> file_abstract_data result" where
  "basic_find fop_data name =
     (if fop_data \<noteq> 0 then Inl InvalidData else if name \<noteq> ''dev'' then Inl NoSuchFile else Inr basic_dev)"

definition basic_readdir :: "nat \<Rightarrow> nat \<Rightarrow> file_abstract_data result" where
  "basic_readdir fop_data index =
     (if fop_data \<noteq> 0 then Inl InvalidData else if index \<noteq> 0 then Inl EndOfFile else Inr basic_dev)"

definition basic_root :: file_abstract_data where
  "basic_root = (\<lparr>fa_name = ''/'', fa_filesize = 1, fa_type = Directory, fa_blocksize_exp = 0,
     fa_attributes = volume_root_attributes\<rparr>, 0)"

definition basic_driver :: "'d driver" where
  "basic_driver = default_driver\<lparr>
     v_find := (\<lambda>d x k name. Some (basic_find x name, k, d)),
     v_create := (\<lambda>d x k name type. Some (Inl NotSupported, k, d)),
     v_readdir := (\<lambda>d x k index. Some (basic_readdir x index, k, d)),
     v_remove := (\<lambda>d x k name. Some (NotSupported, k, d))\<rparr>"

section \<open>Devices\<close>

record keyboard_packet =
  kp_keycode :: u8
  kp_modifier :: u8
  kp_ascii :: u8
  kp_padding :: u8

datatype device =
    BlockDevice nat nat
  | PartitionBlockDevice nat nat nat
  | GOPFrameBuffer "u8 list" nat nat "u8 list"
  | USBKeyboard "keyboard_packet list" bool

text \<open>
  A block device has its sector size and the number of its sectors, a partition the address of the block device, its
  first sector and the number of its sectors, a frame buffer the back buffer, its width and height and the memory on
  screen, and a keyboard the packets and whether it is active.
\<close>

datatype tmp_object = TmpFile string nat | TmpDirectory string "(string \<times> nat) list"

record drv_state =
  objects :: "nat \<Rightarrow> tmp_object option"
  next_object :: nat
  devices :: "(string \<times> nat) list"
  device_at :: "nat \<Rightarrow> device option"
  next_device :: nat

definition device_type_of :: "device \<Rightarrow> device_type" where
  "device_type_of dev =
     (case dev of
        BlockDevice _ _ \<Rightarrow> BlockDev
      | PartitionBlockDevice _ _ _ \<Rightarrow> BlockDev
      | GOPFrameBuffer _ _ _ _ \<Rightarrow> Framebuffer
      | USBKeyboard _ _ \<Rightarrow> Keyboard)"

definition bytes_per_sector_of :: "drv_state \<Rightarrow> nat \<Rightarrow> nat option" where
  "bytes_per_sector_of d base = (case device_at d base of Some (BlockDevice bytes _) \<Rightarrow> Some bytes | _ \<Rightarrow> None)"

definition block_get_filesize :: "nat \<Rightarrow> nat \<Rightarrow> nat" where
  "block_get_filesize bytes sectors = bytes * sectors mod 2 ^ 64"

definition partition_get_filesize :: "drv_state \<Rightarrow> nat \<Rightarrow> nat \<Rightarrow> nat option" where
  "partition_get_filesize d base sectors = map_option (\<lambda>bytes. bytes * sectors mod 2 ^ 64) (bytes_per_sector_of d base)"

definition calc_limit :: "nat \<Rightarrow> nat \<Rightarrow> nat" where
  "calc_limit w h = w * h * 4 mod 2 ^ 64"

definition keyboard_get_filesize :: "keyboard_packet list \<Rightarrow> nat" where
  "keyboard_get_filesize packets = length packets * 4"

definition device_filesize :: "drv_state \<Rightarrow> device \<Rightarrow> nat option" where
  "device_filesize d dev =
     (case dev of
        BlockDevice bytes sectors \<Rightarrow> Some (block_get_filesize bytes sectors)
      | PartitionBlockDevice base first sectors \<Rightarrow> partition_get_filesize d base sectors
      | GOPFrameBuffer data w h screen \<Rightarrow> Some (calc_limit w h)
      | USBKeyboard packets active \<Rightarrow> Some (keyboard_get_filesize packets))"

definition block_get_blocksize_exp :: "nat \<Rightarrow> nat" where
  "block_get_blocksize_exp bytes = countr_zero bytes"

definition partition_get_blocksize_exp :: "drv_state \<Rightarrow> nat \<Rightarrow> nat option" where
  "partition_get_blocksize_exp d base = map_option block_get_blocksize_exp (bytes_per_sector_of d base)"

definition device_blocksize_exp :: "drv_state \<Rightarrow> device \<Rightarrow> nat option" where
  "device_blocksize_exp d dev =
     (case dev of
        BlockDevice bytes sectors \<Rightarrow> Some (block_get_blocksize_exp bytes)
      | PartitionBlockDevice base first sectors \<Rightarrow> partition_get_blocksize_exp d base
      | GOPFrameBuffer data w h screen \<Rightarrow> Some 0
      | USBKeyboard packets active \<Rightarrow> Some 2)"

definition fb_get_attributes :: attributes where
  "fb_get_attributes = \<lparr>read_level = Single, write_level = Single, exclusive = True, volume_root = False, cache = False,
     keep_on_close = False\<rparr>"

definition keyboard_get_attributes :: attributes where
  "keyboard_get_attributes = \<lparr>read_level = Single, write_level = Block, exclusive = True, volume_root = False, cache = False,
     keep_on_close = False\<rparr>"

definition device_attributes :: "device \<Rightarrow> attributes" where
  "device_attributes dev =
     (case dev of
        GOPFrameBuffer _ _ _ _ \<Rightarrow> fb_get_attributes
      | USBKeyboard _ _ \<Rightarrow> keyboard_get_attributes
      | _ \<Rightarrow> default_attributes)"

subsection \<open>Frame buffer\<close>

text \<open>
  \<^verbatim>\<open>copy\<close> of a frame buffer, with the bytes to write in \<open>buffer\<close>; it returns the bytes read or the new contents. A sum
  that wraps around passes the test and copies outside of the frame buffer.
\<close>

definition fb_range :: "nat \<Rightarrow> nat \<Rightarrow> nat \<Rightarrow> nat \<Rightarrow> nat result option" where
  "fb_range w h offset count =
     (let limit = calc_limit w h in
      if (offset + count) mod 2 ^ 64 \<ge> limit then Some (Inl EndOfFile)
      else if offset + count \<ge> 2 ^ 64 then None
      else Some (Inr (min (limit - offset) count)))"

definition fb_read :: "u8 list \<Rightarrow> nat \<Rightarrow> nat \<Rightarrow> nat \<Rightarrow> nat \<Rightarrow> u8 list result option" where
  "fb_read data w h offset count =
     map_option (\<lambda>r. case r of Inl e \<Rightarrow> Inl e | Inr n \<Rightarrow> Inr (take n (drop offset data))) (fb_range w h offset count)"

definition fb_write :: "u8 list \<Rightarrow> nat \<Rightarrow> nat \<Rightarrow> nat \<Rightarrow> u8 list \<Rightarrow> (u8 list \<times> nat) result option" where
  "fb_write data w h offset buffer =
     map_option (\<lambda>r. case r of Inl e \<Rightarrow> Inl e
         | Inr n \<Rightarrow> Inr (take offset data @ take n buffer @ drop (offset + n) data, n))
       (fb_range w h offset (length buffer))"

definition gop_swap :: "device \<Rightarrow> device" where
  "gop_swap dev =
     (case dev of
        GOPFrameBuffer data w h screen \<Rightarrow> GOPFrameBuffer data w h (data @ drop (length data) screen)
      | _ \<Rightarrow> dev)"

definition new_gop_framebuffer :: "nat \<Rightarrow> nat \<Rightarrow> u8 list \<Rightarrow> device" where
  "new_gop_framebuffer w h screen = GOPFrameBuffer (replicate (w * h * 4) 0) w h screen"

subsection \<open>Keyboard\<close>

definition push_packet :: "keyboard_packet \<Rightarrow> device \<Rightarrow> device" where
  "push_packet p dev =
     (case dev of
        USBKeyboard packets active \<Rightarrow> if \<not> active then dev else USBKeyboard (packets @ [p]) active
      | _ \<Rightarrow> dev)"

text \<open>
  \<^verbatim>\<open>read\<close> of a keyboard: \<open>None\<close> while it waits for a packet. It counts in packets but returns a number of bytes.
\<close>

definition keyboard_read ::
  "keyboard_packet list \<Rightarrow> nat \<Rightarrow> nat \<Rightarrow> (keyboard_packet list \<times> (keyboard_packet list \<times> nat) result) option" where
  "keyboard_read packets block count =
     (if block \<noteq> 0 then Some (packets, Inl IndexOutOfRange)
      else let copy_num = min count (length packets) in
        if copy_num = 0 then None else Some (drop copy_num packets, Inr (take copy_num packets, 4 * copy_num)))"

definition device_on_handle_create :: "device \<Rightarrow> device" where
  "device_on_handle_create dev = (case dev of USBKeyboard packets active \<Rightarrow> USBKeyboard packets True | _ \<Rightarrow> dev)"

definition device_on_handle_destroy :: "device \<Rightarrow> device" where
  "device_on_handle_destroy dev = (case dev of USBKeyboard packets active \<Rightarrow> USBKeyboard [] False | _ \<Rightarrow> dev)"

section \<open>Device file system\<close>

definition device_abstract :: "drv_state \<Rightarrow> string \<Rightarrow> nat \<Rightarrow> nat \<Rightarrow> file_abstract_data option" where
  "device_abstract d name p data =
     do {
       dev \<leftarrow> device_at d p;
       size \<leftarrow> device_filesize d dev;
       b \<leftarrow> device_blocksize_exp d dev;
       Some (\<lparr>fa_name = name, fa_filesize = size, fa_type = Device, fa_blocksize_exp = b,
              fa_attributes = device_attributes dev\<rparr>, data)
     }"

definition dev_find :: "drv_state \<Rightarrow> nat \<Rightarrow> string \<Rightarrow> file_abstract_data result option" where
  "dev_find d fop_data name =
     (if fop_data \<noteq> 0 then Some (Inl NotDirectory)
      else case map_of (devices d) name of
        Some p \<Rightarrow> map_option Inr (device_abstract d name p p)
      | None \<Rightarrow> Some (Inl NoSuchFile))"

definition dev_readdir :: "drv_state \<Rightarrow> nat \<Rightarrow> nat \<Rightarrow> file_abstract_data result option" where
  "dev_readdir d fop_data index =
     (if fop_data \<noteq> 0 then Some (Inl NotDirectory)
      else if index \<ge> length (devices d) then Some (Inl EndOfFile)
      else let (name, p) = devices d ! index in map_option Inr (device_abstract d name p p))"

definition dev_remove :: "drv_state \<Rightarrow> nat \<Rightarrow> string \<Rightarrow> error_code \<times> drv_state" where
  "dev_remove d fop_data name =
     (if fop_data \<noteq> 0 then (NotDirectory, d)
      else case map_of (devices d) name of
        Some p \<Rightarrow> (Success, d\<lparr>devices := filter (\<lambda>e. fst e \<noteq> name) (devices d), device_at := (device_at d)(p := None)\<rparr>)
      | None \<Rightarrow> (NoSuchFile, d))"

definition dev_get_device_type :: "drv_state \<Rightarrow> nat \<Rightarrow> device_type option" where
  "dev_get_device_type d fop_data = map_option device_type_of (device_at d fop_data)"

text \<open>The driver data that \<^verbatim>\<open>create_device\<close> returns is the address of a local variable; it is discarded by the caller, and here \<open>0\<close>.\<close>

definition dev_create_device ::
  "drv_state \<Rightarrow> nat \<Rightarrow> string \<Rightarrow> nat \<Rightarrow> (file_abstract_data result \<times> drv_state) option" where
  "dev_create_device d fop_data name device_impl =
     (if fop_data \<noteq> 0 then Some (Inl NotDirectory, d)
      else if map_of (devices d) name \<noteq> None then Some (Inl FileExists, d)
      else do {
        ad \<leftarrow> device_abstract d name device_impl 0;
        Some (Inr ad, d\<lparr>devices := devices d @ [(name, device_impl)]\<rparr>)
      })"

text \<open>
  \<^verbatim>\<open>control_device\<close>. Both kinds of block devices report the type \<^verbatim>\<open>Block\<close>, and the pointer is taken for one to a
  \<^verbatim>\<open>BlockDevice\<close>: for a partition the member read as \<^verbatim>\<open>bytes_per_sector\<close> is the pointer \<^verbatim>\<open>base\<close>.
\<close>

definition dev_control_device ::
  "drv_state \<Rightarrow> nat \<Rightarrow> device_operation \<Rightarrow> (error_code \<times> control_output \<times> drv_state) option" where
  "dev_control_device d fop_data op =
     (if fop_data = 0 then Some (NotFile, NoOutput, d)
      else case device_at d fop_data of
        None \<Rightarrow> None
      | Some dev \<Rightarrow> Some (case dev of
          GOPFrameBuffer data w h screen \<Rightarrow>
            (case op of
               GetSize \<Rightarrow> (Success, OutSize w h, d)
             | GetDirectPointer \<Rightarrow> (Success, OutPointer fop_data, d)
             | Swap \<Rightarrow> (Success, NoOutput, d\<lparr>device_at := (device_at d)(fop_data \<mapsto> gop_swap dev)\<rparr>)
             | IsDoubleBuffered \<Rightarrow> (Success, OutFlag False, d)
             | _ \<Rightarrow> (InvalidDeviceOperation, NoOutput, d))
        | USBKeyboard _ _ \<Rightarrow> (InvalidDeviceOperation, NoOutput, d)
        | BlockDevice bytes sectors \<Rightarrow>
            (if op = GetBytesPerSector then (Success, OutBytes bytes, d) else (InvalidDeviceOperation, NoOutput, d))
        | PartitionBlockDevice base first sectors \<Rightarrow>
            (if op = GetBytesPerSector then (Success, OutBytes base, d) else (InvalidDeviceOperation, NoOutput, d))))"

text \<open>
  \<^verbatim>\<open>create_handle_data\<close> and \<^verbatim>\<open>destroy_handle_data\<close>. The test is the wrong way round: on the root, whose data is 0, they
  call a virtual function through a null pointer. What that call does is the argument \<open>null_create\<close> or
  \<open>null_destroy\<close>, \<open>None\<close> in the language.
\<close>

definition dev_create_handle_data :: "nat result option \<Rightarrow> nat \<Rightarrow> nat result option" where
  "dev_create_handle_data null_create fop_data = (if fop_data \<noteq> 0 then Some (Inr 0) else null_create)"

definition dev_destroy_handle_data :: "error_code option \<Rightarrow> nat \<Rightarrow> error_code option" where
  "dev_destroy_handle_data null_destroy fop_data = (if fop_data \<noteq> 0 then Some Success else null_destroy)"

definition dev_on_handle :: "(device \<Rightarrow> device) \<Rightarrow> drv_state \<Rightarrow> nat \<Rightarrow> drv_state option" where
  "dev_on_handle f d fop_data =
     (if fop_data = 0 then Some d
      else map_option (\<lambda>dev. d\<lparr>device_at := (device_at d)(fop_data \<mapsto> f dev)\<rparr>) (device_at d fop_data))"

definition dev_root :: file_abstract_data where
  "dev_root = (\<lparr>fa_name = ''/'', fa_filesize = 0, fa_type = Directory, fa_blocksize_exp = 0,
     fa_attributes = volume_root_attributes\<rparr>, 0)"

definition dev_driver :: "nat result option \<Rightarrow> error_code option \<Rightarrow> drv_state driver" where
  "dev_driver null_create null_destroy =
     \<lparr>v_find = (\<lambda>d x k name. map_option (\<lambda>r. (r, k, d)) (dev_find d x name)),
      v_create = (\<lambda>d x k name type. Some (Inl NotSupported, k, d)),
      v_readdir = (\<lambda>d x k index. map_option (\<lambda>r. (r, k, d)) (dev_readdir d x index)),
      v_remove = (\<lambda>d x k name. let (e, d) = dev_remove d x name in Some (e, k, d)),
      v_get_device_type = dev_get_device_type,
      v_create_device = (\<lambda>d x k name impl. map_option (\<lambda>(r, d). (r, k, d)) (dev_create_device d x name impl)),
      v_control_device = (\<lambda>d x k op. map_option (\<lambda>(e, out, d). (e, out, k, d)) (dev_control_device d x op)),
      v_create_handle_data = (\<lambda>d x. map_option (\<lambda>r. (r, d)) (dev_create_handle_data null_create x)),
      v_destroy_handle_data = (\<lambda>d x k. map_option (\<lambda>e. (e, k, d)) (dev_destroy_handle_data null_destroy x)),
      v_on_handle_create = (\<lambda>d x k. map_option (\<lambda>d. (k, d)) (dev_on_handle device_on_handle_create d x)),
      v_on_handle_destroy = (\<lambda>d x k. map_option (\<lambda>d. (k, d)) (dev_on_handle device_on_handle_destroy d x))\<rparr>"

section \<open>Temporary file system\<close>

definition tmp_build_abstract :: "tmp_object \<Rightarrow> nat \<Rightarrow> file_abstract_data" where
  "tmp_build_abstract obj p =
     (let attr = (\<lambda>file. \<lparr>read_level = Single, write_level = Single, exclusive = True, volume_root = False, cache = True,
            keep_on_close = file\<rparr>) in
      case obj of
        TmpFile name bytes \<Rightarrow>
          (\<lparr>fa_name = name, fa_filesize = bytes, fa_type = Regular, fa_blocksize_exp = 0, fa_attributes = attr True\<rparr>, p)
      | TmpDirectory name children \<Rightarrow>
          (\<lparr>fa_name = name, fa_filesize = length children, fa_type = Directory, fa_blocksize_exp = 0,
            fa_attributes = attr False\<rparr>, p))"

definition is_tmp_file :: "tmp_object \<Rightarrow> bool" where
  "is_tmp_file obj = (case obj of TmpFile _ _ \<Rightarrow> True | TmpDirectory _ _ \<Rightarrow> False)"

text \<open>\<^verbatim>\<open>read\<close> and \<^verbatim>\<open>write\<close> copy nothing and return an error with the code of success.\<close>

definition tmp_read_write :: "drv_state \<Rightarrow> nat \<Rightarrow> nat result option" where
  "tmp_read_write d fop_data = map_option (\<lambda>obj. Inl (if is_tmp_file obj then Success else NotFile)) (objects d fop_data)"

definition data_as_directory :: "drv_state \<Rightarrow> nat \<Rightarrow> (string \<times> (string \<times> nat) list) result option" where
  "data_as_directory d data =
     map_option (\<lambda>obj. case obj of TmpFile _ _ \<Rightarrow> Inl NotDirectory | TmpDirectory name children \<Rightarrow> Inr (name, children))
       (objects d data)"

definition tmp_find :: "drv_state \<Rightarrow> nat \<Rightarrow> string \<Rightarrow> file_abstract_data result option" where
  "tmp_find d fop_data name =
     do {
       dir \<leftarrow> data_as_directory d fop_data;
       (case dir of
          Inl e \<Rightarrow> Some (Inl e)
        | Inr (_, children) \<Rightarrow>
            (case map_of children name of
               Some p \<Rightarrow> map_option (\<lambda>obj. Inr (tmp_build_abstract obj p)) (objects d p)
             | None \<Rightarrow> Some (Inl NoSuchFile)))
     }"

definition tmp_emplace :: "drv_state \<Rightarrow> nat \<Rightarrow> string \<Rightarrow> (string \<times> nat) list \<Rightarrow> string \<Rightarrow> tmp_object \<Rightarrow> nat \<times> drv_state" where
  "tmp_emplace d dir dirname children name obj =
     (let p = next_object d in
      (p, d\<lparr>objects := (objects d)(dir \<mapsto> TmpDirectory dirname (children @ [(name, p)]), p \<mapsto> obj), next_object := Suc p\<rparr>))"

definition tmp_create :: "drv_state \<Rightarrow> nat \<Rightarrow> string \<Rightarrow> file_type \<Rightarrow> (file_abstract_data result \<times> drv_state) option" where
  "tmp_create d fop_data name type =
     do {
       dir \<leftarrow> data_as_directory d fop_data;
       (case dir of
          Inl e \<Rightarrow> Some (Inl e, d)
        | Inr (dirname, children) \<Rightarrow>
            if map_of children name \<noteq> None then Some (Inl FileExists, d)
            else let add = (\<lambda>obj. let (p, d) = tmp_emplace d fop_data dirname children name obj in
                       Some (Inr (tmp_build_abstract obj p), d)) in
              (case type of
                 Regular \<Rightarrow> add (TmpFile name 0)
               | Directory \<Rightarrow> add (TmpDirectory name [])
               | _ \<Rightarrow> Some (Inl NotImplemented, d)))
     }"

definition tmp_readdir :: "drv_state \<Rightarrow> nat \<Rightarrow> nat \<Rightarrow> file_abstract_data result option" where
  "tmp_readdir d fop_data index =
     do {
       dir \<leftarrow> data_as_directory d fop_data;
       (case dir of
          Inl e \<Rightarrow> Some (Inl e)
        | Inr (_, children) \<Rightarrow>
            if index = length children then Some (Inl EndOfFile)
            else if index > length children then Some (Inl IndexOutOfRange)
            else let p = snd (children ! index) in map_option (\<lambda>obj. Inr (tmp_build_abstract obj p)) (objects d p))
     }"

text \<open>Erasing a child destroys it with everything below; \<open>fuel\<close> bounds the depth.\<close>

fun tmp_free :: "nat \<Rightarrow> nat \<Rightarrow> (nat \<Rightarrow> tmp_object option) \<Rightarrow> (nat \<Rightarrow> tmp_object option)" where
  "tmp_free 0 p h = h"
| "tmp_free (Suc fuel) p h =
     (case h p of
        None \<Rightarrow> h
      | Some (TmpFile _ _) \<Rightarrow> h(p := None)
      | Some (TmpDirectory _ children) \<Rightarrow> fold (\<lambda>c. tmp_free fuel (snd c)) children (h(p := None)))"

definition tmp_remove :: "drv_state \<Rightarrow> nat \<Rightarrow> string \<Rightarrow> (error_code \<times> drv_state) option" where
  "tmp_remove d fop_data name =
     do {
       dir \<leftarrow> data_as_directory d fop_data;
       Some (case dir of
          Inl e \<Rightarrow> (e, d)
        | Inr (dirname, children) \<Rightarrow>
            (case map_of children name of
               None \<Rightarrow> (NoSuchFile, d)
             | Some p \<Rightarrow> (Success, d\<lparr>objects :=
                 tmp_free (next_object d) p
                   ((objects d)(fop_data \<mapsto> TmpDirectory dirname (filter (\<lambda>c. fst c \<noteq> name) children)))\<rparr>)))
     }"

definition tmp_driver :: "drv_state driver" where
  "tmp_driver = default_driver\<lparr>
     v_find := (\<lambda>d x k name. map_option (\<lambda>r. (r, k, d)) (tmp_find d x name)),
     v_create := (\<lambda>d x k name type. map_option (\<lambda>(r, d). (r, k, d)) (tmp_create d x name type)),
     v_readdir := (\<lambda>d x k index. map_option (\<lambda>r. (r, k, d)) (tmp_readdir d x index)),
     v_remove := (\<lambda>d x k name. map_option (\<lambda>(e, d). (e, k, d)) (tmp_remove d x name))\<rparr>"

text \<open>The constructor of the driver: the root directory is the object \<^verbatim>\<open>data\<close> in the driver.\<close>

definition new_tmp_driver :: "drv_state \<Rightarrow> drv_state \<times> nat \<times> file_abstract_data" where
  "new_tmp_driver d =
     (let p = next_object d in
      (d\<lparr>objects := (objects d)(p \<mapsto> TmpDirectory ''/'' []), next_object := Suc p\<rparr>, 2,
       (\<lparr>fa_name = ''/'', fa_filesize = 0, fa_type = Directory, fa_blocksize_exp = 0,
         fa_attributes = volume_root_attributes\<rparr>, p)))"

section \<open>Disks\<close>

text \<open>
  \<^verbatim>\<open>set_sata_devices\<close> of \<^verbatim>\<open>src/fs/manager.hpp\<close>: a device file for every disk and every partition. The disks are given
  by the addresses of their block devices, the partition scanner is the argument \<open>find_partitions\<close>. The number of
  sectors of partition \<open>j\<close> is taken from the entry with the number \<open>i\<close> of the disk; without such an entry the read is
  out of range.
\<close>

fun dec :: "nat \<Rightarrow> string" where
  "dec n = (if n < 10 then [char_of (48 + n)] else dec (n div 10) @ [char_of (48 + n mod 10)])"

declare dec.simps [simp del]

fun add_partitions ::
  "(nat \<Rightarrow> drv_state driver) \<Rightarrow> nat \<Rightarrow> nat \<Rightarrow> (nat \<times> nat) list \<Rightarrow> nat \<Rightarrow> (nat \<times> nat) list \<Rightarrow> drv_state fs \<Rightarrow> drv_state fs option" where
  "add_partitions D i disk partitions j [] s = Some s"
| "add_partitions D i disk partitions j ((lba_start, lba_last) # rest) s =
     do {
       (start_i, last_i) \<leftarrow> (if i < length partitions then Some (partitions ! i) else None);
       let p = next_device (dstate s);
       let partdev = PartitionBlockDevice disk lba_start ((last_i + 2 ^ 64 - start_i + 1) mod 2 ^ 64);
       let s = s\<lparr>dstate := (dstate s)\<lparr>device_at := (device_at (dstate s))(p \<mapsto> partdev), next_device := Suc p\<rparr>\<rparr>;
       (e, s) \<leftarrow> create_device_file D s (''disk'' @ dec i @ ''p'' @ dec j) p;
       let s = (if e \<noteq> Success then s\<lparr>dstate := (dstate s)\<lparr>device_at := (device_at (dstate s))(p := None)\<rparr>\<rparr> else s);
       add_partitions D i disk partitions (Suc j) rest s
     }"

fun set_sata_devices ::
  "(nat \<Rightarrow> drv_state driver) \<Rightarrow> (drv_state fs \<Rightarrow> string \<Rightarrow> (drv_state fs \<times> (nat \<times> nat) list result) option) \<Rightarrow>
   nat \<Rightarrow> nat list \<Rightarrow> drv_state fs \<Rightarrow> (error_code \<times> drv_state fs) option" where
  "set_sata_devices D find_partitions i [] s = Some (Success, s)"
| "set_sata_devices D find_partitions i (disk # disks) s =
     do {
       let name = ''disk'' @ dec i;
       (e, s) \<leftarrow> create_device_file D s name disk;
       if e \<noteq> Success then Some (e, s)
       else do {
         bytes \<leftarrow> bytes_per_sector_of (dstate s) disk;
         if bytes > 4096 then set_sata_devices D find_partitions (Suc i) disks s
         else if bytes = 0 then None
         else do {
           (s, r) \<leftarrow> find_partitions s (''/dev/'' @ name);
           (case r of
              Inl e \<Rightarrow> set_sata_devices D find_partitions (Suc i) disks s
            | Inr partitions \<Rightarrow> do {
                s \<leftarrow> add_partitions D i disk partitions 0 partitions s;
                set_sata_devices D find_partitions (Suc i) disks s }) } }
     }"

section \<open>The drivers of the kernel\<close>

text \<open>
  The drivers of the manager: 0 is the root, 1 the device file system, 2 every temporary file system, and the other
  numbers are FAT volumes. The FAT driver and its initialisation are arguments.
\<close>

definition klee_drivers :: "nat result option \<Rightarrow> error_code option \<Rightarrow> drv_state driver \<Rightarrow> nat \<Rightarrow> drv_state driver" where
  "klee_drivers null_create null_destroy fat i =
     (if i = 0 then basic_driver
      else if i = 1 then dev_driver null_create null_destroy
      else if i = 2 then tmp_driver else fat)"

definition klee_volumes ::
  "(drv_state \<Rightarrow> handle \<Rightarrow> (drv_state \<times> (nat \<times> file_abstract_data) result) option) \<Rightarrow> drv_state volumes" where
  "klee_volumes init = \<lparr>new_tmpfs = new_tmp_driver, init_fat = init\<rparr>"

text \<open>
  The state of the drivers: the names of the maps are those of the objects, which exist, and a file was created after
  its directory.
\<close>

definition tmp_name :: "tmp_object \<Rightarrow> string" where
  "tmp_name obj = (case obj of TmpFile name _ \<Rightarrow> name | TmpDirectory name _ \<Rightarrow> name)"

definition drv_wf :: "drv_state \<Rightarrow> bool" where
  "drv_wf d \<longleftrightarrow>
     (\<forall>p. objects d p \<noteq> None \<longrightarrow> p < next_object d) \<and>
     (\<forall>p name children n c. objects d p = Some (TmpDirectory name children) \<and> (n, c) \<in> set children \<longrightarrow>
        (\<exists>obj. objects d c = Some obj \<and> tmp_name obj = n \<and> p < c)) \<and>
     (\<forall>n p. (n, p) \<in> set (devices d) \<longrightarrow> p \<noteq> 0 \<and> device_at d p \<noteq> None) \<and>
     (\<forall>p b f k. device_at d p = Some (PartitionBlockDevice b f k) \<longrightarrow> bytes_per_sector_of d b \<noteq> None)"

definition klee_valid :: "(nat \<Rightarrow> bool) \<Rightarrow> nat \<Rightarrow> drv_state \<Rightarrow> nat \<Rightarrow> bool" where
  "klee_valid fat_ok i d x \<longleftrightarrow> drv_wf d \<and> (i = 1 \<longrightarrow> x = 0 \<or> device_at d x \<noteq> None) \<and> (i = 2 \<longrightarrow> objects d x \<noteq> None) \<and>
     (i > 2 \<longrightarrow> fat_ok x)"

text \<open>
  What is assumed of the FAT driver: on the data it handed out it returns, finds the file that was asked for, and
  changes nothing but the data of the handle; its initialisation returns.
\<close>

definition fat_behaves ::
  "drv_state driver \<Rightarrow> (nat \<Rightarrow> bool) \<Rightarrow>
   (drv_state \<Rightarrow> handle \<Rightarrow> (drv_state \<times> (nat \<times> file_abstract_data) result) option) \<Rightarrow> bool" where
  "fat_behaves fat ok init \<longleftrightarrow>
     (\<forall>d x k name. ok x \<longrightarrow> (\<exists>r k'. v_find fat d x k name = Some (r, k', d) \<and>
        (\<forall>ad. r = Inr ad \<longrightarrow> fa_name (fst ad) = name \<and> ok (snd ad)))) \<and>
     (\<forall>d x k name type. ok x \<longrightarrow> (\<exists>r k'. v_create fat d x k name type = Some (r, k', d))) \<and>
     (\<forall>d x. ok x \<longrightarrow> (\<exists>r. v_create_handle_data fat d x = Some (r, d))) \<and>
     (\<forall>d x k. ok x \<longrightarrow> (\<exists>k'. v_destroy_handle_data fat d x k = Some (Success, k', d)) \<and>
        (\<exists>k'. v_on_handle_create fat d x k = Some (k', d)) \<and> (\<exists>k'. v_on_handle_destroy fat d x k = Some (k', d))) \<and>
     (\<forall>d h. \<exists>r. init d h = Some (d, r) \<and> (\<forall>drv ad. r = Inr (drv, ad) \<longrightarrow> drv > 2 \<and> ok (snd ad)))"

named_theorems driver_defs

lemmas [driver_defs] = klee_drivers_def basic_driver_def dev_driver_def tmp_driver_def default_driver_def

lemma drv_wfD:
  assumes "drv_wf d"
  shows "objects d p = Some obj \<Longrightarrow> p < next_object d"
    "\<lbrakk>objects d p = Some (TmpDirectory name children); (n, c) \<in> set children\<rbrakk> \<Longrightarrow> \<exists>obj. objects d c = Some obj \<and> tmp_name obj = n \<and> p < c"
    "(n, p) \<in> set (devices d) \<Longrightarrow> p \<noteq> 0 \<and> device_at d p \<noteq> None"
    "device_at d p = Some (PartitionBlockDevice b f k) \<Longrightarrow> bytes_per_sector_of d b \<noteq> None"
  using assms unfolding drv_wf_def by blast+

lemma device_abstract_wf:
  assumes "drv_wf d" "device_at d p \<noteq> None"
  shows "\<exists>a. device_abstract d name p data = Some (a, data) \<and> fa_name a = name"
proof -
  obtain dev where dev: "device_at d p = Some dev" using assms(2) by blast
  have "device_filesize d dev \<noteq> None \<and> device_blocksize_exp d dev \<noteq> None"
    using drv_wfD(4) [OF assms(1)] dev by (cases dev) (auto simp: device_filesize_def device_blocksize_exp_def partition_get_filesize_def partition_get_blocksize_exp_def)
  then show ?thesis using dev by (auto simp: device_abstract_def)
qed

lemma dev_find_wf:
  assumes "drv_wf d"
  shows "\<exists>r. dev_find d x name = Some r \<and> (\<forall>ad. r = Inr ad \<longrightarrow> fa_name (fst ad) = name \<and> device_at d (snd ad) \<noteq> None)"
proof (cases "x = 0 \<and> map_of (devices d) name \<noteq> None")
  case True
  then obtain p where p: "map_of (devices d) name = Some p" by blast
  then have dev: "device_at d p \<noteq> None" using drv_wfD(3) [OF assms map_of_SomeD [OF p]] by blast
  then show ?thesis using device_abstract_wf [OF assms dev, of name p] True p by (auto simp: dev_find_def)
next
  case False
  then show ?thesis by (auto simp: dev_find_def)
qed

lemma dev_on_handle_wf:
  assumes wf: "drv_wf d" and x: "x = 0 \<or> device_at d x \<noteq> None" and f: "f = device_on_handle_create \<or> f = device_on_handle_destroy"
  shows "\<exists>d'. dev_on_handle f d x = Some d' \<and> keeps (klee_valid ok) d d'"
proof (cases "x = 0")
  case True
  then show ?thesis by (simp add: dev_on_handle_def)
next
  case False
  then obtain dev where dev: "device_at d x = Some dev" using x by blast
  let ?d = "d\<lparr>device_at := (device_at d)(x \<mapsto> f dev)\<rparr>"
  have kind: "f dev = dev \<or> (\<exists>ps a qs b. dev = USBKeyboard ps a \<and> f dev = USBKeyboard qs b)"
    using f by (cases dev) (auto simp: device_on_handle_create_def device_on_handle_destroy_def)
  then have bytes: "bytes_per_sector_of ?d b = bytes_per_sector_of d b" for b
    using dev by (auto simp: bytes_per_sector_of_def)
  have "drv_wf ?d"
    unfolding drv_wf_def bytes
  proof (intro conjI allI impI)
    fix p b g k assume "device_at ?d p = Some (PartitionBlockDevice b g k)"
    then have "device_at d p = Some (PartitionBlockDevice b g k)" using kind dev by (auto split: if_splits)
    then show "bytes_per_sector_of d b \<noteq> None" by (rule drv_wfD(4) [OF wf])
  qed (use drv_wfD [OF wf] in \<open>auto\<close>)
  then have "keeps (klee_valid ok) d ?d" by (auto simp: keeps_def klee_valid_def)
  then show ?thesis using False dev by (simp add: dev_on_handle_def)
qed

lemma tmp_find_wf:
  assumes "drv_wf d" "objects d x \<noteq> None"
  shows "\<exists>r. tmp_find d x name = Some r \<and> (\<forall>ad. r = Inr ad \<longrightarrow> fa_name (fst ad) = name \<and> objects d (snd ad) \<noteq> None)"
proof (cases "objects d x")
  case (Some obj)
  show ?thesis
  proof (cases obj)
    case (TmpDirectory dir children)
    show ?thesis
    proof (cases "map_of children name")
      case None
      then show ?thesis using Some TmpDirectory by (simp add: tmp_find_def data_as_directory_def)
    next
      case c: (Some c)
      from map_of_SomeD [OF this] obtain o' where "objects d c = Some o'" "tmp_name o' = name"
        using assms(1) Some TmpDirectory unfolding drv_wf_def by blast
      then show ?thesis
        using Some TmpDirectory c
        by (cases o') (auto simp: tmp_find_def data_as_directory_def tmp_build_abstract_def tmp_name_def)
    qed
  qed (use Some in \<open>simp add: tmp_find_def data_as_directory_def\<close>)
qed (use assms in simp)

lemma tmp_emplace_wf:
  assumes wf: "drv_wf d" and dir: "objects d x = Some (TmpDirectory dirname children)"
    and new: "tmp_name obj = name" "obj = TmpFile name 0 \<or> obj = TmpDirectory name []"
  shows "keeps (klee_valid ok) d (snd (tmp_emplace d x dirname children name obj))"
proof -
  let ?p = "next_object d"
  let ?d = "d\<lparr>objects := (objects d)(x \<mapsto> TmpDirectory dirname (children @ [(name, ?p)]), ?p \<mapsto> obj), next_object := Suc ?p\<rparr>"
  have fresh: "objects d ?p = None" "x \<noteq> ?p"
    using wf dir unfolding drv_wf_def by (metis less_irrefl, metis less_irrefl option.distinct(1))
  have bytes: "bytes_per_sector_of ?d b = bytes_per_sector_of d b" for b by (simp add: bytes_per_sector_of_def)
  have old: "\<exists>obj. objects ?d c = Some obj \<and> tmp_name obj = n" if "objects d c = Some o'" "tmp_name o' = n" for c n o'
    using that fresh dir by (auto simp: tmp_name_def)
  have "drv_wf ?d"
    unfolding drv_wf_def bytes
  proof (intro conjI allI impI)
    fix p assume "objects ?d p \<noteq> None"
    then have "p = ?p \<or> objects d p \<noteq> None" using dir by (auto split: if_splits)
    then show "p < next_object ?d" using drv_wfD(1) [OF wf] by (auto simp: less_Suc_eq)
  next
    fix p name' cs n c
    assume "objects ?d p = Some (TmpDirectory name' cs) \<and> (n, c) \<in> set cs"
    then consider "p = x" "cs = children @ [(name, ?p)]" | "objects d p = Some (TmpDirectory name' cs)"
      using new(2) by (auto split: if_splits)
    then show "\<exists>obj. objects ?d c = Some obj \<and> tmp_name obj = n \<and> p < c"
    proof cases
      case 1
      then consider "(n, c) \<in> set children" | "n = name" "c = ?p"
        using \<open>objects ?d p = Some (TmpDirectory name' cs) \<and> (n, c) \<in> set cs\<close> by auto
      then show ?thesis
      proof cases
        case 1
        then have "x < c" "\<exists>o'. objects d c = Some o' \<and> tmp_name o' = n" using drv_wfD(2) [OF wf dir] by blast+
        then show ?thesis using old \<open>p = x\<close> by blast
      qed (use new(1) \<open>p = x\<close> drv_wfD(1) [OF wf dir] in simp)
    next
      case 2
      then have "p < c" "\<exists>o'. objects d c = Some o' \<and> tmp_name o' = n"
        using drv_wfD(2) [OF wf] \<open>objects ?d p = Some (TmpDirectory name' cs) \<and> (n, c) \<in> set cs\<close> by blast+
      then show ?thesis using old by blast
    qed
  next
    fix p b f k assume "device_at ?d p = Some (PartitionBlockDevice b f k)"
    then show "bytes_per_sector_of d b \<noteq> None" using drv_wfD(4) [OF wf] by simp
  qed (use drv_wfD(3) [OF wf] in auto)
  then have "keeps (klee_valid ok) d ?d" by (auto simp: keeps_def klee_valid_def)
  then show ?thesis by (simp add: tmp_emplace_def Let_def)
qed

lemma tmp_create_wf:
  assumes "drv_wf d" "objects d x \<noteq> None"
  shows "\<exists>r d'. tmp_create d x name type = Some (r, d') \<and> keeps (klee_valid ok) d d'"
proof (cases "objects d x")
  case (Some obj)
  show ?thesis
  proof (cases obj)
    case (TmpDirectory dir children)
    note emplace = tmp_emplace_wf [OF assms(1) Some [unfolded TmpDirectory]]
    show ?thesis
      using Some TmpDirectory emplace [of "TmpFile name 0" name ok] emplace [of "TmpDirectory name []" name ok]
      by (cases type) (auto simp: tmp_create_def data_as_directory_def tmp_emplace_def Let_def tmp_name_def)
  qed (use Some in \<open>simp add: tmp_create_def data_as_directory_def\<close>)
qed (use assms in simp)

lemma new_tmp_driver_wf:
  assumes "new_tmp_driver d = (d', drv, ad)"
  shows "keeps (klee_valid ok) d d' \<and> (drv_wf d \<longrightarrow> klee_valid ok drv d' (snd ad))"
proof -
  let ?p = "next_object d"
  have d': "d' = d\<lparr>objects := (objects d)(?p \<mapsto> TmpDirectory ''/'' []), next_object := Suc ?p\<rparr>" "drv = 2" "snd ad = ?p"
    using assms by (auto simp: new_tmp_driver_def Let_def)
  have wf: "drv_wf d'" if wf0: "drv_wf d"
  proof -
    have fresh: "objects d ?p = None" using wf0 unfolding drv_wf_def by (metis less_irrefl)
    have bytes: "bytes_per_sector_of d' b = bytes_per_sector_of d b" for b by (simp add: bytes_per_sector_of_def d')
    show ?thesis
      unfolding drv_wf_def bytes
    proof (intro conjI allI impI)
      fix p name' cs n c
      assume "objects d' p = Some (TmpDirectory name' cs) \<and> (n, c) \<in> set cs"
      then have "objects d p = Some (TmpDirectory name' cs)" "(n, c) \<in> set cs" by (auto simp: d' split: if_splits)
      then obtain o' where "p < c" "objects d c = Some o'" "tmp_name o' = n" using drv_wfD(2) [OF wf0] by blast
      then show "\<exists>obj. objects d' c = Some obj \<and> tmp_name obj = n \<and> p < c" using fresh by (auto simp: d')
    next
      fix p b f k assume "device_at d' p = Some (PartitionBlockDevice b f k)"
      then show "bytes_per_sector_of d b \<noteq> None" using drv_wfD(4) [OF wf0] by (simp add: d')
    qed (use drv_wfD(1,3) [OF wf0] in \<open>auto simp: d' less_Suc_eq split: if_splits\<close>)
  qed
  then show ?thesis by (auto simp: keeps_def klee_valid_def d')
qed

lemma fat_behavesD:
  assumes "fat_behaves fat ok init"
  shows "ok x \<Longrightarrow> \<exists>r k'. v_find fat d x k name = Some (r, k', d) \<and> (\<forall>ad. r = Inr ad \<longrightarrow> fa_name (fst ad) = name \<and> ok (snd ad))"
    "ok x \<Longrightarrow> \<exists>r k'. v_create fat d x k name type = Some (r, k', d)"
    "ok x \<Longrightarrow> \<exists>r. v_create_handle_data fat d x = Some (r, d)"
    "ok x \<Longrightarrow> \<exists>k'. v_destroy_handle_data fat d x k = Some (Success, k', d)"
    "ok x \<Longrightarrow> \<exists>k'. v_on_handle_create fat d x k = Some (k', d)"
    "ok x \<Longrightarrow> \<exists>k'. v_on_handle_destroy fat d x k = Some (k', d)"
    "\<exists>r. init d h = Some (d, r) \<and> (\<forall>drv ad. r = Inr (drv, ad) \<longrightarrow> drv > 2 \<and> ok (snd ad))"
  using assms unfolding fat_behaves_def by blast+

lemma klee_valid_cases:
  assumes "klee_valid ok i d x"
  obtains "i = 0" "drv_wf d" | "i = 1" "drv_wf d" "x = 0 \<or> device_at d x \<noteq> None" | "i = 2" "drv_wf d" "objects d x \<noteq> None"
    | "i > 2" "drv_wf d" "ok x"
proof (cases "i = 0 \<or> i = 1 \<or> i = 2")
  case True
  then show ?thesis using assms that by (auto simp: klee_valid_def)
next
  case False
  then have "i > 2" by linarith
  then show ?thesis using assms that by (simp add: klee_valid_def)
qed

theorem klee_contract:
  assumes fat: "fat_behaves fat ok init"
  shows "volume_contract (klee_drivers (Some nc) (Some Success) fat) (klee_valid ok) (klee_volumes init)"
proof
  let ?D = "klee_drivers (Some nc) (Some Success) fat" and ?v = "klee_valid ok"
  fix i d x k name type
  assume v: "?v i d x"
  show "\<exists>r k' d'. v_find (?D i) d x k name = Some (r, k', d') \<and> keeps ?v d d' \<and>
      (\<forall>ad. r = Inr ad \<longrightarrow> fa_name (fst ad) = name \<and> ?v i d' (snd ad))"
    using v
  proof (cases rule: klee_valid_cases)
    case 1
    then show ?thesis by (auto simp: driver_defs basic_find_def basic_dev_def klee_valid_def)
  next
    case 2
    then show ?thesis using dev_find_wf [OF 2(2), of x name] by (auto simp: driver_defs klee_valid_def)
  next
    case 3
    then show ?thesis using tmp_find_wf [OF 3(2,3), of name] by (auto simp: driver_defs klee_valid_def)
  next
    case 4
    then show ?thesis using fat_behavesD(1) [OF fat 4(3), of d k name] by (auto simp: driver_defs klee_valid_def)
  qed
  show "\<exists>r k' d'. v_create (?D i) d x k name type = Some (r, k', d') \<and> keeps ?v d d'"
    using v
  proof (cases rule: klee_valid_cases)
    case 3
    then show ?thesis using tmp_create_wf [OF 3(2,3), of name type ok] by (auto simp: driver_defs)
  next
    case 4
    then show ?thesis using fat_behavesD(2) [OF fat 4(3), of d k name type] by (auto simp: driver_defs)
  qed (auto simp: driver_defs)
  show "\<exists>r d'. v_create_handle_data (?D i) d x = Some (r, d') \<and> keeps ?v d d'"
    using v
  proof (cases rule: klee_valid_cases)
    case 4
    then show ?thesis using fat_behavesD(3) [OF fat 4(3), of d] by (auto simp: driver_defs)
  qed (auto simp: driver_defs dev_create_handle_data_def)
  show "\<exists>k' d'. v_destroy_handle_data (?D i) d x k = Some (Success, k', d') \<and> keeps ?v d d'"
    using v
  proof (cases rule: klee_valid_cases)
    case 4
    then show ?thesis using fat_behavesD(4) [OF fat 4(3), of d k] by (auto simp: driver_defs)
  qed (auto simp: driver_defs dev_destroy_handle_data_def)
  show "\<exists>k' d'. v_on_handle_create (?D i) d x k = Some (k', d') \<and> keeps ?v d d'"
    using v
  proof (cases rule: klee_valid_cases)
    case 2
    then show ?thesis using dev_on_handle_wf [OF 2(2,3), of device_on_handle_create ok] by (auto simp: driver_defs)
  next
    case 4
    then show ?thesis using fat_behavesD(5) [OF fat 4(3), of d k] by (auto simp: driver_defs)
  qed (auto simp: driver_defs)
  show "\<exists>k' d'. v_on_handle_destroy (?D i) d x k = Some (k', d') \<and> keeps ?v d d'"
    using v
  proof (cases rule: klee_valid_cases)
    case 2
    then show ?thesis using dev_on_handle_wf [OF 2(2,3), of device_on_handle_destroy ok] by (auto simp: driver_defs)
  next
    case 4
    then show ?thesis using fat_behavesD(6) [OF fat 4(3), of d k] by (auto simp: driver_defs)
  qed (auto simp: driver_defs)
  show "keeps ?v d d' \<and> ?v drv d' (snd ad)" if "new_tmpfs (klee_volumes init) d = (d', drv, ad)" for d' drv ad
    using new_tmp_driver_wf [of d d' drv ad ok] that v by (simp add: klee_volumes_def klee_valid_def)
  show "\<exists>d' r. init_fat (klee_volumes init) d h = Some (d', r) \<and> keeps ?v d d' \<and>
      (\<forall>drv ad. r = Inr (drv, ad) \<longrightarrow> ?v drv d' (snd ad))" for h
    using fat_behavesD(7) [OF fat, of d h] v by (fastforce simp: klee_volumes_def klee_valid_def)
qed

text \<open>Without FAT volumes the contract holds outright.\<close>

definition no_fat :: "drv_state \<Rightarrow> handle \<Rightarrow> (drv_state \<times> (nat \<times> file_abstract_data) result) option" where
  "no_fat d h = Some (d, Inl NotFAT)"

lemma no_fat_behaves: "fat_behaves default_driver (\<lambda>_. False) no_fat"
  by (simp add: fat_behaves_def no_fat_def)

interpretation kv: volume_contract "klee_drivers (Some nc) (Some Success) default_driver" "klee_valid (\<lambda>_. False)" "klee_volumes no_fat"
  for nc
  by (rule klee_contract [OF no_fat_behaves])

lemma klee_manager_ok:
  "drv_wf d \<Longrightarrow> fs_ok (klee_valid ok) (new_manager basic_root dev_root d garbage) []"
  by (rule new_manager_ok) (simp_all add: klee_valid_def basic_root_def dev_root_def)

end
