(* ===== verification/Fs_System.thy ===== *)
theory Fs_System
  imports Fs_Drivers
begin

text \<open>
  The properties of the file system manager with the drivers of the kernel.
\<close>

section \<open>Properties\<close>





























text \<open>
  Writing to a frame buffer and reading back returns the bytes that were written and leaves all others, for every
  range that ends before the last byte; a range that reaches the end of the frame buffer is refused, so the last byte
  (the last colour channel of the last pixel) can never be written or read.
\<close>

theorem framebuffer_copy:
  assumes "w * h * 4 < 2 ^ 64" "length data = w * h * 4" "offset < 2 ^ 64 - length buffer"
  shows "if offset + length buffer < w * h * 4
     then \<exists>data'. fb_write data w h offset buffer = Some (Inr (data', length buffer)) \<and> length data' = length data \<and>
        fb_read data' w h offset (length buffer) = Some (Inr buffer) \<and>
        (\<forall>i < length data. data' ! i = (if offset \<le> i \<and> i < offset + length buffer then buffer ! (i - offset) else data ! i))
     else fb_write data w h offset buffer = Some (Inl EndOfFile) \<and> fb_read data w h offset (length buffer) = Some (Inl EndOfFile)"
proof -
  have limit: "calc_limit w h = w * h * 4" using assms(1) by (simp add: calc_limit_def)
  have small: "offset + length buffer < 2 ^ 64" using assms(3) by linarith
  show ?thesis
  proof (cases "offset + length buffer < w * h * 4")
    case True
    let ?data = "take offset data @ buffer @ drop (offset + length buffer) data"
    have range: "fb_range w h offset (length buffer) = Some (Inr (length buffer))"
      using True small by (simp add: fb_range_def limit)
    have "fb_write data w h offset buffer = Some (Inr (?data, length buffer))"
      using range by (simp add: fb_write_def)
    moreover have "length ?data = length data" using True assms(2) by simp
    moreover have "fb_read ?data w h offset (length buffer) = Some (Inr buffer)"
      using range True assms(2) by (simp add: fb_read_def)
    moreover have "?data ! i = (if offset \<le> i \<and> i < offset + length buffer then buffer ! (i - offset) else data ! i)"
      if "i < length data" for i
      using that True assms(2) by (auto simp: nth_append)
    ultimately show ?thesis using True by auto
  next
    case False
    then have "fb_range w h offset (length buffer) = Some (Inl EndOfFile)"
      using small by (simp add: fb_range_def limit)
    then show ?thesis using False by (simp add: fb_write_def fb_read_def)
  qed
qed

theorem framebuffer_copy_witness:
  "fb_write (replicate 8 0) 2 1 4 [1, 2, 3] = Some (Inr (replicate 4 0 @ [1, 2, 3, 0], 3)) \<and>
   fb_write (replicate 8 0) 2 1 4 [1, 2, 3, 4] = Some (Inl EndOfFile)"
  using framebuffer_copy [of 2 1 "replicate 8 0" 4 "[1, 2, 3, 4]"] framebuffer_copy [of 2 1 "replicate 8 0" 4 "[1, 2, 3]"]
  by (simp add: fb_write_def fb_range_def calc_limit_def)

end
