(* ===== verification/Pci.thy ===== *)
theory Pci
  imports Bit_Layout
begin

text \<open>
  The PCI configuration space of \<^verbatim>\<open>src/pci.hpp\<close>: addressing, base address registers, capabilities, message signalled
  interrupts, and the scan for devices. What the data port of \<^verbatim>\<open>src/io.hpp\<close> delivers for an address is the parameter
  \<open>c\<close>. An operation that configures a device reads first and writes last; it returns the list of its writes. \<open>None\<close>
  is a loop or a recursion that does not end.
\<close>

section \<open>Addresses and headers\<close>

type_synonym confspace = "u32 \<Rightarrow> u32"

definition make_address :: "u8 \<Rightarrow> u8 \<Rightarrow> u8 \<Rightarrow> u8 \<Rightarrow> u32" where
  "make_address bus device function reg_addr =
     0x80000000 OR push_bit 16 (ucast bus) OR push_bit 11 (ucast device) OR push_bit 8 (ucast function) OR (ucast reg_addr AND 0xFC)"

record class_code =
  cc_base :: u8
  cc_sub :: u8
  cc_interface :: u8

text \<open>The arguments of \<^verbatim>\<open>match\<close> are signed; they are compared with the unsigned members as integers.\<close>

definition match1 :: "class_code \<Rightarrow> u8 \<Rightarrow> bool" where
  "match1 cc base \<longleftrightarrow> uint (cc_base cc) = sint base"

definition match2 :: "class_code \<Rightarrow> u8 \<Rightarrow> u8 \<Rightarrow> bool" where
  "match2 cc base sub \<longleftrightarrow> match1 cc base \<and> uint (cc_sub cc) = sint sub"

definition match3 :: "class_code \<Rightarrow> u8 \<Rightarrow> u8 \<Rightarrow> u8 \<Rightarrow> bool" where
  "match3 cc base sub interface \<longleftrightarrow> match2 cc base sub \<and> uint (cc_interface cc) = sint interface"

definition read_vender_id :: "confspace \<Rightarrow> u8 \<Rightarrow> u8 \<Rightarrow> u8 \<Rightarrow> u16" where
  "read_vender_id c bus device function = ucast (c (make_address bus device function 0x00) AND 0xFFFF)"

definition read_device_id :: "confspace \<Rightarrow> u8 \<Rightarrow> u8 \<Rightarrow> u8 \<Rightarrow> u16" where
  "read_device_id c bus device function = ucast (drop_bit 16 (c (make_address bus device function 0x00)))"

definition read_header_type :: "confspace \<Rightarrow> u8 \<Rightarrow> u8 \<Rightarrow> u8 \<Rightarrow> u8" where
  "read_header_type c bus device function = ucast (drop_bit 16 (c (make_address bus device function 0x0C)) AND 0xFF)"

definition read_class_code :: "confspace \<Rightarrow> u8 \<Rightarrow> u8 \<Rightarrow> u8 \<Rightarrow> class_code" where
  "read_class_code c bus device function =
     (let reg = c (make_address bus device function 0x08) in
      \<lparr>cc_base = ucast (drop_bit 24 reg AND 0xFF), cc_sub = ucast (drop_bit 16 reg AND 0xFF),
       cc_interface = ucast (drop_bit 8 reg AND 0xFF)\<rparr>)"

definition read_bus_numbers :: "confspace \<Rightarrow> u8 \<Rightarrow> u8 \<Rightarrow> u8 \<Rightarrow> u32" where
  "read_bus_numbers c bus device function = c (make_address bus device function 0x18)"

definition is_single_function_device :: "u8 \<Rightarrow> bool" where
  "is_single_function_device header_type \<longleftrightarrow> header_type AND 0x80 = 0"

definition calc_bar_address :: "u64 \<Rightarrow> u8" where
  "calc_bar_address bar_index = ucast (0x10 + 4 * bar_index)"

definition CapabilityHeader_bits :: layout where
  "CapabilityHeader_bits = [(''cap_id'', 8), (''next_ptr'', 8), (''cap'', 16)]"

definition MSI_bits :: layout where
  "MSI_bits = [(''cap_id'', 8), (''next_ptr'', 8), (''msi_enable'', 1), (''multi_msg_capable'', 3), (''multi_msg_enable'', 3),
     (''addr_64_capable'', 1), (''per_vector_mask_capable'', 1), (''reserved'', 7)]"

definition MSIX_bits :: layout where
  "MSIX_bits = [(''cap_id'', 8), (''next_ptr'', 8), (''table_limit'', 11), (''reserved'', 3), (''mask'', 1), (''msix_enable'', 1)]"

definition MSIX_bar_bits :: layout where
  "MSIX_bar_bits = [(''bar_index'', 3), (''offset'', 29)]"

record msi_capability =
  msi_header :: u32
  msg_addr :: u32
  msg_upper_addr :: u32
  msg_data :: u32
  mask_bits :: u32
  pending_bits :: u32

record msix_capability =
  msix_header :: u32
  msix_table :: u32
  msix_pba :: u32

datatype msi_trigger_mode = Edge | Level

datatype msi_delivery_mode = Fixed | LowestPriority | SMI | NMI | INIT | ExtINT

primrec delivery_code :: "msi_delivery_mode \<Rightarrow> u32" where
  "delivery_code Fixed = 0"
| "delivery_code LowestPriority = 1"
| "delivery_code SMI = 2"
| "delivery_code NMI = 4"
| "delivery_code INIT = 5"
| "delivery_code ExtINT = 7"

section \<open>Devices\<close>

record pci_device =
  pd_bus :: u8
  pd_device :: u8
  pd_function :: u8
  pd_header_type :: u8
  pd_class_code :: class_code

definition read_register :: "confspace \<Rightarrow> pci_device \<Rightarrow> u8 \<Rightarrow> u32" where
  "read_register c d address = c (make_address (pd_bus d) (pd_device d) (pd_function d) address)"

text \<open>A write is the address and the value written to the ports.\<close>

definition write_register :: "pci_device \<Rightarrow> u8 \<Rightarrow> u32 \<Rightarrow> u32 \<times> u32" where
  "write_register d address value = (make_address (pd_bus d) (pd_device d) (pd_function d) address, value)"

definition read_bar :: "confspace \<Rightarrow> pci_device \<Rightarrow> u64 \<Rightarrow> u64 result" where
  "read_bar c d bar_index =
     (if bar_index \<ge> 6 then Inl IndexOutOfRange
      else let address = calc_bar_address bar_index; bar = read_register c d address in
        if bar AND 0x04 = 0 then Inr (ucast bar)
        else if bar_index \<ge> 5 then Inl IndexOutOfRange
        else let bar_upper = read_register c d (address + 4) in
          Inr (ucast bar OR push_bit 32 (ucast bar_upper)))"

definition msi_flag :: "string \<Rightarrow> msi_capability \<Rightarrow> bool" where
  "msi_flag f m \<longleftrightarrow> get_bf MSI_bits f (unat (msi_header m)) \<noteq> 0"

definition read_msi_capability :: "confspace \<Rightarrow> pci_device \<Rightarrow> u8 \<Rightarrow> msi_capability" where
  "read_msi_capability c d cap_addr =
     (let m = \<lparr>msi_header = read_register c d cap_addr, msg_addr = read_register c d (cap_addr + 4),
               msg_upper_addr = 0, msg_data = 0, mask_bits = 0, pending_bits = 0\<rparr>;
          (m, msg_data_addr) =
            (if msi_flag ''addr_64_capable'' m then (m\<lparr>msg_upper_addr := read_register c d (cap_addr + 8)\<rparr>, cap_addr + 12)
             else (m, cap_addr + 8));
          m = m\<lparr>msg_data := read_register c d msg_data_addr\<rparr> in
      if msi_flag ''per_vector_mask_capable'' m
      then m\<lparr>mask_bits := read_register c d (msg_data_addr + 4), pending_bits := read_register c d (msg_data_addr + 8)\<rparr>
      else m)"

definition write_msi_capability :: "pci_device \<Rightarrow> u8 \<Rightarrow> msi_capability \<Rightarrow> (u32 \<times> u32) list" where
  "write_msi_capability d cap_addr m =
     (let msg_data_addr = (if msi_flag ''addr_64_capable'' m then cap_addr + 12 else cap_addr + 8) in
      [write_register d cap_addr (msi_header m), write_register d (cap_addr + 4) (msg_addr m)] @
      (if msi_flag ''addr_64_capable'' m then [write_register d (cap_addr + 8) (msg_upper_addr m)] else []) @
      [write_register d msg_data_addr (msg_data m)] @
      (if msi_flag ''per_vector_mask_capable'' m
       then [write_register d (msg_data_addr + 4) (mask_bits m), write_register d (msg_data_addr + 8) (pending_bits m)] else []))"

definition configure_msi_register ::
  "confspace \<Rightarrow> pci_device \<Rightarrow> u8 \<Rightarrow> u32 \<Rightarrow> u32 \<Rightarrow> u32 \<Rightarrow> error_code \<times> (u32 \<times> u32) list" where
  "configure_msi_register c d cap_addr addr data num_vector_exponent =
     (let m = read_msi_capability c d cap_addr;
          capable = get_bf MSI_bits ''multi_msg_capable'' (unat (msi_header m));
          enable = (if capable \<le> unat num_vector_exponent then capable else unat num_vector_exponent);
          header = put_bf MSI_bits ''msi_enable'' 1 (put_bf MSI_bits ''multi_msg_enable'' enable (unat (msi_header m))) in
      (Success, write_msi_capability d cap_addr (m\<lparr>msi_header := of_nat header, msg_addr := addr, msg_data := data\<rparr>)))"

definition read_msix_capability :: "confspace \<Rightarrow> pci_device \<Rightarrow> u8 \<Rightarrow> msix_capability" where
  "read_msix_capability c d cap_addr =
     \<lparr>msix_header = read_register c d cap_addr, msix_table = read_register c d (cap_addr + 4),
      msix_pba = read_register c d (cap_addr + 8)\<rparr>"

definition write_msix_capability :: "pci_device \<Rightarrow> u8 \<Rightarrow> msix_capability \<Rightarrow> (u32 \<times> u32) list" where
  "write_msix_capability d cap_addr m = [write_register d cap_addr (msix_header m)]"

text \<open>
  The table lies in memory: the stores are pairs of an address and a value. The 29-bit member \<^verbatim>\<open>offset\<close> is promoted to
  \<^verbatim>\<open>int\<close>, so the shifted value is sign-extended to 64 bits.
\<close>

definition configure_msix_register ::
  "confspace \<Rightarrow> pci_device \<Rightarrow> u8 \<Rightarrow> u32 \<Rightarrow> u32 \<Rightarrow> u32 \<Rightarrow> error_code \<times> (u64 \<times> u32) list \<times> (u32 \<times> u32) list" where
  "configure_msix_register c d cap_addr addr data entry_number =
     (let m = read_msix_capability c d cap_addr in
      if unat entry_number > get_bf MSIX_bits ''table_limit'' (unat (msix_header m)) then (NoPCIMSI, [], [])
      else case (read_bar c d (of_nat (get_bf MSIX_bar_bits ''bar_index'' (unat (msix_table m)))),
                 read_bar c d (of_nat (get_bf MSIX_bar_bits ''bar_index'' (unat (msix_pba m))))) of
        (Inr table_bar, Inr pba_bar) \<Rightarrow>
          (let table_addr = (table_bar AND NOT 0x0F) +
                 scast (push_bit 3 (of_nat (get_bf MSIX_bar_bits ''offset'' (unat (msix_table m))) :: u32));
               entry = table_addr + 16 * ucast entry_number in
           (Success, [(entry, addr), (entry + 4, 0), (entry + 8, data), (entry + 12, 0)],
            write_msix_capability d cap_addr (m\<lparr>msix_header := of_nat (put_bf MSIX_bits ''msix_enable'' 1 (unat (msix_header m)))\<rparr>)))
      | _ \<Rightarrow> (IndexOutOfRange, [], []))"

definition read_capability_header :: "confspace \<Rightarrow> pci_device \<Rightarrow> u8 \<Rightarrow> u32" where
  "read_capability_header c d addr = read_register c d addr"

definition cap_id :: "confspace \<Rightarrow> pci_device \<Rightarrow> u32 \<Rightarrow> nat" where
  "cap_id c d cap_addr = get_bf CapabilityHeader_bits ''cap_id'' (unat (read_capability_header c d (ucast cap_addr)))"

definition next_ptr :: "confspace \<Rightarrow> pci_device \<Rightarrow> u32 \<Rightarrow> u32" where
  "next_ptr c d cap_addr =
     of_nat (get_bf CapabilityHeader_bits ''next_ptr'' (unat (read_capability_header c d (ucast cap_addr))))"

text \<open>The loop of \<^verbatim>\<open>configure_msi\<close> and \<^verbatim>\<open>configure_msix\<close> over the list of capabilities.\<close>

partial_function (option) find_capability :: "confspace \<Rightarrow> pci_device \<Rightarrow> nat \<Rightarrow> u32 \<Rightarrow> u32 option option" where
  "find_capability c d wanted cap_addr =
     (if cap_addr = 0 then Some None
      else if cap_id c d cap_addr = wanted then Some (Some cap_addr)
      else find_capability c d wanted (next_ptr c d cap_addr))"

declare find_capability.simps [code]

definition first_capability :: "confspace \<Rightarrow> pci_device \<Rightarrow> u32" where
  "first_capability c d = read_register c d 0x34 AND 0xFF"

definition configure_msi :: "confspace \<Rightarrow> pci_device \<Rightarrow> u32 \<Rightarrow> u32 \<Rightarrow> u32 \<Rightarrow> (error_code \<times> (u32 \<times> u32) list) option" where
  "configure_msi c d addr data num_vector_exponent =
     do {
       r \<leftarrow> find_capability c d 0x05 (first_capability c d);
       Some (case r of Some a \<Rightarrow> configure_msi_register c d (ucast a) addr data num_vector_exponent | None \<Rightarrow> (NoPCIMSI, []))
     }"

definition configure_msix ::
  "confspace \<Rightarrow> pci_device \<Rightarrow> u32 \<Rightarrow> u32 \<Rightarrow> u32 \<Rightarrow> (error_code \<times> (u64 \<times> u32) list \<times> (u32 \<times> u32) list) option" where
  "configure_msix c d addr data entry_number =
     do {
       r \<leftarrow> find_capability c d 0x11 (first_capability c d);
       Some (case r of Some a \<Rightarrow> configure_msix_register c d (ucast a) addr data entry_number | None \<Rightarrow> (NoPCIMSI, [], []))
     }"

definition message_address :: "u8 \<Rightarrow> u32" where
  "message_address apic_id = 0xFEE00000 OR push_bit 12 (ucast apic_id)"

definition message_data :: "msi_trigger_mode \<Rightarrow> msi_delivery_mode \<Rightarrow> u8 \<Rightarrow> u32" where
  "message_data trigger_mode delivery_mode vector =
     (let data = push_bit 8 (delivery_code delivery_mode) OR ucast vector in
      if trigger_mode = Level then data OR 0xC000 else data)"

definition configure_msi_fixed_destination ::
  "confspace \<Rightarrow> pci_device \<Rightarrow> u8 \<Rightarrow> msi_trigger_mode \<Rightarrow> msi_delivery_mode \<Rightarrow> u8 \<Rightarrow> u32 \<Rightarrow> (error_code \<times> (u32 \<times> u32) list) option" where
  "configure_msi_fixed_destination c d apic_id trigger_mode delivery_mode vector num_vector_exponent =
     configure_msi c d (message_address apic_id) (message_data trigger_mode delivery_mode vector) num_vector_exponent"

definition configure_msix_fixed_destination ::
  "confspace \<Rightarrow> pci_device \<Rightarrow> u8 \<Rightarrow> msi_trigger_mode \<Rightarrow> msi_delivery_mode \<Rightarrow> u8 \<Rightarrow> u32 \<Rightarrow>
     (error_code \<times> (u64 \<times> u32) list \<times> (u32 \<times> u32) list) option" where
  "configure_msix_fixed_destination c d apic_id trigger_mode delivery_mode vector entry_number =
     configure_msix c d (message_address apic_id) (message_data trigger_mode delivery_mode vector) entry_number"

section \<open>The scan for devices\<close>

text \<open>
  The scanner appends to one vector; here each step returns what it appends. \<open>rec\<close> is the call of \<^verbatim>\<open>scan_bus\<close> for the
  bus behind a bridge. The fuel of \<open>scan_bus\<close> bounds the nesting of bridges.
\<close>

fun append_all :: "'a list option list \<Rightarrow> 'a list option" where
  "append_all [] = Some []"
| "append_all (x # xs) = do { a \<leftarrow> x; b \<leftarrow> append_all xs; Some (a @ b) }"

definition device_at :: "confspace \<Rightarrow> u8 \<Rightarrow> u8 \<Rightarrow> u8 \<Rightarrow> pci_device" where
  "device_at c bus dev fn =
     \<lparr>pd_bus = bus, pd_device = dev, pd_function = fn, pd_header_type = read_header_type c bus dev fn,
      pd_class_code = read_class_code c bus dev fn\<rparr>"

definition secondary_bus :: "confspace \<Rightarrow> u8 \<Rightarrow> u8 \<Rightarrow> u8 \<Rightarrow> u8" where
  "secondary_bus c bus dev fn = ucast (drop_bit 8 (read_bus_numbers c bus dev fn) AND 0xFF)"

definition scan_function :: "(u8 \<Rightarrow> pci_device list option) \<Rightarrow> confspace \<Rightarrow> u8 \<Rightarrow> u8 \<Rightarrow> u8 \<Rightarrow> pci_device list option" where
  "scan_function rec c bus dev fn =
     (let d = device_at c bus dev fn in
      if match2 (pd_class_code d) 0x06 0x04 then do { ds \<leftarrow> rec (secondary_bus c bus dev fn); Some (d # ds) } else Some [d])"

definition scan_device :: "(u8 \<Rightarrow> pci_device list option) \<Rightarrow> confspace \<Rightarrow> u8 \<Rightarrow> u8 \<Rightarrow> pci_device list option" where
  "scan_device rec c bus dev =
     do {
       a \<leftarrow> scan_function rec c bus dev 0;
       if is_single_function_device (read_header_type c bus dev 0) then Some a
       else do {
         b \<leftarrow> append_all (map (\<lambda>fn. if read_vender_id c bus dev fn = 0xFFFF then Some [] else scan_function rec c bus dev fn)
                (map of_nat [1..<8]));
         Some (a @ b) }
     }"

fun scan_bus :: "nat \<Rightarrow> confspace \<Rightarrow> u8 \<Rightarrow> pci_device list option" where
  "scan_bus 0 c bus = None"
| "scan_bus (Suc fuel) c bus =
     append_all (map (\<lambda>dev. if read_vender_id c bus dev 0 = 0xFFFF then Some [] else scan_device (scan_bus fuel c) c bus dev)
       (map of_nat [0..<32]))"

definition scan_devices :: "nat \<Rightarrow> confspace \<Rightarrow> pci_device list option" where
  "scan_devices fuel c =
     (if is_single_function_device (read_header_type c 0 0 0) then scan_bus fuel c 0
      else append_all (map (\<lambda>fn. if read_vender_id c 0 0 fn = 0xFFFF then Some [] else scan_bus fuel c fn) (map of_nat [1..<8])))"

section \<open>What the scan finds\<close>

text \<open>A function is present when its slot answers and, but for function 0, when the slot is multi-function and it answers.\<close>

definition present :: "confspace \<Rightarrow> u8 \<Rightarrow> u8 \<Rightarrow> u8 \<Rightarrow> bool" where
  "present c bus dev fn \<longleftrightarrow>
     dev < 32 \<and> fn < 8 \<and> read_vender_id c bus dev 0 \<noteq> 0xFFFF \<and>
     (fn = 0 \<or> \<not> is_single_function_device (read_header_type c bus dev 0) \<and> read_vender_id c bus dev fn \<noteq> 0xFFFF)"

definition is_bridge :: "confspace \<Rightarrow> u8 \<Rightarrow> u8 \<Rightarrow> u8 \<Rightarrow> bool" where
  "is_bridge c bus dev fn \<longleftrightarrow> cc_base (read_class_code c bus dev fn) = 0x06 \<and> cc_sub (read_class_code c bus dev fn) = 0x04"

text \<open>The buses behind a bus: itself, and the bus behind every present bridge of such a bus.\<close>

inductive behind :: "confspace \<Rightarrow> u8 \<Rightarrow> u8 \<Rightarrow> bool" for c where
  same: "behind c bus bus"
| bridge: "present c bus dev fn \<Longrightarrow> is_bridge c bus dev fn \<Longrightarrow> behind c (secondary_bus c bus dev fn) b \<Longrightarrow> behind c bus b"

definition found_from :: "confspace \<Rightarrow> u8 \<Rightarrow> pci_device set" where
  "found_from c bus = {device_at c b dev fn | b dev fn. behind c bus b \<and> present c b dev fn}"

text \<open>Buses are numbered the way the specification prescribes: a bus behind a bridge has a higher number.\<close>

definition buses_increase :: "confspace \<Rightarrow> bool" where
  "buses_increase c \<longleftrightarrow> (\<forall>bus dev fn. present c bus dev fn \<and> is_bridge c bus dev fn \<longrightarrow> bus < secondary_bus c bus dev fn)"

lemma append_all_total:
  assumes "\<And>x. x \<in> set xs \<Longrightarrow> \<exists>ys. f x = Some ys \<and> set ys = g x"
  shows "\<exists>ys. append_all (map f xs) = Some ys \<and> set ys = (\<Union>x \<in> set xs. g x)"
  using assms
proof (induction xs)
  case (Cons x xs)
  from Cons.prems obtain a where a: "f x = Some a" "set a = g x" by auto
  from Cons obtain b where b: "append_all (map f xs) = Some b" "set b = (\<Union>x \<in> set xs. g x)" by auto
  show ?case using a b by simp
qed simp

lemma match2_bridge: "match2 (read_class_code c bus dev fn) 0x06 0x04 \<longleftrightarrow> is_bridge c bus dev fn"
  by (simp add: match2_def match1_def is_bridge_def word_uint_eq_iff)

lemma of_nat_upt_u8:
  assumes "b \<le> 256"
  shows "set (map of_nat [a..<b]) = {x :: u8. a \<le> unat x \<and> unat x < b}"
proof -
  have "of_nat n \<in> {x :: u8. a \<le> unat x \<and> unat x < b}" if "a \<le> n" "n < b" for n
    using that assms by (simp add: unat_of_nat take_bit_nat_eq_self)
  moreover have "x \<in> of_nat ` {a..<b}" if "a \<le> unat x" "unat x < b" for x :: u8
    using that by (intro image_eqI [of _ _ "unat x"]) simp_all
  ultimately show ?thesis by auto
qed

lemma found_from_step:
  "found_from c bus = (\<Union>(dev, fn) \<in> {(dev, fn). present c bus dev fn}.
     insert (device_at c bus dev fn) (if is_bridge c bus dev fn then found_from c (secondary_bus c bus dev fn) else {}))"
  (is "_ = ?R")
proof
  show "found_from c bus \<subseteq> ?R"
  proof
    fix x assume "x \<in> found_from c bus"
    then obtain b dev fn where x: "x = device_at c b dev fn" "behind c bus b" "present c b dev fn"
      unfolding found_from_def by blast
    from x(2) show "x \<in> ?R"
    proof cases
      case same
      then show ?thesis using x by auto
    next
      case (bridge dev' fn')
      then have "x \<in> found_from c (secondary_bus c bus dev' fn')" unfolding found_from_def using x by blast
      then show ?thesis using bridge(1,2) by auto
    qed
  qed
  show "?R \<subseteq> found_from c bus"
    by (auto simp: found_from_def split: if_splits intro: behind.same) (blast intro: behind.bridge)
qed

lemma scan_function_total:
  assumes "is_bridge c bus dev fn \<Longrightarrow> \<exists>ds. rec (secondary_bus c bus dev fn) = Some ds \<and> set ds = found_from c (secondary_bus c bus dev fn)"
  shows "\<exists>ds. scan_function rec c bus dev fn = Some ds \<and>
    set ds = insert (device_at c bus dev fn) (if is_bridge c bus dev fn then found_from c (secondary_bus c bus dev fn) else {})"
  using assms by (cases "is_bridge c bus dev fn") (auto simp: scan_function_def Let_def device_at_def match2_bridge)

lemma scan_device_total:
  assumes dev: "dev < 32" "read_vender_id c bus dev 0 \<noteq> 0xFFFF"
    and rec: "\<And>fn. present c bus dev fn \<Longrightarrow> is_bridge c bus dev fn \<Longrightarrow>
      \<exists>ds. rec (secondary_bus c bus dev fn) = Some ds \<and> set ds = found_from c (secondary_bus c bus dev fn)"
  shows "\<exists>ds. scan_device rec c bus dev = Some ds \<and>
    set ds = (\<Union>fn \<in> {fn. present c bus dev fn}.
      insert (device_at c bus dev fn) (if is_bridge c bus dev fn then found_from c (secondary_bus c bus dev fn) else {}))"
proof -
  let ?g = "\<lambda>fn. insert (device_at c bus dev fn) (if is_bridge c bus dev fn then found_from c (secondary_bus c bus dev fn) else {})"
  have p0: "present c bus dev 0" using dev by (simp add: present_def)
  then obtain a where a: "scan_function rec c bus dev 0 = Some a" "set a = ?g 0"
    using scan_function_total [of c bus dev 0 rec] rec by blast
  show ?thesis
  proof (cases "is_single_function_device (read_header_type c bus dev 0)")
    case True
    then have "{fn. present c bus dev fn} = {0}" using p0 by (auto simp: present_def)
    then show ?thesis using a True by (simp add: scan_device_def)
  next
    case False
    have pr: "present c bus dev fn \<longleftrightarrow> fn = 0 \<or> 1 \<le> unat fn \<and> unat fn < 8 \<and> read_vender_id c bus dev fn \<noteq> 0xFFFF" for fn
      using dev False by (auto simp: present_def word_less_nat_alt unat_eq_zero Suc_le_eq unat_gt_0)
    have "\<exists>ys. append_all (map (\<lambda>fn. if read_vender_id c bus dev fn = 0xFFFF then Some [] else scan_function rec c bus dev fn)
        (map of_nat [1..<8])) = Some ys \<and> set ys = (\<Union>fn \<in> set (map of_nat [1..<8]). if read_vender_id c bus dev fn = 0xFFFF then {} else ?g fn)"
    proof (rule append_all_total)
      fix fn :: u8 assume "fn \<in> set (map of_nat [1..<8])"
      then have "1 \<le> unat fn \<and> unat fn < 8" using of_nat_upt_u8 [of 8 1] by simp
      then show "\<exists>ys. (if read_vender_id c bus dev fn = 0xFFFF then Some [] else scan_function rec c bus dev fn) = Some ys \<and>
          set ys = (if read_vender_id c bus dev fn = 0xFFFF then {} else ?g fn)"
        using scan_function_total [of c bus dev fn rec] rec [of fn] pr by (cases "read_vender_id c bus dev fn = 0xFFFF") auto
    qed
    then obtain b where b: "append_all (map (\<lambda>fn. if read_vender_id c bus dev fn = 0xFFFF then Some [] else scan_function rec c bus dev fn)
        (map of_nat [1..<8])) = Some b" "set b = (\<Union>fn \<in> {x. 1 \<le> unat x \<and> unat x < 8}. if read_vender_id c bus dev fn = 0xFFFF then {} else ?g fn)"
      using of_nat_upt_u8 [of 8 1] by auto
    have "set (a @ b) = (\<Union>fn \<in> {fn. present c bus dev fn}. ?g fn)"
      unfolding set_append a(2) b(2) pr by (auto split: if_splits)
    moreover have "scan_device rec c bus dev = Some (a @ b)" using a b(1) False by (simp add: scan_device_def)
    ultimately show ?thesis by blast
  qed
qed

lemma scan_bus_total:
  assumes inc: "buses_increase c" and fuel: "256 \<le> fuel + unat bus"
  shows "\<exists>ds. scan_bus fuel c bus = Some ds \<and> set ds = found_from c bus"
  using fuel
proof (induction fuel arbitrary: bus)
  case 0
  have "unat bus < 2 ^ LENGTH(8)" by (rule unsigned_less)
  then show ?case using 0 by simp
next
  case (Suc fuel)
  let ?g = "\<lambda>dev fn. insert (device_at c bus dev fn) (if is_bridge c bus dev fn then found_from c (secondary_bus c bus dev fn) else {})"
  have rec: "\<exists>ds. scan_bus fuel c (secondary_bus c bus dev fn) = Some ds \<and> set ds = found_from c (secondary_bus c bus dev fn)"
    if "present c bus dev fn" "is_bridge c bus dev fn" for dev fn
  proof -
    have "bus < secondary_bus c bus dev fn" using inc that unfolding buses_increase_def by blast
    then have "256 \<le> fuel + unat (secondary_bus c bus dev fn)" using Suc.prems by (simp add: word_less_nat_alt)
    then show ?thesis by (rule Suc.IH)
  qed
  have "\<exists>ys. append_all (map (\<lambda>dev. if read_vender_id c bus dev 0 = 0xFFFF then Some [] else scan_device (scan_bus fuel c) c bus dev)
       (map of_nat [0..<32])) = Some ys \<and>
     set ys = (\<Union>dev \<in> set (map of_nat [0..<32]). if read_vender_id c bus dev 0 = 0xFFFF then {} else (\<Union>fn \<in> {fn. present c bus dev fn}. ?g dev fn))"
  proof (rule append_all_total)
    fix dev :: u8 assume "dev \<in> set (map of_nat [0..<32])"
    then have "dev < 32" using of_nat_upt_u8 [of 32 0] by (simp add: word_less_nat_alt)
    then show "\<exists>ys. (if read_vender_id c bus dev 0 = 0xFFFF then Some [] else scan_device (scan_bus fuel c) c bus dev) = Some ys \<and>
       set ys = (if read_vender_id c bus dev 0 = 0xFFFF then {} else (\<Union>fn \<in> {fn. present c bus dev fn}. ?g dev fn))"
      using scan_device_total [of dev c bus "scan_bus fuel c"] rec by (cases "read_vender_id c bus dev 0 = 0xFFFF") auto
  qed
  then obtain ds where ds: "scan_bus (Suc fuel) c bus = Some ds"
    "set ds = (\<Union>dev \<in> {x. unat x < 32}. if read_vender_id c bus dev 0 = 0xFFFF then {} else (\<Union>fn \<in> {fn. present c bus dev fn}. ?g dev fn))"
    using of_nat_upt_u8 [of 32 0] by auto
  have "set ds = found_from c bus"
    unfolding ds(2) found_from_step [of c bus] by (auto simp: present_def word_less_nat_alt split: if_splits)
  then show ?case using ds(1) by blast
qed

lemma behind_ge: "behind c bus b \<Longrightarrow> buses_increase c \<Longrightarrow> bus \<le> b"
proof (induction rule: behind.induct)
  case (bridge bus dev fn b)
  then have "bus < secondary_bus c bus dev fn" unfolding buses_increase_def by blast
  then show ?case using bridge.IH [OF bridge.prems] by (rule less_imp_le [OF less_le_trans])
qed simp

text \<open>
  C28. With buses numbered upwards from the host, the scan ends (a nesting of 256 bridges is the most there can be) and
  returns exactly the functions present on the buses that are reachable from the root buses. With a single-function
  host bridge the root is bus 0. With a multi-function host bridge the roots are the buses 1 to 7 whose host function
  answers: bus 0 is never scanned then, so that no device of bus 0 is found, not even the host bridge.
\<close>

theorem pci_scan_finds_reachable:
  assumes inc: "buses_increase c" and fuel: "256 \<le> fuel"
  shows "\<exists>ds. scan_devices fuel c = Some ds \<and>
    (is_single_function_device (read_header_type c 0 0 0) \<longrightarrow> set ds = found_from c 0) \<and>
    (\<not> is_single_function_device (read_header_type c 0 0 0) \<longrightarrow>
       set ds = (\<Union>fn \<in> {fn. 1 \<le> unat fn \<and> unat fn < 8 \<and> read_vender_id c 0 0 fn \<noteq> 0xFFFF}. found_from c fn) \<and>
       (\<forall>d \<in> set ds. pd_bus d \<noteq> 0))"
proof (cases "is_single_function_device (read_header_type c 0 0 0)")
  case True
  then show ?thesis using scan_bus_total [OF inc, of fuel 0] fuel by (simp add: scan_devices_def)
next
  case False
  have "\<exists>ys. append_all (map (\<lambda>fn. if read_vender_id c 0 0 fn = 0xFFFF then Some [] else scan_bus fuel c fn) (map of_nat [1..<8])) = Some ys \<and>
     set ys = (\<Union>fn \<in> set (map of_nat [1..<8]). if read_vender_id c 0 0 fn = 0xFFFF then {} else found_from c fn)"
    by (rule append_all_total) (use scan_bus_total [OF inc] fuel in auto)
  then obtain ds where ds: "scan_devices fuel c = Some ds"
    "set ds = (\<Union>fn \<in> {x. 1 \<le> unat x \<and> unat x < 8}. if read_vender_id c 0 0 fn = 0xFFFF then {} else found_from c fn)"
    using False of_nat_upt_u8 [of 8 1] by (auto simp: scan_devices_def)
  have set: "set ds = (\<Union>fn \<in> {fn. 1 \<le> unat fn \<and> unat fn < 8 \<and> read_vender_id c 0 0 fn \<noteq> 0xFFFF}. found_from c fn)"
    unfolding ds(2) by (auto split: if_splits)
  have "pd_bus d \<noteq> 0" if d: "d \<in> set ds" for d
  proof -
    obtain fn b where "1 \<le> unat fn" "behind c fn b" "pd_bus d = b"
      using d unfolding set found_from_def device_at_def by auto
    then show ?thesis using behind_ge [OF _ inc, of fn b] by (auto simp: word_le_nat_alt)
  qed
  then show ?thesis using ds(1) set False by blast
qed

lemma bus_of_make_address:
  assumes "dev < 32"
  shows "make_address bus dev fn reg AND 0xFF0000 = push_bit 16 (ucast bus)"
proof (rule bit_word_eqI)
  fix n assume n: "n < LENGTH(32)"
  have m: "(0xFF0000 :: u32) = push_bit 16 (mask 8)" "(0xFC :: u32) = push_bit 2 (mask 6)"
    by (simp_all add: mask_eq_exp_minus_1 push_bit_eq_mult)
  have top: "bit (0x80000000 :: int) n \<longleftrightarrow> n = 31"
    using bit_exp_iff [where 'a = int, of 31 n] by auto
  have dev: "\<not> bit dev k" if "5 \<le> k" for k
  proof -
    have "unat dev < 2 ^ 5" using assms by (simp add: word_less_nat_alt)
    then have "\<not> bit (unat dev) k" using that by (metis bit_take_bit_iff leD take_bit_nat_eq_self)
    then show ?thesis by (simp add: bit_unsigned_iff)
  qed
  have d: "\<not> bit dev (n - 11)" if "16 \<le> n" using that by (intro dev) simp
  show "bit (make_address bus dev fn reg AND 0xFF0000) n = bit (push_bit 16 (ucast bus :: u32)) n"
    using n d bit_imp_le_length [of fn "n - 8"] bit_imp_le_length [of bus "n - 16"]
    unfolding make_address_def m by (auto simp: bit_simps top)
qed

text \<open>A space in which every slot of bus 0 is a bridge to bus 1 and every slot of bus 1 a plain device.\<close>

definition pci_sample_space :: confspace where
  "pci_sample_space a = (if a AND 0xFF0000 = 0 then 0x06040100 else 0)"

lemma sample_space_at:
  assumes "dev < 32"
  shows "pci_sample_space (make_address bus dev fn reg) = (if bus = 0 then 0x06040100 else 0)"
proof -
  have "push_bit 16 (ucast bus :: u32) = 0 \<longleftrightarrow> bus = 0"
  proof
    assume z: "push_bit 16 (ucast bus :: u32) = 0"
    have "bit bus n = bit (push_bit 16 (ucast bus :: u32)) (16 + n)" if "n < 8" for n
      using that by (simp add: bit_simps)
    then show "bus = 0" unfolding z by (auto intro!: bit_word_eqI)
  qed simp
  then show ?thesis by (simp add: pci_sample_space_def bus_of_make_address [OF assms])
qed

theorem pci_scan_finds_reachable_witness:
  "buses_increase pci_sample_space \<and> is_single_function_device (read_header_type pci_sample_space 0 0 0) \<and>
   (\<exists>ds. scan_devices 256 pci_sample_space = Some ds \<and> device_at pci_sample_space 1 3 0 \<in> set ds)"
proof -
  note defs = read_vender_id_def read_header_type_def read_class_code_def secondary_bus_def read_bus_numbers_def Let_def
  have br: "is_bridge pci_sample_space bus dev fn \<longleftrightarrow> bus = 0" if "dev < 32" for bus dev fn
    by (simp add: is_bridge_def defs sample_space_at [OF that])
  have inc: "buses_increase pci_sample_space"
    unfolding buses_increase_def using br by (auto simp: present_def defs sample_space_at)
  have single: "is_single_function_device (read_header_type pci_sample_space 0 0 0)"
    by (simp add: is_single_function_device_def defs sample_space_at)
  have present: "present pci_sample_space bus 3 0" for bus
    by (simp add: present_def defs sample_space_at)
  have "behind pci_sample_space 0 1"
    by (rule behind.bridge [OF present]) (auto simp: br defs sample_space_at intro: behind.same)
  then have "device_at pci_sample_space 1 3 0 \<in> found_from pci_sample_space 0"
    unfolding found_from_def using present by blast
  then show ?thesis
    using inc single pci_scan_finds_reachable [OF inc order_refl] by auto
qed

section \<open>Message signalled interrupts\<close>

text \<open>The list of capabilities from \<open>a\<close> up to, but without, the position \<open>t\<close>.\<close>

fun caps_until :: "confspace \<Rightarrow> pci_device \<Rightarrow> u32 \<Rightarrow> u32 list \<Rightarrow> u32 \<Rightarrow> bool" where
  "caps_until c d a [] t \<longleftrightarrow> a = t"
| "caps_until c d a (x # xs) t \<longleftrightarrow> a = x \<and> a \<noteq> 0 \<and> caps_until c d (next_ptr c d a) xs t"

lemma find_capability_until:
  assumes "caps_until c d a xs t" "\<forall>x \<in> set xs. cap_id c d x \<noteq> wanted"
  shows "find_capability c d wanted a = find_capability c d wanted t"
  using assms
proof (induction xs arbitrary: a)
  case (Cons x xs)
  then show ?case by (subst find_capability.simps) auto
qed simp

lemma put_bf_u32:
  assumes "struct_size l = 32"
  shows "unat (of_nat (put_bf l f x (unat (h :: u32))) :: u32) = put_bf l f x (unat h)"
    "unat (of_nat (put_bf l f x (put_bf l g y (unat h))) :: u32) = put_bf l f x (put_bf l g y (unat h))"
proof -
  have "unat h < 2 ^ LENGTH(32)" by (rule unsigned_less)
  then have "put_bf l f x (unat h) < 2 ^ 32" "put_bf l f x (put_bf l g y (unat h)) < 2 ^ 32"
    using put_bf_lt [of _ l] assms by simp_all
  then show "unat (of_nat (put_bf l f x (unat h)) :: u32) = put_bf l f x (unat h)"
    "unat (of_nat (put_bf l f x (put_bf l g y (unat h))) :: u32) = put_bf l f x (put_bf l g y (unat h))"
    by (simp_all add: unat_of_nat take_bit_nat_eq_self)
qed

text \<open>
  C36. Configuring message signalled interrupts finds the first capability of the wanted kind at the end of any list
  of others and writes it back with the interrupt enabled, not more vectors enabled than the device is capable of, the
  message address of the local APIC \<open>apic_id\<close> and the data for the vector; every other member of its header keeps its
  value. When the list ends without the capability, nothing is written and \<^verbatim>\<open>NoPCIMSI\<close> is returned.
\<close>

theorem msi_configured:
  assumes caps: "caps_until c d (first_capability c d) xs t" and other: "\<forall>x \<in> set xs. cap_id c d x \<noteq> 0x05"
    and t: "t = 0 \<or> cap_id c d t = 0x05"
  defines "m \<equiv> read_msi_capability c d (ucast t)"
  shows "(t = 0 \<longrightarrow> configure_msi_fixed_destination c d apic_id tm dm vector e = Some (NoPCIMSI, [])) \<and>
    (t \<noteq> 0 \<longrightarrow> (\<exists>h ws. configure_msi_fixed_destination c d apic_id tm dm vector e = Some (Success, ws) \<and>
       ws = write_msi_capability d (ucast t) (m\<lparr>msi_header := h, msg_addr := message_address apic_id, msg_data := message_data tm dm vector\<rparr>) \<and>
       get_bf MSI_bits ''msi_enable'' (unat h) = 1 \<and>
       get_bf MSI_bits ''multi_msg_enable'' (unat h) = min (get_bf MSI_bits ''multi_msg_capable'' (unat (msi_header m))) (unat e) \<and>
       (\<forall>f. f \<noteq> ''msi_enable'' \<and> f \<noteq> ''multi_msg_enable'' \<longrightarrow> get_bf MSI_bits f (unat h) = get_bf MSI_bits f (unat (msi_header m)))))"
proof -
  have find: "find_capability c d 5 (first_capability c d) = Some (if t = 0 then None else Some t)"
    unfolding find_capability_until [OF caps other] using t by (subst find_capability.simps) auto
  let ?capable = "get_bf MSI_bits ''multi_msg_capable'' (unat (msi_header m))"
  let ?n = "put_bf MSI_bits ''msi_enable'' 1 (put_bf MSI_bits ''multi_msg_enable'' (min ?capable (unat e)) (unat (msi_header m)))"
  define h :: u32 where "h = of_nat ?n"
  have "struct_size MSI_bits = 32" by code_simp
  then have h: "unat h = ?n" unfolding h_def by (rule put_bf_u32(2))
  have loc: "locate MSI_bits ''msi_enable'' = Some (16, 1)" "locate MSI_bits ''multi_msg_enable'' = Some (20, 3)"
    "locate MSI_bits ''multi_msg_capable'' = Some (17, 3)" by code_simp+
  have "?capable < 8" using get_bf_lt [OF loc(3)] by simp
  then have "min ?capable (unat e) < 2 ^ 3" by simp
  then have enable: "get_bf MSI_bits ''multi_msg_enable'' (unat h) = min ?capable (unat e)"
    unfolding h by (simp add: get_put_bf_other get_put_bf_same [OF loc(2)] take_bit_nat_eq_self)
  have conf: "configure_msi_register c d (ucast t) (message_address apic_id) (message_data tm dm vector) e =
      (Success, write_msi_capability d (ucast t) (m\<lparr>msi_header := h, msg_addr := message_address apic_id, msg_data := message_data tm dm vector\<rparr>))"
    by (simp add: configure_msi_register_def Let_def m_def [symmetric] h_def min_def)
  have one: "get_bf MSI_bits ''msi_enable'' (unat h) = 1" unfolding h by (simp add: get_put_bf_same [OF loc(1)])
  have "get_bf MSI_bits f (unat h) = get_bf MSI_bits f (unat (msi_header m))" if "f \<noteq> ''msi_enable''" "f \<noteq> ''multi_msg_enable''" for f
    unfolding h using that by (simp add: get_put_bf_other)
  then show ?thesis
    using find conf one enable by (auto simp: configure_msi_fixed_destination_def configure_msi_def)
qed

text \<open>A device that answers every read with the header of an MSI capability that can send two messages.\<close>

definition sample_msi :: confspace where
  "sample_msi a = 0x00020005"

theorem msi_configured_witness:
  "(let d = device_at sample_msi 0 2 0 in
    caps_until sample_msi d (first_capability sample_msi d) [] 5 \<and> cap_id sample_msi d 5 = 0x05 \<and>
    (\<exists>h ws. configure_msi_fixed_destination sample_msi d 3 Level Fixed 0x40 2 = Some (Success, ws) \<and>
       get_bf MSI_bits ''multi_msg_enable'' (unat h) = 1 \<and> get_bf MSI_bits ''msi_enable'' (unat (h :: u32)) = 1))"
proof -
  define d where "d = device_at sample_msi 0 2 0"
  have r: "read_register sample_msi d a = 0x00020005" for a by (simp add: read_register_def sample_msi_def)
  have f: "first_capability sample_msi d = 5" by (simp add: first_capability_def r)
  have id: "cap_id sample_msi d 5 = 0x05" unfolding cap_id_def read_capability_header_def r
    by (simp add: get_bf_def CapabilityHeader_bits_def take_bit_eq_mod)
  have header: "msi_header (read_msi_capability sample_msi d a) = 0x00020005" for a
    by (simp add: read_msi_capability_def Let_def r)
  have capable: "get_bf MSI_bits ''multi_msg_capable'' (unat (0x00020005 :: u32)) = 1"
    by (simp add: get_bf_def MSI_bits_def take_bit_eq_mod drop_bit_eq_div)
  have "caps_until sample_msi d (first_capability sample_msi d) [] 5" by (simp add: f)
  note conf = msi_configured [OF this, of 3 Level Fixed "0x40" 2]
  have "\<exists>h ws. configure_msi_fixed_destination sample_msi d 3 Level Fixed 0x40 2 = Some (Success, ws) \<and>
       get_bf MSI_bits ''multi_msg_enable'' (unat h) = 1 \<and> get_bf MSI_bits ''msi_enable'' (unat (h :: u32)) = 1"
    using conf id capable by (auto simp: header)
  then show ?thesis using id f unfolding d_def [symmetric] Let_def by simp
qed

end
