(* ===== verification/Virtio_Queue.thy ===== *)
theory Virtio_Queue
  imports Frame_Allocator
begin

text \<open>
  The split queue between a virtio driver and its device, \<^verbatim>\<open>src/virtio/queue.hpp\<close>: the descriptor table, the ring of
  available descriptors, the ring of used descriptors, and the operations of \<^verbatim>\<open>Queue\<close>. A request takes two
  descriptors, one for the request and the next one for the response. The device reads the available ring and
  writes the used ring. \<open>None\<close> is undefined behaviour (an index out of range, a division by a zero queue size) or a
  chain of descriptors that never ends.
\<close>

section \<open>Model\<close>

record descriptor =
  d_addr :: u64
  d_len :: u32
  d_flags :: u16
  d_next :: u16

definition flag_next :: u16 where "flag_next = 1"
definition flag_write :: u16 where "flag_write = 2"

record available_ring =
  a_flags :: u16
  a_index :: u16
  a_ring :: "u16 list"

record used_ring =
  u_flags :: u16
  u_index :: u16
  u_ring :: "(u32 \<times> u32) list"

definition create_available :: "nat \<Rightarrow> available_ring" where
  "create_available queue_size = \<lparr>a_flags = 0, a_index = 0, a_ring = replicate queue_size 0\<rparr>"

definition create_used :: "nat \<Rightarrow> used_ring" where
  "create_used queue_size = \<lparr>u_flags = 0, u_index = 0, u_ring = replicate queue_size (0, 0)\<rparr>"

record queue =
  descriptors :: "descriptor list"
  avail :: available_ring
  used :: used_ring
  added_descriptors :: u32
  free_head :: u32
  last_used :: u32
  qsize :: u16
  queue_number :: u16
  notify_address :: u64
  frame_id :: smart_frame_id

text \<open>
  The constructor. When the allocation of the frames fails, it only logs: the descriptors stay what \<^verbatim>\<open>new\<close> left, and
  the queue owns no frames.
\<close>

definition init_descriptor :: "nat \<Rightarrow> nat \<Rightarrow> nat \<Rightarrow> descriptor" where
  "init_descriptor frame n i =
     \<lparr>d_addr = of_nat ((frame + i) * bytes_per_frame), d_len = 4096, d_flags = 0, d_next = (if i + 1 \<noteq> n then of_nat (i + 1) else 0)\<rparr>"

definition new_queue :: "u16 \<Rightarrow> u16 \<Rightarrow> u64 \<Rightarrow> smart_frame_id result \<Rightarrow> descriptor list \<Rightarrow> queue" where
  "new_queue number n notify frames garbage =
     \<lparr>descriptors = (case frames of Inl _ \<Rightarrow> garbage | Inr f \<Rightarrow> map (init_descriptor (sf_id f) (unat n)) [0..<unat n]),
      avail = create_available (unat n), used = create_used (unat n),
      added_descriptors = 0, free_head = 0, last_used = 0, qsize = n, queue_number = number, notify_address = notify,
      frame_id = (case frames of Inl _ \<Rightarrow> \<lparr>sf_id = nullframe, sf_frames = 0\<rparr> | Inr f \<Rightarrow> f)\<rparr>"

definition construct_queue :: "u16 \<Rightarrow> u16 \<Rightarrow> u64 \<Rightarrow> descriptor list \<Rightarrow> bmm \<Rightarrow> (queue \<times> bmm) option" where
  "construct_queue number n notify garbage m =
     do { (r, m) \<leftarrow> allocate m (unat n); Some (new_queue number n notify r garbage, m) }"

text \<open>The address of the next request buffer.\<close>

definition get_next_descriptor_buffer :: "u32 \<Rightarrow> queue \<Rightarrow> (u64 \<times> queue) option" where
  "get_next_descriptor_buffer len q =
     (if qsize q = 0 then None
      else let i = unat (free_head q) mod unat (qsize q); d = descriptors q ! i in
        Some (d_addr d, q\<lparr>descriptors := (descriptors q)[i := d\<lparr>d_len := len\<rparr>],
                          free_head := free_head q + 2, added_descriptors := added_descriptors q + 1\<rparr>))"

definition descriptor_index :: "queue \<Rightarrow> nat \<Rightarrow> nat" where
  "descriptor_index q i = unat (free_head q - (added_descriptors q - of_nat i) * 2) mod unat (qsize q)"

definition notify_one :: "nat \<Rightarrow> queue \<Rightarrow> queue" where
  "notify_one i q =
     (let n = unat (qsize q); di = descriptor_index q i; dj = (di + 1) mod n;
          ds = descriptors q;
          ds = ds[di := (ds ! di)\<lparr>d_flags := flag_next, d_next := of_nat dj\<rparr>];
          ds = ds[dj := (ds ! dj)\<lparr>d_flags := flag_write, d_len := 4096\<rparr>] in
      q\<lparr>avail := (avail q)\<lparr>a_ring := (a_ring (avail q))[unat (a_index (avail q)) mod n := of_nat di],
                          a_index := a_index (avail q) + 1\<rparr>,
        descriptors := ds\<rparr>)"

text \<open>\<^verbatim>\<open>notify_device\<close>, with what it writes: the selected queue, and the new index to the notification address.\<close>

definition notify_device :: "queue \<Rightarrow> ((u16 \<times> u64 \<times> u16) \<times> queue) option" where
  "notify_device q =
     (if added_descriptors q \<noteq> 0 \<and> qsize q = 0 then None
      else let q = (fold notify_one [0..<unat (added_descriptors q)] q)\<lparr>added_descriptors := 0\<rparr> in
        Some ((queue_number q, notify_address q, a_index (avail q)), q))"

text \<open>The loop of \<^verbatim>\<open>read_one_buffer\<close> that looks for the response of a chain; 0 is the null pointer.\<close>

partial_function (option) find_response :: "descriptor list \<Rightarrow> nat \<Rightarrow> u64 option" where
  "find_response ds i =
     (if i \<ge> length ds then None
      else let d = ds ! i in
        if d_flags d AND flag_write \<noteq> 0 then Some (d_addr d)
        else if d_flags d AND flag_next \<noteq> 0 then find_response ds (unat (d_next d))
        else Some 0)"

declare find_response.simps [code]

text \<open>The request and the response of an entry of the used ring.\<close>

definition entry_buffers :: "descriptor list \<Rightarrow> u32 \<times> u32 \<Rightarrow> (u64 \<times> u64) option" where
  "entry_buffers ds e =
     (if snd e = 0 then Some (0, 0)
      else if snd e > 4096 then Some (0, 0)
      else if unat (fst e) \<ge> length ds then None
      else do { response \<leftarrow> find_response ds (unat (fst e)); Some (d_addr (ds ! unat (fst e)), response) })"

text \<open>\<^verbatim>\<open>read_one_buffer\<close>: nothing (false), or the addresses of the request and of the response.\<close>

definition read_one_buffer :: "queue \<Rightarrow> ((u64 \<times> u64) option \<times> queue) option" where
  "read_one_buffer q =
     (if last_used q = ucast (u_index (used q)) then Some (None, q)
      else if qsize q = 0 then None
      else do {
        let e = u_ring (used q) ! (unat (last_used q) mod unat (qsize q));
        b \<leftarrow> entry_buffers (descriptors q) e;
        Some (Some b, q\<lparr>last_used := last_used q + 1\<rparr>) })"

text \<open>
  What the drivers write to the common configuration of \<^verbatim>\<open>src/virtio/pci.hpp\<close>. \<open>set_queue_to_config\<close> is the sequence of
  its writes, for the addresses of the three parts of the queue.
\<close>

datatype config_write =
    DeviceFeatureSelect u32 | DriverFeatureSelect u32 | DriverFeature u32 | ConfigMsixVector u16 | DeviceStatus u8
  | QueueSelect u16 | QueueMsixVector u16 | QueueEnable u16 | QueueDesc u64 | QueueDriver u64 | QueueDevice u64

definition set_queue_to_config :: "u16 \<Rightarrow> u64 \<times> u64 \<times> u64 \<Rightarrow> u32 option \<Rightarrow> config_write list" where
  "set_queue_to_config number ptrs msix_entry_number =
     (let (ds, av, us) = ptrs in
      [QueueSelect number, QueueDesc ds, QueueDriver av, QueueDevice us] @
      (case msix_entry_number of None \<Rightarrow> [] | Some e \<Rightarrow> [ConfigMsixVector 0xFFFF, QueueMsixVector (ucast e)]) @
      [QueueEnable 1])"

section \<open>Requests\<close>

text \<open>A queue whose size is a power of two above one, as the specification of virtio asks.\<close>

definition queue_wf :: "queue \<Rightarrow> bool" where
  "queue_wf q \<longleftrightarrow> (\<exists>e. 1 \<le> e \<and> e < 16 \<and> unat (qsize q) = 2 ^ e) \<and>
     length (descriptors q) = unat (qsize q) \<and> length (a_ring (avail q)) = unat (qsize q) \<and>
     length (u_ring (used q)) = unat (qsize q) \<and> even (unat (free_head q))"

definition head_at :: "queue \<Rightarrow> nat \<Rightarrow> nat" where
  "head_at q k = (unat (free_head q) + 2 * k) mod unat (qsize q)"

text \<open>Requests of the given sizes, made one after the other.\<close>

fun add_requests :: "u32 list \<Rightarrow> queue \<Rightarrow> (u64 list \<times> queue) option" where
  "add_requests [] q = Some ([], q)"
| "add_requests (l # ls) q =
     do { (a, q) \<leftarrow> get_next_descriptor_buffer l q; (as, q) \<leftarrow> add_requests ls q; Some (a # as, q) }"

lemma queue_wfD:
  assumes "queue_wf q"
  shows "0 < unat (qsize q)" "even (unat (qsize q))" "unat (qsize q) dvd 2 ^ 16" "unat (qsize q) dvd 2 ^ 32"
    "length (descriptors q) = unat (qsize q)" "length (a_ring (avail q)) = unat (qsize q)"
    "length (u_ring (used q)) = unat (qsize q)" "even (unat (free_head q))"
proof -
  obtain e where e: "1 \<le> e" "e < 16" "unat (qsize q) = 2 ^ e" using assms unfolding queue_wf_def by blast
  show "0 < unat (qsize q)" "even (unat (qsize q))" using e by simp_all
  show "unat (qsize q) dvd 2 ^ 16" "unat (qsize q) dvd 2 ^ 32" unfolding e(3) using e(2) by (intro le_imp_power_dvd; simp)+
qed (use assms in \<open>simp_all add: queue_wf_def\<close>)

lemma head_at_bound:
  assumes "queue_wf q"
  shows "head_at q k < unat (qsize q)" "even (head_at q k)" "Suc (head_at q k) < unat (qsize q)"
proof -
  note w = queue_wfD [OF assms]
  show 1: "head_at q k < unat (qsize q)" unfolding head_at_def using w(1) by simp
  show 2: "even (head_at q k)" unfolding head_at_def using w(2,8) by (simp add: dvd_mod_iff)
  show "Suc (head_at q k) < unat (qsize q)"
  proof (rule ccontr)
    assume "\<not> Suc (head_at q k) < unat (qsize q)"
    then have "unat (qsize q) = Suc (head_at q k)" using 1 by linarith
    then show False using 2 w(2) by simp
  qed
qed

lemma mod_inj_window:
  fixes a b c n :: nat
  assumes "(c + a) mod n = (c + b) mod n" "a < n" "b < n"
  shows "a = b"
proof -
  have "n dvd a - b" "n dvd b - a"
    using assms(1) mod_eq_dvd_iff_nat [of "c + b" "c + a" n] mod_eq_dvd_iff_nat [of "c + a" "c + b" n]
    by (cases "b \<le> a"; simp)+
  then have "a - b = 0" "b - a = 0" using assms(2,3) by (metis dvd_imp_le gr0I leD less_imp_diff_less)+
  then show ?thesis by simp
qed

lemma head_at_inj:
  assumes "queue_wf q" "2 * n \<le> unat (qsize q)" "j < n" "k < n"
  shows "head_at q j = head_at q k \<longleftrightarrow> j = k"
  using mod_inj_window [of "unat (free_head q)" "2 * j" "unat (qsize q)" "2 * k"] assms(2-) unfolding head_at_def by auto

lemma head_at_next:
  assumes "queue_wf q"
  shows "head_at q j \<noteq> Suc (head_at q k)" "Suc (head_at q j) \<noteq> head_at q k"
  using head_at_bound(2) [OF assms, of j] head_at_bound(2) [OF assms, of k] by (metis even_Suc)+

lemma unat_add_mod:
  fixes w :: "'a :: len word"
  assumes "n dvd 2 ^ LENGTH('a)"
  shows "unat (w + of_nat k) mod n = (unat w + k) mod n"
  using assms by (simp add: unat_word_ariths unat_of_nat mod_mod_cancel mod_add_right_eq)

lemma unat_of_nat_small: "n < 2 ^ LENGTH('a) \<Longrightarrow> unat (of_nat n :: 'a :: len word) = n"
  by (simp add: unat_of_nat take_bit_nat_eq_self)

lemma u16_bound: "unat (i :: u16) < 65536"
proof -
  have "unat i < 2 ^ LENGTH(16)" by (rule unsigned_less)
  then show ?thesis by simp
qed

lemma get_next_wf:
  fixes l :: u32
  assumes wf: "queue_wf q"
  defines "i \<equiv> head_at q 0"
  defines "q1 \<equiv> q\<lparr>descriptors := (descriptors q)[i := (descriptors q ! i)\<lparr>d_len := l\<rparr>],
                  free_head := free_head q + 2, added_descriptors := added_descriptors q + 1\<rparr>"
  shows "get_next_descriptor_buffer l q = Some (d_addr (descriptors q ! i), q1)" "queue_wf q1" "head_at q1 k = head_at q (Suc k)"
proof -
  note w = queue_wfD [OF wf]
  show "get_next_descriptor_buffer l q = Some (d_addr (descriptors q ! i), q1)"
    using w(1) by (auto simp: get_next_descriptor_buffer_def i_def q1_def head_at_def Let_def unat_eq_0)
  have fh: "unat (free_head q + 2) mod n = (unat (free_head q) + 2) mod n" if "n dvd 2 ^ 32" for n
    using unat_add_mod [of n "free_head q" 2] that by simp
  have "even (unat (free_head q + 2))"
    using fh [of 2] w(8) by (simp add: even_iff_mod_2_eq_zero mod_add_self2)
  then show "queue_wf q1" using wf by (simp add: queue_wf_def q1_def)
  show "head_at q1 k = head_at q (Suc k)"
    using fh [OF w(4)] mod_add_left_eq [of "unat (free_head q + 2)" "unat (qsize q)" "2 * k"]
      mod_add_left_eq [of "unat (free_head q) + 2" "unat (qsize q)" "2 * k"]
    by (simp add: head_at_def q1_def)
qed

lemma add_requests_spec:
  assumes "queue_wf q" "2 * length ls \<le> unat (qsize q)"
  shows "\<exists>ds. add_requests ls q =
      Some (map (\<lambda>k. d_addr (descriptors q ! head_at q k)) [0..<length ls],
            q\<lparr>descriptors := ds, free_head := free_head q + of_nat (2 * length ls),
              added_descriptors := added_descriptors q + of_nat (length ls)\<rparr>) \<and>
    length ds = unat (qsize q) \<and>
    (\<forall>k < length ls. ds ! head_at q k = (descriptors q ! head_at q k)\<lparr>d_len := ls ! k\<rparr>) \<and>
    (\<forall>i. (\<forall>k < length ls. i \<noteq> head_at q k) \<longrightarrow> ds ! i = descriptors q ! i)"
  using assms
proof (induction ls arbitrary: q)
  case Nil
  then show ?case using queue_wfD(5) [OF Nil(1)] by (auto intro!: exI [of _ "descriptors q"])
next
  case (Cons l ls)
  define i where "i = head_at q 0"
  define q1 where "q1 = q\<lparr>descriptors := (descriptors q)[i := (descriptors q ! i)\<lparr>d_len := l\<rparr>],
                  free_head := free_head q + 2, added_descriptors := added_descriptors q + 1\<rparr>"
  note g = get_next_wf [OF Cons.prems(1), of l, folded i_def, folded q1_def]
  have inj: "head_at q (Suc k) \<noteq> i" if "k < length ls" for k
    using head_at_inj [OF Cons.prems(1) Cons.prems(2), of "Suc k" 0] that by (simp add: i_def)
  have il: "i < length (descriptors q)"
    using head_at_bound(1) [OF Cons.prems(1)] queue_wfD(5) [OF Cons.prems(1)] by (simp add: i_def)
  have size: "qsize q1 = qsize q" by (simp add: q1_def)
  obtain ds where ds: "add_requests ls q1 =
      Some (map (\<lambda>k. d_addr (descriptors q1 ! head_at q1 k)) [0..<length ls],
            q1\<lparr>descriptors := ds, free_head := free_head q1 + of_nat (2 * length ls),
              added_descriptors := added_descriptors q1 + of_nat (length ls)\<rparr>)"
    "length ds = unat (qsize q)"
    "\<forall>k < length ls. ds ! head_at q1 k = (descriptors q1 ! head_at q1 k)\<lparr>d_len := ls ! k\<rparr>"
    "\<forall>i. (\<forall>k < length ls. i \<noteq> head_at q1 k) \<longrightarrow> ds ! i = descriptors q1 ! i"
    using Cons.IH [OF g(2)] Cons.prems(2) by (auto simp: size)
  have same: "descriptors q1 ! head_at q (Suc k) = descriptors q ! head_at q (Suc k)" if "k < length ls" for k
    using inj [OF that] by (simp add: q1_def)
  have addrs: "map (\<lambda>k. d_addr (descriptors q1 ! head_at q1 k)) [0..<length ls]
      = map (\<lambda>k. d_addr (descriptors q ! head_at q (Suc k))) [0..<length ls]"
    by (simp add: g(3) same)
  have 1: "add_requests (l # ls) q =
      Some (map (\<lambda>k. d_addr (descriptors q ! head_at q k)) [0..<length (l # ls)],
            q\<lparr>descriptors := ds, free_head := free_head q + of_nat (2 * length (l # ls)),
              added_descriptors := added_descriptors q + of_nat (length (l # ls))\<rparr>)"
    using g(1) ds(1) unfolding addrs
    by (simp add: q1_def i_def upt_conv_Cons map_Suc_upt [symmetric] del: upt_Suc)
  have 2: "ds ! head_at q k = (descriptors q ! head_at q k)\<lparr>d_len := (l # ls) ! k\<rparr>" if "k < length (l # ls)" for k
  proof (cases k)
    case 0
    have "ds ! i = descriptors q1 ! i" using ds(4) inj by (metis g(3))
    then show ?thesis using 0 il by (simp add: q1_def i_def)
  next
    case (Suc j)
    then show ?thesis using that ds(3) same [of j] by (simp add: g(3))
  qed
  have 3: "ds ! j = descriptors q ! j" if "\<forall>k < length (l # ls). j \<noteq> head_at q k" for j
  proof -
    have "\<forall>k < length ls. j \<noteq> head_at q1 k" "j \<noteq> i" using that by (auto simp: g(3) i_def)
    then show ?thesis using ds(4) by (simp add: q1_def)
  qed
  show ?case using 1 2 3 ds(2) by blast
qed

section \<open>Notification\<close>

lemma notify_one_fields [simp]:
  "qsize (notify_one i q) = qsize q" "free_head (notify_one i q) = free_head q"
  "added_descriptors (notify_one i q) = added_descriptors q" "last_used (notify_one i q) = last_used q"
  "used (notify_one i q) = used q" "queue_number (notify_one i q) = queue_number q" "notify_address (notify_one i q) = notify_address q"
  "a_flags (avail (notify_one i q)) = a_flags (avail q)"
  "a_index (avail (notify_one i q)) = a_index (avail q) + 1"
  "length (descriptors (notify_one i q)) = length (descriptors q)"
  "length (a_ring (avail (notify_one i q))) = length (a_ring (avail q))"
  "descriptor_index (notify_one i q) j = descriptor_index q j"
  by (simp_all add: notify_one_def descriptor_index_def Let_def)

lemma notify_fold_fields [simp]:
  "qsize (fold notify_one is q) = qsize q" "free_head (fold notify_one is q) = free_head q"
  "added_descriptors (fold notify_one is q) = added_descriptors q" "last_used (fold notify_one is q) = last_used q"
  "used (fold notify_one is q) = used q" "queue_number (fold notify_one is q) = queue_number q"
  "notify_address (fold notify_one is q) = notify_address q"
  "a_index (avail (fold notify_one is q)) = a_index (avail q) + of_nat (length is)"
  "length (descriptors (fold notify_one is q)) = length (descriptors q)"
  "length (a_ring (avail (fold notify_one is q))) = length (a_ring (avail q))"
  "descriptor_index (fold notify_one is q) j = descriptor_index q j"
  by (induction "is" arbitrary: q) (simp_all add: algebra_simps)

lemma notify_one_descriptors:
  assumes "queue_wf r" "descriptor_index q i = h" "qsize r = qsize q" "h = head_at r k"
    "length (descriptors q) = unat (qsize q)"
  shows "descriptors (notify_one i q) = (descriptors q)
           [h := (descriptors q ! h)\<lparr>d_flags := flag_next, d_next := of_nat (Suc h)\<rparr>,
            Suc h := (descriptors q ! Suc h)\<lparr>d_flags := flag_write, d_len := 4096\<rparr>]"
    "a_ring (avail (notify_one i q)) = (a_ring (avail q))[unat (a_index (avail q)) mod unat (qsize q) := of_nat h]"
  using head_at_bound [OF assms(1), of k] assms(2-) by (simp_all add: notify_one_def Let_def)

lemma notify_fold_spec:
  assumes wf: "queue_wf r" and n: "2 * n \<le> unat (qsize r)" and m: "m \<le> n"
    and q: "qsize q = qsize r" "\<And>i. i < n \<Longrightarrow> descriptor_index q i = head_at r i" "length (descriptors q) = unat (qsize q)"
      "length (a_ring (avail q)) = unat (qsize q)"
  defines "p \<equiv> fold notify_one [0..<m] q"
  shows "(\<forall>k < m. a_ring (avail p) ! ((unat (a_index (avail q)) + k) mod unat (qsize q)) = of_nat (head_at r k) \<and>
      descriptors p ! head_at r k = (descriptors q ! head_at r k)\<lparr>d_flags := flag_next, d_next := of_nat (Suc (head_at r k))\<rparr> \<and>
      descriptors p ! Suc (head_at r k) = (descriptors q ! Suc (head_at r k))\<lparr>d_flags := flag_write, d_len := 4096\<rparr>) \<and>
    (\<forall>i. (\<forall>k < m. i \<noteq> head_at r k \<and> i \<noteq> Suc (head_at r k)) \<longrightarrow> descriptors p ! i = descriptors q ! i) \<and>
    (\<forall>i. (\<forall>k < m. i \<noteq> (unat (a_index (avail q)) + k) mod unat (qsize q)) \<longrightarrow> a_ring (avail p) ! i = a_ring (avail q) ! i)"
  using m unfolding p_def
proof (induction m)
  case (Suc m)
  define p where "p = fold notify_one [0..<m] q"
  define h where "h = head_at r m"
  have IH: "a_ring (avail p) ! ((unat (a_index (avail q)) + k) mod unat (qsize q)) = of_nat (head_at r k)"
      "descriptors p ! head_at r k = (descriptors q ! head_at r k)\<lparr>d_flags := flag_next, d_next := of_nat (Suc (head_at r k))\<rparr>"
      "descriptors p ! Suc (head_at r k) = (descriptors q ! Suc (head_at r k))\<lparr>d_flags := flag_write, d_len := 4096\<rparr>"
    if "k < m" for k using Suc that by (simp_all add: p_def)
  have IHo: "descriptors p ! i = descriptors q ! i" if "\<forall>k < m. i \<noteq> head_at r k \<and> i \<noteq> Suc (head_at r k)" for i
    using Suc that by (simp add: p_def)
  have IHa: "a_ring (avail p) ! i = a_ring (avail q) ! i" if "\<forall>k < m. i \<noteq> (unat (a_index (avail q)) + k) mod unat (qsize q)" for i
    using Suc that by (simp add: p_def)
  have step: "fold notify_one [0..<Suc m] q = notify_one m p" by (simp add: p_def)
  have "descriptor_index p m = h" using q(2) [of m] Suc.prems by (simp add: p_def h_def)
  then have ds: "descriptors (notify_one m p) = (descriptors p)
           [h := (descriptors p ! h)\<lparr>d_flags := flag_next, d_next := of_nat (Suc h)\<rparr>,
            Suc h := (descriptors p ! Suc h)\<lparr>d_flags := flag_write, d_len := 4096\<rparr>]"
    "a_ring (avail (notify_one m p)) = (a_ring (avail p))[unat (a_index (avail p)) mod unat (qsize p) := of_nat h]"
    using notify_one_descriptors [OF wf, of p m h m] q by (simp_all add: p_def h_def)
  have len: "length (descriptors p) = unat (qsize r)" "length (a_ring (avail p)) = unat (qsize r)" "qsize p = qsize r"
    using q by (simp_all add: p_def)
  have slot: "unat (a_index (avail p)) mod unat (qsize p) = (unat (a_index (avail q)) + m) mod unat (qsize q)"
    using unat_add_mod [of "unat (qsize q)" "a_index (avail q)" m] queue_wfD(3) [OF wf] q(1) by (simp add: p_def)
  have hb: "h < unat (qsize r)" "Suc h < unat (qsize r)" using head_at_bound [OF wf, of m] by (simp_all add: h_def)
  have old: "head_at r k \<noteq> h" "Suc (head_at r k) \<noteq> h" "head_at r k \<noteq> Suc h" if "k < m" for k
    using head_at_inj [OF wf n, of k m] head_at_next [OF wf] that Suc.prems by (simp_all add: h_def)
  have fresh: "descriptors p ! h = descriptors q ! h" "descriptors p ! Suc h = descriptors q ! Suc h"
    by (intro IHo allI impI conjI; metis old Suc_inject)+
  have slots: "(unat (a_index (avail q)) + k) mod unat (qsize q) \<noteq> (unat (a_index (avail q)) + m) mod unat (qsize q)" if "k < m" for k
    using mod_inj_window [of "unat (a_index (avail q))" k "unat (qsize q)" m] that Suc.prems n q(1) by auto
  have "a_ring (avail (notify_one m p)) ! ((unat (a_index (avail q)) + k) mod unat (qsize q)) = of_nat (head_at r k)"
      "descriptors (notify_one m p) ! head_at r k = (descriptors q ! head_at r k)\<lparr>d_flags := flag_next, d_next := of_nat (Suc (head_at r k))\<rparr>"
      "descriptors (notify_one m p) ! Suc (head_at r k) = (descriptors q ! Suc (head_at r k))\<lparr>d_flags := flag_write, d_len := 4096\<rparr>"
    if "k < Suc m" for k
  proof -
    have "k < m \<or> k = m" using that by auto
    then show "a_ring (avail (notify_one m p)) ! ((unat (a_index (avail q)) + k) mod unat (qsize q)) = of_nat (head_at r k)"
      using IH(1) slots [of k] len queue_wfD(1) [OF wf] q(1) by (auto simp: ds(2) [unfolded slot] h_def nth_list_update)
    show "descriptors (notify_one m p) ! head_at r k = (descriptors q ! head_at r k)\<lparr>d_flags := flag_next, d_next := of_nat (Suc (head_at r k))\<rparr>"
      using \<open>k < m \<or> k = m\<close> IH(2) old [of k] len hb fresh by (auto simp: ds(1) h_def [symmetric])
    show "descriptors (notify_one m p) ! Suc (head_at r k) = (descriptors q ! Suc (head_at r k))\<lparr>d_flags := flag_write, d_len := 4096\<rparr>"
      using \<open>k < m \<or> k = m\<close> IH(3) old [of k] len hb fresh by (auto simp: ds(1) h_def [symmetric])
  qed
  moreover have "descriptors (notify_one m p) ! i = descriptors q ! i"
    if "\<forall>k < Suc m. i \<noteq> head_at r k \<and> i \<noteq> Suc (head_at r k)" for i
  proof -
    have "i \<noteq> h" "i \<noteq> Suc h" using that by (simp_all add: h_def)
    then show ?thesis using that IHo [of i] by (simp add: ds(1))
  qed
  moreover have "a_ring (avail (notify_one m p)) ! i = a_ring (avail q) ! i"
    if "\<forall>k < Suc m. i \<noteq> (unat (a_index (avail q)) + k) mod unat (qsize q)" for i
  proof -
    have "(unat (a_index (avail q)) + m) mod unat (qsize q) \<noteq> i" "a_ring (avail p) ! i = a_ring (avail q) ! i"
      using that IHa [of i] by (simp_all add: not_sym)
    then show ?thesis unfolding ds(2) [unfolded slot] by (simp only: nth_list_update_neq not_False_eq_True)
  qed
  ultimately show ?case unfolding step by blast
qed simp

lemma requests_spec:
  assumes wf: "queue_wf q" and added: "added_descriptors q = 0" and n: "2 * length ls \<le> unat (qsize q)"
  shows "\<exists>q1 q2. add_requests ls q = Some (map (\<lambda>k. d_addr (descriptors q ! head_at q k)) [0..<length ls], q1) \<and>
     notify_device q1 = Some ((queue_number q, notify_address q, a_index (avail q) + of_nat (length ls)), q2) \<and>
     queue_wf q2 \<and> added_descriptors q2 = 0 \<and> qsize q2 = qsize q \<and> free_head q2 = free_head q + of_nat (2 * length ls) \<and>
     a_index (avail q2) = a_index (avail q) + of_nat (length ls) \<and> used q2 = used q \<and> last_used q2 = last_used q \<and>
     (\<forall>k < length ls. let h = head_at q k in
        a_ring (avail q2) ! ((unat (a_index (avail q)) + k) mod unat (qsize q)) = of_nat h \<and>
        descriptors q2 ! h = (descriptors q ! h)\<lparr>d_len := ls ! k, d_flags := flag_next, d_next := of_nat (h + 1)\<rparr> \<and>
        descriptors q2 ! (h + 1) = (descriptors q ! (h + 1))\<lparr>d_flags := flag_write, d_len := 4096\<rparr>) \<and>
     (\<forall>i. (\<forall>k < length ls. i \<noteq> head_at q k \<and> i \<noteq> head_at q k + 1) \<longrightarrow> descriptors q2 ! i = descriptors q ! i) \<and>
     (\<forall>i. (\<forall>k < length ls. i \<noteq> (unat (a_index (avail q)) + k) mod unat (qsize q)) \<longrightarrow> a_ring (avail q2) ! i = a_ring (avail q) ! i)"
proof -
  define n where "n = length ls"
  obtain ds where ds: "add_requests ls q =
      Some (map (\<lambda>k. d_addr (descriptors q ! head_at q k)) [0..<n],
            q\<lparr>descriptors := ds, free_head := free_head q + of_nat (2 * n), added_descriptors := added_descriptors q + of_nat n\<rparr>)"
    "length ds = unat (qsize q)"
    "\<And>k. k < n \<Longrightarrow> ds ! head_at q k = (descriptors q ! head_at q k)\<lparr>d_len := ls ! k\<rparr>"
    "\<And>i. (\<forall>k < n. i \<noteq> head_at q k) \<Longrightarrow> ds ! i = descriptors q ! i"
    using add_requests_spec [OF wf n] unfolding n_def [symmetric] by blast
  define q1 where "q1 = q\<lparr>descriptors := ds, free_head := free_head q + of_nat (2 * n), added_descriptors := of_nat n\<rparr>"
  define p where "p = fold notify_one [0..<n] q1"
  define q2 where "q2 = p\<lparr>added_descriptors := 0\<rparr>"
  note w = queue_wfD [OF wf]
  have small: "2 * n \<le> unat (qsize q)" using n by (simp add: n_def)
  have "unat (qsize q) < 2 ^ 16" using unsigned_less [of "qsize q"] by simp
  then have n32: "n < 2 ^ 32" using small by simp
  then have un: "unat (of_nat n :: u32) = n" by (simp add: unat_of_nat_small)
  have index: "descriptor_index q1 i = head_at q i" if "i < n" for i
  proof -
    have "free_head q1 - (added_descriptors q1 - of_nat i) * 2 = free_head q + of_nat (2 * i)"
      by (simp add: q1_def algebra_simps)
    then show ?thesis using unat_add_mod [of "unat (qsize q)" "free_head q" "2 * i"] w(4)
      by (simp add: descriptor_index_def head_at_def q1_def mult.commute)
  qed
  note spec = notify_fold_spec [OF wf small order_refl, of q1, folded p_def]
  have sp: "a_ring (avail p) ! ((unat (a_index (avail q1)) + k) mod unat (qsize q1)) = of_nat (head_at q k)"
      "descriptors p ! head_at q k = (descriptors q1 ! head_at q k)\<lparr>d_flags := flag_next, d_next := of_nat (Suc (head_at q k))\<rparr>"
      "descriptors p ! Suc (head_at q k) = (descriptors q1 ! Suc (head_at q k))\<lparr>d_flags := flag_write, d_len := 4096\<rparr>"
    if "k < n" for k
    using spec index that w ds(2) by (simp_all add: q1_def)
  have spo: "descriptors p ! i = descriptors q1 ! i" if "\<forall>k < n. i \<noteq> head_at q k \<and> i \<noteq> Suc (head_at q k)" for i
    using spec index that w ds(2) by (simp add: q1_def)
  have spa: "a_ring (avail p) ! i = a_ring (avail q) ! i" if "\<forall>k < n. i \<noteq> (unat (a_index (avail q)) + k) mod unat (qsize q)" for i
    using spec index that w ds(2) by (simp add: q1_def)
  have fields: "last_used p = last_used q" "qsize p = qsize q" "length (descriptors p) = unat (qsize q)" "length (a_ring (avail p)) = unat (qsize q)"
    "used p = used q" "queue_number p = queue_number q" "notify_address p = notify_address q" "a_index (avail p) = a_index (avail q) + of_nat n"
    "free_head p = free_head q + of_nat (2 * n)"
    using w ds(2) by (simp_all add: p_def q1_def)
  have even: "even (unat (free_head q + of_nat (2 * n)))"
    using unat_add_mod [of 2 "free_head q" "2 * n"] w(8) by (simp add: even_iff_mod_2_eq_zero)
  have wf2: "queue_wf q2" using wf fields even by (simp add: queue_wf_def q2_def)
  have notify: "notify_device q1 = Some ((queue_number q, notify_address q, a_index (avail q) + of_nat n), q2)"
    using w(1) fields un by (auto simp: notify_device_def q2_def p_def q1_def)
  have each: "let h = head_at q k in
        a_ring (avail q2) ! ((unat (a_index (avail q)) + k) mod unat (qsize q)) = of_nat h \<and>
        descriptors q2 ! h = (descriptors q ! h)\<lparr>d_len := ls ! k, d_flags := flag_next, d_next := of_nat (h + 1)\<rparr> \<and>
        descriptors q2 ! (h + 1) = (descriptors q ! (h + 1))\<lparr>d_flags := flag_write, d_len := 4096\<rparr>"
    if k: "k < n" for k
    using sp [OF k] ds(3) [OF k] ds(4) [of "Suc (head_at q k)"] head_at_next(2) [OF wf]
    by (simp add: q2_def q1_def Let_def)
  have other: "descriptors q2 ! i = descriptors q ! i" if "\<forall>k < n. i \<noteq> head_at q k \<and> i \<noteq> head_at q k + 1" for i
    using that spo [of i] ds(4) [of i] by (simp add: q2_def q1_def)
  have add: "add_requests ls q = Some (map (\<lambda>k. d_addr (descriptors q ! head_at q k)) [0..<n], q1)"
    using ds(1) added by (simp add: q1_def)
  show ?thesis
    unfolding n_def [symmetric]
    by (intro exI [of _ q1] exI [of _ q2] conjI)
       (use add notify wf2 each other spa fields in \<open>simp_all only: , simp_all add: q2_def\<close>)
qed

text \<open>A chain of two descriptors, request and response, leads a completion to both buffers.\<close>

lemma chain_entry:
  assumes "Suc h < length ds" "length ds < 2 ^ 16" "d_flags (ds ! h) = flag_next" "d_next (ds ! h) = of_nat (Suc h)"
    "d_flags (ds ! Suc h) = flag_write" "0 < len" "len \<le> 4096"
  shows "entry_buffers ds (of_nat h, len) = Some (d_addr (ds ! h), d_addr (ds ! Suc h))"
proof -
  have u: "unat (of_nat h :: u32) = h" "unat (of_nat (Suc h) :: u16) = Suc h"
    using assms(1,2) by (intro unat_of_nat_small; simp)+
  have "find_response ds (Suc h) = Some (d_addr (ds ! Suc h))"
    using assms by (subst find_response.simps) (simp add: flag_write_def Let_def)
  then have "find_response ds h = Some (d_addr (ds ! Suc h))"
    using assms u(2) by (subst find_response.simps) (simp add: flag_write_def flag_next_def Let_def)
  then show ?thesis using assms u(1) by (auto simp: entry_buffers_def)
qed

text \<open>
  C26. Requests put into a queue are what the device is offered and what its completions lead back to. When no more
  requests are made than the queue has pairs of descriptors, every request gets a buffer of its own;
  \<^verbatim>\<open>notify_device\<close> puts the heads into the available ring in the order of the requests and announces the new index;
  the chain of each head is the request with the requested length followed by a device-writable response of one
  frame; no other descriptor changes; and a completion that names the head yields the request buffer together with the
  buffer of the response.
\<close>

theorem request_roundtrip:
  assumes wf: "queue_wf q" and added: "added_descriptors q = 0" and n: "2 * length ls \<le> unat (qsize q)"
  shows "\<exists>addrs q1 q2. add_requests ls q = Some (addrs, q1) \<and>
     notify_device q1 = Some ((queue_number q, notify_address q, a_index (avail q) + of_nat (length ls)), q2) \<and>
     queue_wf q2 \<and> added_descriptors q2 = 0 \<and> length addrs = length ls \<and>
     (\<forall>k < length ls. let h = head_at q k; response = d_addr (descriptors q ! (h + 1)) in
        addrs ! k = d_addr (descriptors q ! h) \<and>
        a_ring (avail q2) ! ((unat (a_index (avail q)) + k) mod unat (qsize q)) = of_nat h \<and>
        descriptors q2 ! h = \<lparr>d_addr = addrs ! k, d_len = ls ! k, d_flags = flag_next, d_next = of_nat (h + 1)\<rparr> \<and>
        d_addr (descriptors q2 ! (h + 1)) = response \<and> d_flags (descriptors q2 ! (h + 1)) = flag_write \<and>
        d_len (descriptors q2 ! (h + 1)) = 4096 \<and>
        (\<forall>len. 0 < len \<and> len \<le> 4096 \<longrightarrow> entry_buffers (descriptors q2) (of_nat h, len) = Some (addrs ! k, response))) \<and>
     (\<forall>i. (\<forall>k < length ls. i \<noteq> head_at q k \<and> i \<noteq> head_at q k + 1) \<longrightarrow> descriptors q2 ! i = descriptors q ! i)"
proof -
  obtain q1 q2 where r: "add_requests ls q = Some (map (\<lambda>k. d_addr (descriptors q ! head_at q k)) [0..<length ls], q1)"
    "notify_device q1 = Some ((queue_number q, notify_address q, a_index (avail q) + of_nat (length ls)), q2)"
    "queue_wf q2" "added_descriptors q2 = 0" "qsize q2 = qsize q"
    and each: "\<And>k. k < length ls \<Longrightarrow> let h = head_at q k in
        a_ring (avail q2) ! ((unat (a_index (avail q)) + k) mod unat (qsize q)) = of_nat h \<and>
        descriptors q2 ! h = (descriptors q ! h)\<lparr>d_len := ls ! k, d_flags := flag_next, d_next := of_nat (h + 1)\<rparr> \<and>
        descriptors q2 ! (h + 1) = (descriptors q ! (h + 1))\<lparr>d_flags := flag_write, d_len := 4096\<rparr>"
    and other: "\<forall>i. (\<forall>k < length ls. i \<noteq> head_at q k \<and> i \<noteq> head_at q k + 1) \<longrightarrow> descriptors q2 ! i = descriptors q ! i"
    using requests_spec [OF assms] by blast
  have "unat (qsize q) < 2 ^ 16" using u16_bound by simp
  then have chain: "entry_buffers (descriptors q2) (of_nat (head_at q k), len)
      = Some (d_addr (descriptors q ! head_at q k), d_addr (descriptors q ! Suc (head_at q k)))"
    if "k < length ls" "0 < len" "len \<le> 4096" for k len
    using chain_entry [of "head_at q k" "descriptors q2" len] each [OF that(1)] that(2,3) head_at_bound(3) [OF wf, of k]
      queue_wfD(5) [OF r(3)] r(5) by (simp add: Let_def)
  show ?thesis
    by (intro exI conjI, rule r(1), rule r(2), rule r(3), rule r(4))
       (use each chain other in \<open>auto simp: Let_def\<close>)
qed

theorem request_roundtrip_witness:
  "(let q = new_queue 0 4 0x3000 (Inr \<lparr>sf_id = 16, sf_frames = 4\<rparr>) [] in
    queue_wf q \<and> added_descriptors q = 0 \<and>
    (\<exists>q1 q2. add_requests [24, 48] q = Some ([0x10000, 0x12000], q1) \<and> notify_device q1 = Some ((0, 0x3000, 2), q2) \<and>
       entry_buffers (descriptors q2) (2, 24) = Some (0x12000, 0x13000)))"
proof -
  define q where "q = new_queue 0 4 0x3000 (Inr \<lparr>sf_id = 16, sf_frames = 4\<rparr>) []"
  have wf: "queue_wf q"
    by (auto simp: queue_wf_def q_def new_queue_def create_available_def create_used_def intro!: exI [of _ 2])
  have q: "added_descriptors q = 0" "2 * length [24, 48 :: u32] \<le> unat (qsize q)" "queue_number q = 0" "notify_address q = 0x3000" "a_index (avail q) = 0"
    "head_at q 0 = 0" "head_at q 1 = 2"
    "d_addr (descriptors q ! 0) = 0x10000" "d_addr (descriptors q ! 2) = 0x12000" "d_addr (descriptors q ! 3) = 0x13000"
    by (simp_all add: q_def new_queue_def head_at_def init_descriptor_def create_available_def bytes_per_frame_def)
  obtain addrs q1 q2 where r: "add_requests [24, 48] q = Some (addrs, q1)" "notify_device q1 = Some ((0, 0x3000, 2), q2)" "length addrs = 2"
    "addrs ! 0 = 0x10000" "addrs ! 1 = 0x12000" "entry_buffers (descriptors q2) (2, 24) = Some (addrs ! 1, 0x13000)"
  proof -
    obtain addrs q1 q2 where g: "add_requests [24, 48] q = Some (addrs, q1)"
        "notify_device q1 = Some ((queue_number q, notify_address q, a_index (avail q) + of_nat (length [24, 48 :: u32])), q2)"
        "length addrs = length [24, 48 :: u32]"
      and e: "\<forall>k < length [24, 48 :: u32]. let h = head_at q k; response = d_addr (descriptors q ! (h + 1)) in
        addrs ! k = d_addr (descriptors q ! h) \<and>
        a_ring (avail q2) ! ((unat (a_index (avail q)) + k) mod unat (qsize q)) = of_nat h \<and>
        descriptors q2 ! h = \<lparr>d_addr = addrs ! k, d_len = [24, 48] ! k, d_flags = flag_next, d_next = of_nat (h + 1)\<rparr> \<and>
        d_addr (descriptors q2 ! (h + 1)) = response \<and> d_flags (descriptors q2 ! (h + 1)) = flag_write \<and>
        d_len (descriptors q2 ! (h + 1)) = 4096 \<and>
        (\<forall>len. 0 < len \<and> len \<le> 4096 \<longrightarrow> entry_buffers (descriptors q2) (of_nat h, len) = Some (addrs ! k, response))"
      using request_roundtrip [OF wf q(1,2)] by blast
    have "entry_buffers (descriptors q2) (2, 24) = Some (addrs ! 1, 0x13000)" "addrs ! 0 = 0x10000" "addrs ! 1 = 0x12000"
      using e [rule_format, of 0] e [rule_format, of 1] q by (simp_all add: Let_def)
    then show thesis using that [of addrs q1 q2] g q by simp
  qed
  have "addrs = [0x10000, 0x12000]" using r(3-5) by (auto simp: numeral_2_eq_2 length_Suc_conv)
  then show ?thesis using wf q(1) r unfolding q_def [symmetric] Let_def by auto
qed

section \<open>Completions\<close>

text \<open>The results of n calls of \<^verbatim>\<open>read_one_buffer\<close>.\<close>

fun read_buffers :: "nat \<Rightarrow> queue \<Rightarrow> ((u64 \<times> u64) option list \<times> queue) option" where
  "read_buffers 0 q = Some ([], q)"
| "read_buffers (Suc n) q = do { (r, q) \<leftarrow> read_one_buffer q; (rs, q) \<leftarrow> read_buffers n q; Some (r # rs, q) }"

text \<open>Every entry of the used ring is one the driver can follow.\<close>

definition entries_ok :: "queue \<Rightarrow> bool" where
  "entries_ok q \<longleftrightarrow> (\<forall>e \<in> set (u_ring (used q)). entry_buffers (descriptors q) e \<noteq> None)"

lemma read_buffers_spec:
  assumes "queue_wf q" "entries_ok q" "\<And>k. k < n \<Longrightarrow> last_used q + of_nat k \<noteq> ucast (u_index (used q))"
  shows "read_buffers n q =
    Some (map (\<lambda>k. entry_buffers (descriptors q) (u_ring (used q) ! ((unat (last_used q) + k) mod unat (qsize q)))) [0..<n],
          q\<lparr>last_used := last_used q + of_nat n\<rparr>)"
  using assms
proof (induction n arbitrary: q)
  case (Suc n)
  let ?e = "u_ring (used q) ! (unat (last_used q) mod unat (qsize q))"
  define q1 where "q1 = q\<lparr>last_used := last_used q + 1\<rparr>"
  note w = queue_wfD [OF Suc.prems(1)]
  have "?e \<in> set (u_ring (used q))" using w(1,7) by simp
  then obtain b where b: "entry_buffers (descriptors q) ?e = Some b"
    using Suc.prems(2) unfolding entries_ok_def by blast
  have "qsize q \<noteq> 0" using w(1) by auto
  then have read: "read_one_buffer q = Some (Some b, q1)"
    using Suc.prems(3) [of 0] b by (simp add: read_one_buffer_def q1_def Let_def)
  have q1: "queue_wf q1" "entries_ok q1" using Suc.prems(1,2) by (simp_all add: q1_def queue_wf_def entries_ok_def)
  have next1: "last_used q1 + of_nat k \<noteq> ucast (u_index (used q1))" if "k < n" for k
    using Suc.prems(3) [of "Suc k"] that by (simp add: q1_def algebra_simps)
  have pos: "(unat (last_used q1) + k) mod unat (qsize q) = (unat (last_used q) + Suc k) mod unat (qsize q)" for k
    using unat_add_mod [of "unat (qsize q)" "last_used q" 1] w(4)
      mod_add_left_eq [of "unat (last_used q + 1)" "unat (qsize q)" k] mod_add_left_eq [of "unat (last_used q) + 1" "unat (qsize q)" k]
    by (simp add: q1_def)
  have f: "descriptors q1 = descriptors q" "used q1 = used q" "qsize q1 = qsize q" by (simp_all add: q1_def)
  note IH = Suc.IH [OF q1 next1, unfolded f pos]
  show ?case using read IH b
    by (simp add: upt_conv_Cons map_Suc_upt [symmetric] q1_def algebra_simps del: upt_Suc)
qed simp

lemma read_buffers_snoc:
  "read_buffers (n + 1) q = do { (rs, q) \<leftarrow> read_buffers n q; (r, q) \<leftarrow> read_one_buffer q; Some (rs @ [r], q) }"
proof (induction n arbitrary: q)
  case (Suc n)
  then show ?case by (cases "read_one_buffer q") (auto simp: split: option.split bind_splits)
qed (auto split: bind_splits)

lemma reached_index:
  "(w :: u32) + of_nat k = ucast (i :: u16) \<longleftrightarrow> (unat w + k) mod 2 ^ 32 = unat i"
proof -
  have "unat (ucast i :: u32) = unat i"
    using u16_bound [of i] by (simp add: unsigned_ucast_eq take_bit_nat_eq_self)
  then show ?thesis
    by (simp add: word_unat_eq_iff unat_word_ariths unat_of_nat take_bit_eq_mod mod_add_right_eq)
qed

text \<open>
  C27. Completions are delivered in the order the device put them into the used ring, as long as fewer than 65536 have
  been read: with n completions outstanding the next n calls of \<^verbatim>\<open>read_one_buffer\<close> return the buffers of those n
  entries, and the call after them returns false.
\<close>

theorem completions_in_order:
  assumes "queue_wf q" "entries_ok q" "unat (last_used q) + n = unat (u_index (used q))"
  shows "read_buffers (n + 1) q =
    Some (map (\<lambda>k. entry_buffers (descriptors q) (u_ring (used q) ! ((unat (last_used q) + k) mod unat (qsize q)))) [0..<n] @ [None],
          q\<lparr>last_used := ucast (u_index (used q))\<rparr>)"
proof -
  have ne: "last_used q + of_nat k \<noteq> ucast (u_index (used q))" if "k < n" for k
    using assms(3) that u16_bound [of "u_index (used q)"] by (simp add: reached_index)
  have last: "last_used q + of_nat n = ucast (u_index (used q))"
    using assms(3) u16_bound [of "u_index (used q)"] by (simp add: reached_index)
  show ?thesis
    using read_buffers_snoc [of n q] read_buffers_spec [OF assms(1,2) ne] last by (simp add: read_one_buffer_def)
qed

theorem completions_in_order_witness:
  "(let q = (new_queue 0 2 0x3000 (Inr \<lparr>sf_id = 16, sf_frames = 2\<rparr>) [])\<lparr>used := \<lparr>u_flags = 0, u_index = 1, u_ring = [(5, 0), (0, 0)]\<rparr>\<rparr> in
    queue_wf q \<and> entries_ok q \<and> unat (last_used q) + 1 = unat (u_index (used q)) \<and>
    read_buffers 2 q = Some ([Some (0, 0), None], q\<lparr>last_used := 1\<rparr>))"
proof -
  define q where "q = (new_queue 0 2 0x3000 (Inr \<lparr>sf_id = 16, sf_frames = 2\<rparr>) [])\<lparr>used := \<lparr>u_flags = 0, u_index = 1, u_ring = [(5, 0), (0, 0)]\<rparr>\<rparr>"
  have wf: "queue_wf q"
    by (auto simp: queue_wf_def q_def new_queue_def create_available_def intro!: exI [of _ 1])
  have ok: "entries_ok q" "unat (last_used q) + 1 = unat (u_index (used q))"
    by (simp_all add: entries_ok_def q_def new_queue_def entry_buffers_def)
  have "read_buffers 2 q = Some ([Some (0, 0), None], q\<lparr>last_used := 1\<rparr>)"
    using completions_in_order [OF wf ok] by (simp add: q_def new_queue_def entry_buffers_def numeral_2_eq_2)
  then show ?thesis using wf ok unfolding q_def [symmetric] Let_def by blast
qed

text \<open>
  C38. After 65536 completions the used ring never looks empty again. \<^verbatim>\<open>last_used\<close> has 32 bits and the index of the ring
  has 16, so once \<^verbatim>\<open>last_used\<close> has reached 65536 every call of \<^verbatim>\<open>read_one_buffer\<close> returns an entry, completed or not,
  until \<^verbatim>\<open>last_used\<close> itself wraps around: up to 4294901760 stale entries in a row.
\<close>

theorem used_index_wraps:
  assumes "queue_wf q" "entries_ok q" "65536 \<le> unat (last_used q)" "unat (last_used q) + n \<le> 2 ^ 32"
  shows "\<exists>rs. read_buffers n q = Some (rs, q\<lparr>last_used := last_used q + of_nat n\<rparr>) \<and> length rs = n \<and> None \<notin> set rs"
proof -
  have ne: "last_used q + of_nat k \<noteq> ucast (u_index (used q))" if "k < n" for k
    using assms(3,4) that u16_bound [of "u_index (used q)"] by (simp add: reached_index)
  have "entry_buffers (descriptors q) (u_ring (used q) ! ((unat (last_used q) + k) mod unat (qsize q))) \<noteq> None" for k
    using assms(2) queue_wfD(1,7) [OF assms(1)] by (auto simp: entries_ok_def)
  then have "None \<notin> set (map (\<lambda>k. entry_buffers (descriptors q) (u_ring (used q) ! ((unat (last_used q) + k) mod unat (qsize q)))) [0..<n])"
    by (metis (no_types, lifting) ex_map_conv)
  then show ?thesis using read_buffers_spec [OF assms(1,2) ne] by (metis (no_types, lifting) diff_zero length_map length_upt)
qed

theorem used_index_wraps_witness:
  "(let q = (new_queue 0 2 0x3000 (Inr \<lparr>sf_id = 16, sf_frames = 2\<rparr>) [])\<lparr>used := \<lparr>u_flags = 0, u_index = 0, u_ring = [(0, 0), (0, 0)]\<rparr>, last_used := 65536\<rparr> in
    queue_wf q \<and> entries_ok q \<and>
    (\<exists>rs. read_buffers 1000000 q = Some (rs, q\<lparr>last_used := 1065536\<rparr>) \<and> length rs = 1000000 \<and> None \<notin> set rs))"
proof -
  define q where "q = (new_queue 0 2 0x3000 (Inr \<lparr>sf_id = 16, sf_frames = 2\<rparr>) [])\<lparr>used := \<lparr>u_flags = 0, u_index = 0, u_ring = [(0, 0), (0, 0)]\<rparr>, last_used := 65536\<rparr>"
  have wf: "queue_wf q"
    by (auto simp: queue_wf_def q_def new_queue_def create_available_def intro!: exI [of _ 1])
  have ok: "entries_ok q" "last_used q = 65536" by (simp_all add: entries_ok_def q_def new_queue_def entry_buffers_def)
  have "\<exists>rs. read_buffers 1000000 q = Some (rs, q\<lparr>last_used := last_used q + of_nat 1000000\<rparr>) \<and> length rs = 1000000 \<and> None \<notin> set rs"
    by (rule used_index_wraps [OF wf ok(1)]) (simp_all add: ok(2))
  then show ?thesis using wf ok unfolding q_def [symmetric] Let_def by simp
qed

end
