(* ===== verification/Virtio_Gpu.thy ===== *)
theory Virtio_Gpu
  imports Byte_Layout Pci Virtio_Queue
begin

text \<open>
  The virtio graphics driver, \<^verbatim>\<open>src/virtio/gpu.hpp\<close>, with the configuration structures of \<^verbatim>\<open>src/virtio/pci.hpp\<close> and
  \<^verbatim>\<open>src/virtio/flags.hpp\<close> and the coroutine of \<^verbatim>\<open>src/util/coroutine.hpp\<close> its worker is. Requests and responses are bytes
  of memory, laid out as the packed structures of the source. The worker coroutine is the state machine \<open>phase\<close>: one
  call of \<open>resume\<close> runs it from one \<^verbatim>\<open>co_yield\<close> to the next. What the device answers (features, status, queue sizes) is
  the parameter of \<open>gpu_initialize\<close>. \<open>None\<close> is undefined behaviour, a panic or a loop that does not end.
\<close>

section \<open>Structures\<close>

definition version1 :: u64 where "version1 = push_bit 32 1"
definition status_acknowledge :: u8 where "status_acknowledge = 1"
definition status_driver :: u8 where "status_driver = 2"
definition status_features_ok :: u8 where "status_features_ok = 8"
definition status_driver_ok :: u8 where "status_driver_ok = 4"

datatype control =
    GetDisplayInfo | ResourceCreate2D | ResourceUnref | SetScanout | ResourceFlush | TransferToHost2D
  | ResourceAttachBacking | ResourceDetachBacking | GetCapsetInfo | GetCapset | GetEDID
  | UpdateCursor | MoveCursor
  | OkNodata | OkDisplayInfo | OkCapsetInfo | OkCapset | OkEDID
  | ErrorUnspec | ErrorOutOfMemory | ErrorInvalidScanoutID | ErrorInvalidResourceID | ErrorInvalidContextID | ErrorInvalidParameter

primrec control_code :: "control \<Rightarrow> nat" where
  "control_code GetDisplayInfo = 0x0100"
| "control_code ResourceCreate2D = 0x0101"
| "control_code ResourceUnref = 0x0102"
| "control_code SetScanout = 0x0103"
| "control_code ResourceFlush = 0x0104"
| "control_code TransferToHost2D = 0x0105"
| "control_code ResourceAttachBacking = 0x0106"
| "control_code ResourceDetachBacking = 0x0107"
| "control_code GetCapsetInfo = 0x0108"
| "control_code GetCapset = 0x0109"
| "control_code GetEDID = 0x010A"
| "control_code UpdateCursor = 0x0300"
| "control_code MoveCursor = 0x0301"
| "control_code OkNodata = 0x1100"
| "control_code OkDisplayInfo = 0x1101"
| "control_code OkCapsetInfo = 0x1102"
| "control_code OkCapset = 0x1103"
| "control_code OkEDID = 0x1104"
| "control_code ErrorUnspec = 0x1200"
| "control_code ErrorOutOfMemory = 0x1201"
| "control_code ErrorInvalidScanoutID = 0x1202"
| "control_code ErrorInvalidResourceID = 0x1203"
| "control_code ErrorInvalidContextID = 0x1204"
| "control_code ErrorInvalidParameter = 0x1205"

definition ControlHeader_layout :: layout where
  "ControlHeader_layout = [(''type'', 4), (''flags'', 4), (''fence_id'', 8), (''context_id'', 4), (''padding'', 4)]"

definition flag_fence :: nat where "flag_fence = 1"

definition Rect_layout :: layout where
  "Rect_layout = [(''x'', 4), (''y'', 4), (''width'', 4), (''height'', 4)]"

definition info_size :: nat where "info_size = 16"

definition Mode_layout :: layout where
  "Mode_layout = Rect_layout @ [(''enabled'', 4), (''flags'', 4)]"

definition format_B8G8R8X8Unorm :: nat where "format_B8G8R8X8Unorm = 2"

definition ResourceCreate2DRequest_layout :: layout where
  "ResourceCreate2DRequest_layout = [(''resource_id'', 4), (''format'', 4), (''width'', 4), (''height'', 4)]"

definition SetScanoutRequest_layout :: layout where
  "SetScanoutRequest_layout = Rect_layout @ [(''scanout_id'', 4), (''resource_id'', 4)]"

definition ResourceFlushRequest_layout :: layout where
  "ResourceFlushRequest_layout = Rect_layout @ [(''resource_id'', 4), (''padding'', 4)]"

definition TransferToHost2DRequest_layout :: layout where
  "TransferToHost2DRequest_layout = Rect_layout @ [(''offset'', 8), (''resource_id'', 4), (''padding'', 4)]"

definition ResourceAttachBackingRequest_layout :: layout where
  "ResourceAttachBackingRequest_layout = [(''resource_id'', 4), (''num_entries'', 4)]"

definition MemEntry_layout :: layout where
  "MemEntry_layout = [(''address'', 8), (''length'', 4), (''padding'', 4)]"

text \<open>The bytes of a packed structure whose members have the given values.\<close>

fun struct_bytes :: "layout \<Rightarrow> nat list \<Rightarrow> u8 list" where
  "struct_bytes ((f, n) # l) (v # vs) = le_bytes n v @ struct_bytes l vs"
| "struct_bytes l vs = []"

definition header_bytes :: "control \<Rightarrow> nat \<Rightarrow> nat \<Rightarrow> u8 list" where
  "header_bytes type flags fence_id = struct_bytes ControlHeader_layout [control_code type, flags, fence_id, 0, 0]"

section \<open>Memory\<close>

type_synonym mem = "u64 \<Rightarrow> u8"

definition store :: "u64 \<Rightarrow> u8 list \<Rightarrow> mem \<Rightarrow> mem" where
  "store a bs m = (\<lambda>x. if unat (x - a) < length bs then bs ! unat (x - a) else m x)"

definition load :: "mem \<Rightarrow> u64 \<Rightarrow> nat \<Rightarrow> u8 list" where
  "load m a n = map (\<lambda>i. m (a + of_nat i)) [0..<n]"

definition header_num :: "mem \<Rightarrow> u64 \<Rightarrow> string \<Rightarrow> nat" where
  "header_num m a f = get_num ControlHeader_layout f (load m a (struct_size ControlHeader_layout))"

definition has_type :: "mem \<Rightarrow> u64 \<Rightarrow> control \<Rightarrow> bool" where
  "has_type m a t \<longleftrightarrow> header_num m a ''type'' = control_code t"

section \<open>The device object\<close>

text \<open>Where the worker is suspended: before the answer to the named request.\<close>

datatype phase = AtDisplayInfo | AtCreate nat | AtAttach nat | AtLoop | Finished

text \<open>
  \<^verbatim>\<open>GPUDevice\<close>, with the parts of the rest of the system it acts on: memory, the frame allocator, the values it wrote
  to the notification registers, the number of \<^verbatim>\<open>VirtIOGPUNewDevice\<close> messages it posted and of notifications of the
  event of the frame buffer.
\<close>

record gpu =
  control_queue :: queue
  cursor_queue :: queue
  display_size :: "u32 \<times> u32"
  framebuffer :: "smart_frame_id list"
  framebuffer_frames :: nat
  worker :: phase
  sync_done :: u32
  sync_done_event :: bool
  memory :: mem
  frames :: bmm
  notified :: "(u16 \<times> u64 \<times> u16) list"
  new_device_messages :: nat
  events_notified :: nat

text \<open>\<^verbatim>\<open>queue_data\<close>, for the bytes of the header and of the payload (none in the first overload).\<close>

definition queue_data :: "gpu \<Rightarrow> u8 list \<Rightarrow> u8 list \<Rightarrow> gpu option" where
  "queue_data s header payload =
     do {
       (b, q) \<leftarrow> get_next_descriptor_buffer (of_nat (length header + length payload)) (control_queue s);
       Some (s\<lparr>control_queue := q, memory := store b (header @ payload) (memory s)\<rparr>)
     }"

definition notify_control :: "gpu \<Rightarrow> gpu option" where
  "notify_control s =
     do { (w, q) \<leftarrow> notify_device (control_queue s); Some (s\<lparr>control_queue := q, notified := notified s @ [w]\<rparr>) }"

definition co_return :: "error_code \<Rightarrow> gpu \<Rightarrow> (error_code \<times> gpu) option" where
  "co_return e s = Some (e, s\<lparr>worker := Finished\<rparr>)"

definition co_yield :: "phase \<Rightarrow> gpu \<Rightarrow> (error_code \<times> gpu) option" where
  "co_yield p s = Some (Success, s\<lparr>worker := p\<rparr>)"

definition mode_num :: "mem \<Rightarrow> u64 \<Rightarrow> nat \<Rightarrow> string \<Rightarrow> nat" where
  "mode_num m response i f =
     get_num Mode_layout f (load m (response + of_nat (struct_size ControlHeader_layout + i * struct_size Mode_layout)) (struct_size Mode_layout))"

definition create_request :: "nat \<Rightarrow> u32 \<times> u32 \<Rightarrow> u8 list" where
  "create_request resource_id dims =
     struct_bytes ResourceCreate2DRequest_layout [resource_id, format_B8G8R8X8Unorm, unat (fst dims), unat (snd dims)]"

definition worker_display_info :: "gpu \<Rightarrow> u64 \<Rightarrow> u64 \<Rightarrow> (error_code \<times> gpu) option" where
  "worker_display_info s request response =
     (if \<not> has_type (memory s) request GetDisplayInfo then co_return VirtIOOperationOutOfOrder s
      else if \<not> has_type (memory s) response OkDisplayInfo then co_return VirtIODisplayInfo s
      else case find (\<lambda>i. mode_num (memory s) response i ''enabled'' \<noteq> 0) [0..<info_size] of
        None \<Rightarrow> co_return VirtIODisplayInfo s
      | Some i \<Rightarrow> do {
          let dims = (of_nat (mode_num (memory s) response i ''width''), of_nat (mode_num (memory s) response i ''height''));
          s \<leftarrow> queue_data (s\<lparr>display_size := dims\<rparr>) (header_bytes ResourceCreate2D 0 0) (create_request 1 dims);
          s \<leftarrow> queue_data s (header_bytes ResourceCreate2D 0 0) (create_request 2 dims);
          s \<leftarrow> notify_control s;
          co_yield (AtCreate 0) s })"

definition fb_bytes :: "gpu \<Rightarrow> u32" where
  "fb_bytes s = fst (display_size s) * snd (display_size s) * 4"

definition attach_request :: "nat \<Rightarrow> nat \<Rightarrow> u32 \<Rightarrow> u8 list" where
  "attach_request resource_id frame bytes =
     struct_bytes ResourceAttachBackingRequest_layout [resource_id, 1] @
     struct_bytes MemEntry_layout [frame * bytes_per_frame, unat bytes, 0]"

definition worker_create :: "nat \<Rightarrow> gpu \<Rightarrow> u64 \<Rightarrow> u64 \<Rightarrow> (error_code \<times> gpu) option" where
  "worker_create i s request response =
     (if \<not> has_type (memory s) request ResourceCreate2D then co_return VirtIOOperationOutOfOrder s
      else if \<not> has_type (memory s) response OkNodata then co_return VirtIOCreateResource s
      else do {
        let resource_id = get_num ResourceCreate2DRequest_layout ''resource_id''
              (load (memory s) (request + of_nat (struct_size ControlHeader_layout)) (struct_size ResourceCreate2DRequest_layout));
        let n = (unat (fb_bytes s) + bytes_per_frame - 1) div bytes_per_frame;
        (r, m) \<leftarrow> allocate (frames s) n;
        case r of
          Inl e \<Rightarrow> co_return NoEnoughMemory (s\<lparr>frames := m\<rparr>)
        | Inr f \<Rightarrow>
            if resource_id < 1 \<or> resource_id > 2 then None
            else do {
              (f, moved, m) \<leftarrow> smart_move_assign (framebuffer s ! (resource_id - 1)) f m;
              let s = s\<lparr>frames := m, framebuffer := (framebuffer s)[resource_id - 1 := f], framebuffer_frames := n\<rparr>;
              s \<leftarrow> queue_data s (header_bytes ResourceAttachBacking 0 0) (attach_request resource_id (sf_id f) (fb_bytes s));
              s \<leftarrow> notify_control s;
              co_yield (if i = 0 then AtCreate 1 else AtAttach 0) s }
      })"

definition worker_attach :: "nat \<Rightarrow> gpu \<Rightarrow> u64 \<Rightarrow> u64 \<Rightarrow> (error_code \<times> gpu) option" where
  "worker_attach i s request response =
     (if \<not> has_type (memory s) request ResourceAttachBacking then co_return VirtIOOperationOutOfOrder s
      else if \<not> has_type (memory s) response OkNodata then co_return VirtIOAttachBacking s
      else if i = 0 then co_yield (AtAttach 1) s
      else co_yield AtLoop (s\<lparr>new_device_messages := new_device_messages s + 1\<rparr>))"

definition worker_loop :: "gpu \<Rightarrow> u64 \<Rightarrow> u64 \<Rightarrow> (error_code \<times> gpu) option" where
  "worker_loop s request response =
     (if has_type (memory s) request SetScanout \<or> has_type (memory s) request TransferToHost2D \<or> has_type (memory s) request ResourceFlush
      then if \<not> has_type (memory s) response OkNodata then co_return VirtIOProcessEvent s else co_yield AtLoop s
      else co_return VirtIOUnknownEvent s)"

text \<open>\<^verbatim>\<open>CoRoutine::resume\<close>; resuming a coroutine that is done is undefined.\<close>

definition resume :: "gpu \<Rightarrow> u64 \<Rightarrow> u64 \<Rightarrow> (error_code \<times> gpu) option" where
  "resume s request response =
     (case worker s of
        AtDisplayInfo \<Rightarrow> worker_display_info s request response
      | AtCreate i \<Rightarrow> worker_create i s request response
      | AtAttach i \<Rightarrow> worker_attach i s request response
      | AtLoop \<Rightarrow> worker_loop s request response
      | Finished \<Rightarrow> None)"

text \<open>
  The body of the loop of \<^verbatim>\<open>process_control_queue\<close> for one completion: the error the loop returns with, or none, and it
  goes on.
\<close>

definition handle_completion :: "gpu \<Rightarrow> u64 \<Rightarrow> u64 \<Rightarrow> (error_code option \<times> gpu) option" where
  "handle_completion s request response =
     (if request = 0 \<or> response = 0 then Some (None, s)
      else do {
        (e, s) \<leftarrow> resume s request response;
        if e \<noteq> Success then Some (Some e, s)
        else if worker s = Finished then Some (Some VirtIOWorkerExit, s)
        else if header_num (memory s) response ''flags'' AND flag_fence \<noteq> 0
        then Some (None, s\<lparr>sync_done := 1, events_notified := (if sync_done_event s then events_notified s + 1 else events_notified s)\<rparr>)
        else Some (None, s) })"

partial_function (option) process_control_queue :: "gpu \<Rightarrow> (error_code \<times> gpu) option" where
  "process_control_queue s =
     do {
       (r, q) \<leftarrow> read_one_buffer (control_queue s);
       case r of
         None \<Rightarrow> Some (Success, s\<lparr>control_queue := q\<rparr>)
       | Some (request, response) \<Rightarrow> do {
           (x, s) \<leftarrow> handle_completion (s\<lparr>control_queue := q\<rparr>) request response;
           case x of Some e \<Rightarrow> Some (e, s) | None \<Rightarrow> process_control_queue s }
     }"

definition new_gpu_device :: "queue \<Rightarrow> queue \<Rightarrow> mem \<Rightarrow> bmm \<Rightarrow> gpu option" where
  "new_gpu_device control cursor m fr =
     (let null = \<lparr>sf_id = nullframe, sf_frames = 0\<rparr>;
          s = \<lparr>control_queue = control, cursor_queue = cursor, display_size = (1024, 768), framebuffer = [null, null],
               framebuffer_frames = 0, worker = AtDisplayInfo, sync_done = 1, sync_done_event = False, memory = m, frames = fr,
               notified = [], new_device_messages = 0, events_notified = 0\<rparr> in
      do { s \<leftarrow> queue_data s (header_bytes GetDisplayInfo 0 0) []; notify_control s })"

section \<open>The frame buffer\<close>

record gpu_framebuffer =
  fb_buffers :: "nat \<times> nat"
  fb_size :: "nat \<times> nat"
  fb_flip :: bool
  fb_data :: u64

definition buffer_address :: "nat \<times> nat \<Rightarrow> bool \<Rightarrow> u64" where
  "buffer_address bufs flip = of_nat ((if flip then snd bufs else fst bufs) * bytes_per_frame)"

definition create_devfs_framebuffer :: "gpu \<Rightarrow> gpu_framebuffer \<times> gpu" where
  "create_devfs_framebuffer s =
     (let bufs = (sf_id (framebuffer s ! 0), sf_id (framebuffer s ! 1)) in
      (\<lparr>fb_buffers = bufs, fb_size = (unat (fst (display_size s)), unat (snd (display_size s))), fb_flip = False,
        fb_data = buffer_address bufs False\<rparr>, s\<lparr>sync_done_event := True\<rparr>))"

definition full_rect :: "gpu_framebuffer \<Rightarrow> nat list" where
  "full_rect fb = [0, 0, fst (fb_size fb) mod 2 ^ 32, snd (fb_size fb) mod 2 ^ 32]"

text \<open>
  \<^verbatim>\<open>swap\<close> in two parts: up to the notification of the device, and after it. Between the two another processor can run
  \<open>process_control_queue\<close>.
\<close>

definition swap_submit :: "gpu_framebuffer \<Rightarrow> gpu \<Rightarrow> gpu option" where
  "swap_submit fb s =
     do {
       let resource_id = (if \<not> fb_flip fb then 1 else 2);
       s \<leftarrow> queue_data s (header_bytes TransferToHost2D 0 0)
             (struct_bytes TransferToHost2DRequest_layout (full_rect fb @ [0, resource_id, 0]));
       s \<leftarrow> queue_data s (header_bytes ResourceFlush 0 0)
             (struct_bytes ResourceFlushRequest_layout (full_rect fb @ [resource_id, 0]));
       s \<leftarrow> queue_data s (header_bytes SetScanout flag_fence 1)
             (struct_bytes SetScanoutRequest_layout (full_rect fb @ [0, resource_id]));
       notify_control s
     }"

definition swap_commit :: "gpu_framebuffer \<Rightarrow> gpu \<Rightarrow> gpu_framebuffer \<times> gpu" where
  "swap_commit fb s =
     (fb\<lparr>fb_flip := \<not> fb_flip fb, fb_data := buffer_address (fb_buffers fb) (\<not> fb_flip fb)\<rparr>, s\<lparr>sync_done := 0\<rparr>)"

definition swap :: "gpu_framebuffer \<Rightarrow> gpu \<Rightarrow> (gpu_framebuffer \<times> gpu) option" where
  "swap fb s =
     (if sync_done s = 0 then Some (fb, s)
      else do { s \<leftarrow> swap_submit fb s; Some (swap_commit fb s) })"

section \<open>Initialisation\<close>

definition Capability_bits :: layout where
  "Capability_bits = [(''cap_id'', 8), (''next_ptr'', 8), (''cap_len'', 8), (''config_type'', 8)]"

record capability =
  cap_header :: u32
  cap_body :: u32
  cap_offset :: u32
  cap_length :: u32

definition read_capability :: "confspace \<Rightarrow> pci_device \<Rightarrow> u8 \<Rightarrow> capability" where
  "read_capability c d addr =
     \<lparr>cap_header = read_register c d addr, cap_body = read_register c d (addr + 4), cap_offset = read_register c d (addr + 8),
      cap_length = read_register c d (addr + 12)\<rparr>"

definition read_additional_notification_capability :: "confspace \<Rightarrow> pci_device \<Rightarrow> u8 \<Rightarrow> u32" where
  "read_additional_notification_capability c d addr = read_register c d (addr + 16)"

definition get_config_address :: "confspace \<Rightarrow> pci_device \<Rightarrow> capability \<Rightarrow> u64" where
  "get_config_address c d cap =
     (case read_bar c d (ucast (cap_body cap AND 0xFF)) of
        Inl e \<Rightarrow> 0
      | Inr bar \<Rightarrow> (bar AND NOT 0x0F) + ucast (cap_offset cap))"

record found_config =
  f_common :: u64
  f_notify_base :: u64
  f_notify_off_multiplier :: u32
  f_device :: u64
  f_isr :: u64

definition note_capability :: "confspace \<Rightarrow> pci_device \<Rightarrow> u32 \<Rightarrow> found_config \<Rightarrow> found_config" where
  "note_capability c d cap_addr f =
     (let cap = read_capability c d (ucast cap_addr);
          t = get_bf Capability_bits ''config_type'' (unat (cap_header cap)); a = get_config_address c d cap in
      if t = 1 then f\<lparr>f_common := a\<rparr>
      else if t = 2 then f\<lparr>f_notify_off_multiplier := read_additional_notification_capability c d (ucast cap_addr), f_notify_base := a\<rparr>
      else if t = 4 then f\<lparr>f_device := a\<rparr>
      else if t = 3 then f\<lparr>f_isr := a\<rparr>
      else f)"

partial_function (option) find_configs :: "confspace \<Rightarrow> pci_device \<Rightarrow> u32 \<Rightarrow> found_config \<Rightarrow> found_config option" where
  "find_configs c d cap_addr f =
     (if cap_addr = 0 then Some f
      else if cap_id c d cap_addr \<noteq> 0x09 then find_configs c d (next_ptr c d cap_addr) f
      else find_configs c d (next_ptr c d cap_addr) (note_capability c d cap_addr f))"

text \<open>
  What the device shows in its common configuration: the feature words by the selection, the status it reports after
  one has been written, and the size and notification offset of the selected queue.
\<close>

record device_answers =
  device_feature :: "u32 \<Rightarrow> u32"
  device_status :: "u8 \<Rightarrow> u8"
  queue_size :: "u16 \<Rightarrow> u16"
  queue_notify_off :: "u16 \<Rightarrow> u16"

definition read_device_features :: "device_answers \<Rightarrow> u64 \<times> config_write list" where
  "read_device_features dev =
     (ucast (device_feature dev 0) OR push_bit 32 (ucast (device_feature dev 1)), [DeviceFeatureSelect 0, DeviceFeatureSelect 1])"

definition write_driver_features :: "u64 \<Rightarrow> config_write list" where
  "write_driver_features f =
     [DriverFeatureSelect 0, DriverFeature (ucast (f AND 0xFFFFFFFF)), DriverFeatureSelect 1, DriverFeature (ucast (drop_bit 32 f))]"

text \<open>The inner loop of \<^verbatim>\<open>get_queue_number\<close>: the first queue from i on that has a size, and the selections made.\<close>

function find_queue :: "(u16 \<Rightarrow> u16) \<Rightarrow> nat \<Rightarrow> nat option \<times> config_write list" where
  "find_queue sizes i =
     (if i < 65535 then
        if sizes (of_nat i) \<noteq> 0 then (Some i, [QueueSelect (of_nat i)])
        else let (r, ws) = find_queue sizes (Suc i) in (r, QueueSelect (of_nat i) # ws)
      else (None, []))"
  by pat_completeness auto
termination by (relation "measure (\<lambda>(sizes, i). 65535 - i)") auto

declare find_queue.simps [simp del]

fun get_queue_number :: "(u16 \<Rightarrow> u16) \<Rightarrow> nat \<Rightarrow> nat \<Rightarrow> u16 list \<times> config_write list" where
  "get_queue_number sizes 0 i = ([], [])"
| "get_queue_number sizes (Suc len) i =
     (case find_queue sizes i of
        (None, ws) \<Rightarrow> (replicate (Suc len) 0, ws)
      | (Some j, ws) \<Rightarrow> let (ns, ws') = get_queue_number sizes len (Suc j) in (of_nat j # ns, ws @ ws'))"

text \<open>\<^verbatim>\<open>notify_base\<close> points to 16-bit words: the pointer arithmetic doubles the offset.\<close>

definition queue_notify_address :: "device_answers \<Rightarrow> found_config \<Rightarrow> u16 \<Rightarrow> u64" where
  "queue_notify_address dev f number =
     f_notify_base f + 2 * ucast (ucast (queue_notify_off dev number) * f_notify_off_multiplier f)"

text \<open>Everything the initialisation writes: the configuration, entries of the MSI-X table, PCI registers.\<close>

datatype init_action = Config config_write | TableStore u64 u32 | PciWrite u32 u32

text \<open>
  A queue is created and given to the device. \<open>ptrs\<close> are the addresses of its three parts and \<open>garbage\<close> the descriptors
  as \<^verbatim>\<open>new\<close> leaves them.
\<close>

definition setup_queue ::
  "confspace \<Rightarrow> pci_device \<Rightarrow> device_answers \<Rightarrow> found_config \<Rightarrow> u8 \<Rightarrow> u8 \<Rightarrow> u32 \<Rightarrow> u16 \<Rightarrow> u64 \<times> u64 \<times> u64 \<Rightarrow> descriptor list \<Rightarrow> bmm \<Rightarrow>
     (error_code \<times> queue \<times> bmm \<times> init_action list) option" where
  "setup_queue c d dev f lapic_id vector entry number ptrs garbage m =
     do {
       (q, m) \<leftarrow> construct_queue number (queue_size dev number) (queue_notify_address dev f number) garbage m;
       (e, ts, ps) \<leftarrow> configure_msix_fixed_destination c d lapic_id Level Fixed vector entry;
       let ws = Config (QueueSelect number) # map (\<lambda>(a, v). TableStore a v) ts @ map (\<lambda>(a, v). PciWrite a v) ps;
       if is_error e then Some (e, q, m, ws)
       else Some (Success, q, m, ws @ map Config (set_queue_to_config number ptrs (Some entry)))
     }"

definition gpu_initialize ::
  "confspace \<Rightarrow> pci_device \<Rightarrow> device_answers \<Rightarrow> u8 \<Rightarrow> (nat \<Rightarrow> u64 \<times> u64 \<times> u64) \<Rightarrow> (nat \<Rightarrow> descriptor list) \<Rightarrow> mem \<Rightarrow> bmm \<Rightarrow>
     (gpu result \<times> bmm \<times> init_action list) option" where
  "gpu_initialize c d dev lapic_id ptrs garbage memo m =
     do {
       f \<leftarrow> find_configs c d (first_capability c d)
             \<lparr>f_common = 0, f_notify_base = 0, f_notify_off_multiplier = 0, f_device = 0, f_isr = 0\<rparr>;
       if f_common f = 0 \<or> f_notify_base f = 0 \<or> f_device f = 0 \<or> f_isr f = 0 then Some (Inl VirtIOLegacyDevice, m, [])
       else do {
         let (device_features, ws) = read_device_features dev;
         let status = status_acknowledge OR status_driver;
         let ws = ws @ [DeviceStatus status];
         if device_features AND version1 = 0 then Some (Inl VirtIOLegacyDevice, m, map Config ws)
         else do {
           let status = status OR status_features_ok;
           let ws = ws @ write_driver_features version1 @ [DeviceStatus status];
           if device_status dev status AND status_features_ok = 0 then Some (Inl VirtIODeviceNotReady, m, map Config ws)
           else do {
             let (numbers, ns) = get_queue_number (queue_size dev) 2 0;
             let acts = map Config (ws @ ns);
             (e, control, m, ws) \<leftarrow> setup_queue c d dev f lapic_id 0x43 0 (numbers ! 0) (ptrs 0) (garbage 0) m;
             let acts = acts @ ws;
             if is_error e then do { (_, m) \<leftarrow> smart_free (frame_id control) m; Some (Inl e, m, acts) }
             else do {
               (e, cursor, m, ws) \<leftarrow> setup_queue c d dev f lapic_id 0x44 1 (numbers ! 1) (ptrs 1) (garbage 1) m;
               let acts = acts @ ws;
               let status = status OR status_driver_ok;
               if is_error e
               then do { (_, m) \<leftarrow> smart_free (frame_id cursor) m; (_, m) \<leftarrow> smart_free (frame_id control) m; Some (Inl e, m, acts) }
               else do {
                 let acts = acts @ [Config (DeviceStatus status)];
                 if device_status dev status AND status_driver_ok = 0
                 then do { (_, m) \<leftarrow> smart_free (frame_id cursor) m; (_, m) \<leftarrow> smart_free (frame_id control) m; Some (Inl VirtIODeviceNotReady, m, acts) }
                 else do { s \<leftarrow> new_gpu_device control cursor memo m; Some (Inr s, frames s, acts) } } } } } }
     }"

end
