(* ===== verification/Gpu_Protocol.thy ===== *)
theory Gpu_Protocol
  imports Virtio_Gpu
begin

text \<open>
  The protocol between the graphics driver of \<^verbatim>\<open>src/virtio/gpu.hpp\<close> and its device. The device takes the requests from
  the available ring in order, writes each answer to its buffer and puts an entry into the used ring; the interrupt
  handler runs \<^verbatim>\<open>process_control_queue\<close> at any time; a thread that swaps buffers submits three requests and, any number of
  these steps later, clears \<^verbatim>\<open>sync_done\<close>. In every state reached that way, the requests that wait in the queue are exactly
  those the worker expects answers for, their bytes are intact, and there are at most three.
\<close>

section \<open>Memory\<close>

lemma length_load [simp]: "length (load m a n) = n"
  by (simp add: load_def)

lemma load_part:
  assumes "k + n \<le> len"
  shows "load m (a + of_nat k) n = take n (drop k (load m a len))"
  using assms by (intro nth_equalityI) (auto simp: load_def algebra_simps)

lemma load_prefix: "n \<le> len \<Longrightarrow> load m a n = take n (load m a len)"
  using load_part [of 0 n len m a] by simp

lemma load_store_same:
  assumes "length bs \<le> 4096"
  shows "load (store a bs m) a (length bs) = bs"
proof (rule nth_equalityI)
  fix i assume i: "i < length (load (store a bs m) a (length bs))"
  then have "unat (of_nat i :: u64) = i" using assms by (intro unat_of_nat_small) simp
  then show "load (store a bs m) a (length bs) ! i = bs ! i" using i by (simp add: load_def store_def)
qed simp

text \<open>No access of at most a frame at b touches the frame at a.\<close>

definition apart :: "u64 \<Rightarrow> u64 \<Rightarrow> bool" where
  "apart a b \<longleftrightarrow> (\<forall>x < 4096. 4096 \<le> unat (b + of_nat x - a))"

lemma load_store_apart:
  assumes "apart a b" "length bs \<le> 4096" "n \<le> 4096"
  shows "load (store a bs m) b n = load m b n"
proof -
  have "\<not> unat (b + of_nat i - a) < length bs" if "i < n" for i
    using assms that unfolding apart_def by (meson leD le_less_trans less_le_trans order_less_imp_le)
  then show ?thesis by (simp add: load_def store_def)
qed

lemma unat_diff_of_nat:
  assumes "P < 2 ^ 64" "Q < 2 ^ 64"
  shows "unat (of_nat P - of_nat Q :: u64) = (if Q \<le> P then P - Q else 2 ^ 64 + P - Q)"
proof -
  have u: "unat (of_nat P :: u64) = P" "unat (of_nat Q :: u64) = Q"
    using assms by (intro unat_of_nat_small; simp)+
  show ?thesis
  proof (cases "Q \<le> P")
    case True
    then have "of_nat P - of_nat Q = (of_nat (P - Q) :: u64)" by (simp add: of_nat_diff)
    moreover have "unat (of_nat (P - Q) :: u64) = P - Q" using assms by (intro unat_of_nat_small) simp
    ultimately have "unat (of_nat P - of_nat Q :: u64) = P - Q" by (simp only:)
    then show ?thesis using True by simp
  next
    case False
    have "(of_nat (2 ^ 64 + P - Q) :: u64) + of_nat Q = of_nat (2 ^ 64 + P)"
      using assms(2) by (simp flip: of_nat_add)
    also have "\<dots> = of_nat P" by (simp add: of_nat_add)
    finally have "of_nat P - of_nat Q = (of_nat (2 ^ 64 + P - Q) :: u64)" by (simp add: algebra_simps)
    moreover have "unat (of_nat (2 ^ 64 + P - Q) :: u64) = 2 ^ 64 + P - Q" using assms False by (intro unat_of_nat_small) simp
    ultimately have "unat (of_nat P - of_nat Q :: u64) = 2 ^ 64 + P - Q" by (simp only:)
    then show ?thesis using False by simp
  qed
qed

lemma frames_apart:
  assumes "i \<noteq> j" "(B + i + 1) * 4096 < 2 ^ 64" "(B + j + 1) * 4096 < 2 ^ 64"
  shows "apart (of_nat ((B + i) * 4096)) (of_nat ((B + j) * 4096))"
  unfolding apart_def
proof (intro allI impI)
  fix x :: nat assume x: "x < 4096"
  have "(of_nat ((B + j) * 4096) + of_nat x :: u64) = of_nat ((B + j) * 4096 + x)" by simp
  moreover have "i < j \<or> j < i" using assms(1) by linarith
  then have "(B + i) * 4096 + 4096 \<le> (B + j) * 4096 \<or> (B + j) * 4096 + 4096 \<le> (B + i) * 4096"
    by (elim disjE) (simp_all add: algebra_simps)
  ultimately show "4096 \<le> unat (of_nat ((B + j) * 4096) + of_nat x - of_nat ((B + i) * 4096) :: u64)"
    using unat_diff_of_nat [of "(B + j) * 4096 + x" "(B + i) * 4096"] assms(2,3) x by auto
qed

lemma fold_store_other:
  assumes "\<forall>a \<in> set as. apart a b" "\<forall>bs \<in> set bss. length bs \<le> 4096" "n \<le> 4096"
  shows "load (fold (\<lambda>(a, bs). store a bs) (zip as bss) m) b n = load m b n"
  using assms
proof (induction as bss arbitrary: m rule: list_induct2')
  case (4 a as bs bss)
  then show ?case using load_store_apart [of a b bs n m] by simp
qed simp_all

lemma fold_store_same:
  assumes "length as = length bss" "\<forall>bs \<in> set bss. length bs \<le> 4096" "j < length bss"
    and "\<And>i. i < length bss \<Longrightarrow> i \<noteq> j \<Longrightarrow> apart (as ! i) (as ! j)"
  shows "load (fold (\<lambda>(a, bs). store a bs) (zip as bss) m) (as ! j) (length (bss ! j)) = bss ! j"
  using assms
proof (induction as bss arbitrary: m j rule: list_induct2)
  case (Cons a as bs bss)
  show ?case
  proof (cases j)
    case 0
    have "\<forall>c \<in> set as. apart c a"
    proof
      fix c assume "c \<in> set as"
      then obtain i where "i < length as" "c = as ! i" by (auto simp: in_set_conv_nth)
      then show "apart c a" using Cons.prems(3) [of "Suc i"] 0 Cons.hyps by simp
    qed
    then show ?thesis using 0 Cons.prems(1) load_store_same [of bs a m] fold_store_other [of as a bss "length bs" "store a bs m"] by simp
  next
    case (Suc k)
    have "apart (as ! i) (as ! k)" if "i < length bss" "i \<noteq> k" for i using Cons.prems(3) [of "Suc i"] that Suc by simp
    then show ?thesis using Cons.IH [of k "store a bs m"] Cons.prems Suc by simp
  qed
qed simp

section \<open>Headers\<close>

lemma get_num_struct_bytes_header:
  "get_num ControlHeader_layout ''type'' (header_bytes t fl fe) = control_code t mod 2 ^ 32"
  "get_num ControlHeader_layout ''flags'' (header_bytes t fl fe) = fl mod 2 ^ 32"
  "length (header_bytes t fl fe) = 24"
  by (simp_all add: header_bytes_def get_num_def get_bytes_def ControlHeader_layout_def le_nat_le_bytes)

lemma header_size: "struct_size ControlHeader_layout = 24"
  by (simp add: ControlHeader_layout_def struct_size_def)

lemma control_code_small: "control_code t < 2 ^ 32"
  by (cases t) simp_all

lemma control_code_eq [simp]: "control_code t = control_code u \<longleftrightarrow> t = u"
  by (cases t; cases u) simp_all

text \<open>A request of the given bytes lies at an address.\<close>

definition holds :: "mem \<Rightarrow> u64 \<Rightarrow> u8 list \<Rightarrow> bool" where
  "holds m a bs \<longleftrightarrow> load m a (length bs) = bs"

lemma holds_header:
  assumes "holds m a (header_bytes t fl fe @ p)"
  shows "has_type m a u \<longleftrightarrow> u = t" "header_num m a ''flags'' = fl mod 2 ^ 32"
proof -
  have "load m a 24 = take 24 (header_bytes t fl fe @ p)"
    using assms load_prefix [of 24 "length (header_bytes t fl fe @ p)" m a] by (simp add: holds_def get_num_struct_bytes_header)
  then have l: "load m a 24 = header_bytes t fl fe" by (simp add: get_num_struct_bytes_header)
  show "has_type m a u \<longleftrightarrow> u = t"
    using control_code_small [of t] by (auto simp: has_type_def header_num_def header_size l get_num_struct_bytes_header)
  show "header_num m a ''flags'' = fl mod 2 ^ 32"
    by (simp add: header_num_def header_size l get_num_struct_bytes_header)
qed

lemma holds_payload:
  assumes "holds m a (header_bytes t fl fe @ p)" "n \<le> length p"
  shows "load m (a + 24) n = take n p"
  using assms load_part [of 24 n "length (header_bytes t fl fe @ p)" m a] by (simp add: holds_def get_num_struct_bytes_header)

section \<open>Requests in the queue\<close>

fun queue_requests :: "u8 list list \<Rightarrow> gpu \<Rightarrow> gpu option" where
  "queue_requests [] s = Some s"
| "queue_requests (b # bs) s = do { s \<leftarrow> queue_data s b []; queue_requests bs s }"

definition submit :: "u8 list list \<Rightarrow> gpu \<Rightarrow> gpu option" where
  "submit bss s = do { s \<leftarrow> queue_requests bss s; notify_control s }"

lemma queue_data_bytes: "queue_data s h p = queue_data s (h @ p) []"
  by (simp add: queue_data_def)

lemma queue_requests_spec:
  assumes "add_requests (map (\<lambda>b. of_nat (length b)) bss) (control_queue s) = Some (as, q)"
  shows "queue_requests bss s = Some (s\<lparr>control_queue := q, memory := fold (\<lambda>(a, bs). store a bs) (zip as bss) (memory s)\<rparr>)"
  using assms
proof (induction bss arbitrary: s as)
  case (Cons b bss)
  then obtain a q1 as' where q1: "get_next_descriptor_buffer (of_nat (length b)) (control_queue s) = Some (a, q1)"
      "add_requests (map (\<lambda>b. of_nat (length b)) bss) q1 = Some (as', q)" "as = a # as'"
    by (auto split: bind_splits)
  then show ?case
    using Cons.IH [of "s\<lparr>control_queue := q1, memory := store a b (memory s)\<rparr>" as'] by (simp add: queue_data_def)
qed simp

text \<open>The buffers of a queue are consecutive frames, as the constructor sets them up.\<close>

definition frames_ok :: "queue \<Rightarrow> bool" where
  "frames_ok q \<longleftrightarrow> (\<exists>B. 0 < B \<and> (B + unat (qsize q)) * 4096 < 2 ^ 64 \<and>
     (\<forall>i < unat (qsize q). d_addr (descriptors q ! i) = of_nat ((B + i) * 4096)))"

lemma frames_okD:
  assumes "frames_ok q" "i < unat (qsize q)"
  shows "d_addr (descriptors q ! i) \<noteq> 0"
    "j < unat (qsize q) \<Longrightarrow> i \<noteq> j \<Longrightarrow> apart (d_addr (descriptors q ! i)) (d_addr (descriptors q ! j))"
proof -
  obtain B where B: "0 < B" "(B + unat (qsize q)) * 4096 < 2 ^ 64"
      "\<And>i. i < unat (qsize q) \<Longrightarrow> d_addr (descriptors q ! i) = of_nat ((B + i) * 4096)"
    using assms(1) unfolding frames_ok_def by blast
  have lt: "(B + i + 1) * 4096 < 2 ^ 64" if "i < unat (qsize q)" for i using that B(2) by simp
  have "unat (of_nat ((B + i) * 4096) :: u64) = (B + i) * 4096"
    using lt [OF assms(2)] by (intro unat_of_nat_small) simp
  then show "d_addr (descriptors q ! i) \<noteq> 0" using B(1) B(3) [OF assms(2)] by (metis add_is_0 mult_is_0 neq0_conv unat_0 zero_neq_numeral)
  show "apart (d_addr (descriptors q ! i)) (d_addr (descriptors q ! j))" if "j < unat (qsize q)" "i \<noteq> j"
    using frames_apart [OF that(2) lt lt] that(1) assms(2) B(3) by simp
qed

text \<open>
  The device has answered n requests, and the requests in \<open>pend\<close> wait for it: they are in the available ring in that order,
  each at the head of a chain of two descriptors whose first buffer holds its bytes.
\<close>

definition head_of :: "queue \<Rightarrow> nat \<Rightarrow> nat" where
  "head_of q i = (2 * i) mod unat (qsize q)"

definition offered :: "queue \<Rightarrow> mem \<Rightarrow> nat \<Rightarrow> u8 list \<Rightarrow> bool" where
  "offered q m i bs \<longleftrightarrow> (let h = head_of q i in
     length bs \<le> 4096 \<and> a_ring (avail q) ! (i mod unat (qsize q)) = of_nat h \<and>
     d_flags (descriptors q ! h) = flag_next \<and> d_next (descriptors q ! h) = of_nat (Suc h) \<and>
     d_flags (descriptors q ! Suc h) = flag_write \<and> holds m (d_addr (descriptors q ! h)) bs)"

definition waiting :: "queue \<Rightarrow> mem \<Rightarrow> nat \<Rightarrow> u8 list list \<Rightarrow> bool" where
  "waiting q m n pend \<longleftrightarrow>
     queue_wf q \<and> added_descriptors q = 0 \<and> frames_ok q \<and> 8 \<le> unat (qsize q) \<and> length pend \<le> 3 \<and>
     unat (free_head q) mod unat (qsize q) = head_of q (n + length pend) \<and> a_index (avail q) = of_nat (n + length pend) \<and>
     (\<forall>j < length pend. offered q m (n + j) (pend ! j))"

lemma head_of_bound:
  assumes "queue_wf q"
  shows "head_of q i < unat (qsize q)" "even (head_of q i)" "Suc (head_of q i) < unat (qsize q)"
proof -
  note w = queue_wfD [OF assms]
  show 1: "head_of q i < unat (qsize q)" unfolding head_of_def using w(1) by simp
  show 2: "even (head_of q i)" unfolding head_of_def using w(2) by (simp add: dvd_mod_iff)
  show "Suc (head_of q i) < unat (qsize q)" using 1 2 w(2) by (metis Suc_lessI even_Suc)
qed

lemma head_of_inj:
  assumes "i < k" "k < i + 4" "8 \<le> unat (qsize q)"
  shows "head_of q i \<noteq> head_of q k"
proof
  assume "head_of q i = head_of q k"
  moreover have "2 * k = 2 * i + 2 * (k - i)" using assms by simp
  ultimately have "(2 * i + 0) mod unat (qsize q) = (2 * i + 2 * (k - i)) mod unat (qsize q)"
    unfolding head_of_def by (metis add.right_neutral)
  then have "0 = 2 * (k - i)" by (rule mod_inj_window) (use assms in linarith)+
  then show False using assms(1) by simp
qed

lemma waiting_memory:
  assumes "waiting q m n pend" "\<And>j. j < length pend \<Longrightarrow> load m' (d_addr (descriptors q ! head_of q (n + j))) 4096 = load m (d_addr (descriptors q ! head_of q (n + j))) 4096"
  shows "waiting q m' n pend"
proof -
  have "offered q m' (n + j) (pend ! j)" if j: "j < length pend" for j
  proof -
    have o: "offered q m (n + j) (pend ! j)" using assms(1) j unfolding waiting_def by blast
    then have "length (pend ! j) \<le> 4096" by (simp add: offered_def Let_def)
    then have "load m' (d_addr (descriptors q ! head_of q (n + j))) (length (pend ! j)) = load m (d_addr (descriptors q ! head_of q (n + j))) (length (pend ! j))"
      using assms(2) [OF j] load_prefix [of _ 4096] by metis
    then show ?thesis using o by (simp add: offered_def Let_def holds_def)
  qed
  then show ?thesis using assms(1) by (simp add: waiting_def)
qed

lemma waiting_pop: "waiting q m n (b # pend) \<Longrightarrow> waiting q m (Suc n) pend"
  unfolding waiting_def by (auto dest: spec [of _ "Suc _"])

lemma head_of_other:
  assumes "queue_wf q" "8 \<le> unat (qsize q)" "i < k" "k < i + 4"
  shows "head_of q i \<noteq> head_of q k" "head_of q i \<noteq> Suc (head_of q k)" "Suc (head_of q i) \<noteq> head_of q k" "Suc (head_of q i) \<noteq> Suc (head_of q k)"
  using head_of_inj [OF assms(3,4,2)] head_of_bound(2) [OF assms(1)] by (metis even_Suc, metis even_Suc, metis even_Suc, simp)

lemma slot_other:
  assumes "8 \<le> N" "i < k" "k < i + 4"
  shows "i mod N \<noteq> k mod (N :: nat)"
proof
  assume "i mod N = k mod N"
  moreover have "k = i + (k - i)" using assms by simp
  ultimately have "(i + 0) mod N = (i + (k - i)) mod N" by (metis add.right_neutral)
  then have "0 = k - i" by (rule mod_inj_window) (use assms in linarith)+
  then show False using assms(2) by simp
qed

lemma waiting_positions:
  assumes "waiting q m n pend"
  shows "head_at q k = head_of q (n + length pend + k)"
    "(unat (a_index (avail q)) + k) mod unat (qsize q) = (n + length pend + k) mod unat (qsize q)"
proof -
  have w: "queue_wf q" "unat (free_head q) mod unat (qsize q) = head_of q (n + length pend)" "a_index (avail q) = of_nat (n + length pend)"
    using assms by (simp_all add: waiting_def)
  have "head_at q k = (unat (free_head q) mod unat (qsize q) + 2 * k) mod unat (qsize q)"
    unfolding head_at_def by (simp add: mod_add_left_eq)
  also have "\<dots> = (2 * (n + length pend) + 2 * k) mod unat (qsize q)" unfolding w(2) head_of_def by (simp add: mod_add_left_eq)
  finally show "head_at q k = head_of q (n + length pend + k)" by (simp add: head_of_def algebra_simps)
  show "(unat (a_index (avail q)) + k) mod unat (qsize q) = (n + length pend + k) mod unat (qsize q)"
  proof -
    have "unat (of_nat (n + length pend) :: u16) mod unat (qsize q) = (n + length pend) mod 2 ^ 16 mod unat (qsize q)"
      by (simp add: unat_of_nat take_bit_eq_mod del: of_nat_add)
    also have "\<dots> = (n + length pend) mod unat (qsize q)" by (rule mod_mod_cancel [OF queue_wfD(3) [OF w(1)]])
    finally show ?thesis unfolding w(3) by (metis mod_add_left_eq)
  qed
qed

text \<open>
  What a submission leaves alone: the used ring, and the buffers of the k requests after the first n and of their
  responses.
\<close>

definition submitted :: "queue \<Rightarrow> mem \<Rightarrow> queue \<Rightarrow> mem \<Rightarrow> nat \<Rightarrow> nat \<Rightarrow> bool" where
  "submitted q m q' m' n k \<longleftrightarrow>
     used q' = used q \<and> last_used q' = last_used q \<and> qsize q' = qsize q \<and>
     (\<forall>i. d_addr (descriptors q' ! i) = d_addr (descriptors q ! i)) \<and>
     (\<forall>j < k. load m' (d_addr (descriptors q ! head_of q (n + j))) 4096 = load m (d_addr (descriptors q ! head_of q (n + j))) 4096 \<and>
             load m' (d_addr (descriptors q ! Suc (head_of q (n + j)))) 4096 = load m (d_addr (descriptors q ! Suc (head_of q (n + j)))) 4096)"

lemma submit_waiting:
  assumes w: "waiting (control_queue s) (memory s) n pend" and few: "length pend + length bss \<le> 3"
    and short: "\<forall>b \<in> set bss. length b \<le> 4096"
  obtains q m x where "submit bss s = Some (s\<lparr>control_queue := q, memory := m, notified := notified s @ [x]\<rparr>)" "waiting q m n (pend @ bss)"
    "submitted (control_queue s) (memory s) q m n (length pend)"
proof -
  define q where "q = control_queue s"
  define k where "k = length pend"
  let ?ls = "map (\<lambda>b. of_nat (length b)) bss :: u32 list"
  have wq: "queue_wf q" "added_descriptors q = 0" "frames_ok q" "8 \<le> unat (qsize q)"
    "a_index (avail q) = of_nat (n + k)" "\<And>j. j < k \<Longrightarrow> offered q (memory s) (n + j) (pend ! j)"
    using w unfolding waiting_def q_def k_def by blast+
  have head: "head_at q j = head_of q (n + k + j)" and slot: "(unat (a_index (avail q)) + j) mod unat (qsize q) = (n + k + j) mod unat (qsize q)" for j
    using waiting_positions [OF w] by (simp_all add: q_def k_def)
  have size: "2 * length ?ls \<le> unat (qsize q)" using few wq(4) by simp
  obtain q1 q2 where r: "add_requests ?ls q = Some (map (\<lambda>k. d_addr (descriptors q ! head_at q k)) [0..<length ?ls], q1)"
    "notify_device q1 = Some ((queue_number q, notify_address q, a_index (avail q) + of_nat (length ?ls)), q2)"
    "queue_wf q2" "added_descriptors q2 = 0" "qsize q2 = qsize q" "free_head q2 = free_head q + of_nat (2 * length ?ls)"
    "a_index (avail q2) = a_index (avail q) + of_nat (length ?ls)" "used q2 = used q" "last_used q2 = last_used q"
    and each: "\<forall>j < length ?ls. let h = head_at q j in
        a_ring (avail q2) ! ((unat (a_index (avail q)) + j) mod unat (qsize q)) = of_nat h \<and>
        descriptors q2 ! h = (descriptors q ! h)\<lparr>d_len := ?ls ! j, d_flags := flag_next, d_next := of_nat (h + 1)\<rparr> \<and>
        descriptors q2 ! (h + 1) = (descriptors q ! (h + 1))\<lparr>d_flags := flag_write, d_len := 4096\<rparr>"
    and other: "\<forall>i. (\<forall>j < length ?ls. i \<noteq> head_at q j \<and> i \<noteq> head_at q j + 1) \<longrightarrow> descriptors q2 ! i = descriptors q ! i"
    and oring: "\<forall>i. (\<forall>j < length ?ls. i \<noteq> (unat (a_index (avail q)) + j) mod unat (qsize q)) \<longrightarrow> a_ring (avail q2) ! i = a_ring (avail q) ! i"
    using requests_spec [OF wq(1,2) size] by blast
  define as where "as = map (\<lambda>k. d_addr (descriptors q ! head_at q k)) [0..<length bss]"
  define m where "m = fold (\<lambda>(a, bs). store a bs) (zip as bss) (memory s)"
  have sub: "submit bss s = Some (s\<lparr>control_queue := q2, memory := m,
      notified := notified s @ [(queue_number q, notify_address q, a_index (avail q) + of_nat (length ?ls))]\<rparr>)"
    using queue_requests_spec [of bss s as q1] r(1,2) by (simp add: submit_def notify_control_def q_def as_def m_def)
  have hb: "head_of q i < unat (qsize q)" "Suc (head_of q i) < unat (qsize q)" for i using head_of_bound [OF wq(1)] by simp_all
  have h2: "head_of q2 i = head_of q i" for i by (simp add: head_of_def r(5))
  have addr: "d_addr (descriptors q2 ! i) = d_addr (descriptors q ! i)" for i
  proof (cases "\<forall>j < length ?ls. i \<noteq> head_at q j \<and> i \<noteq> head_at q j + 1")
    case False
    then obtain j where "j < length ?ls" "i = head_at q j \<or> i = head_at q j + 1" by blast
    then show ?thesis using each [rule_format, of j] by (auto simp: Let_def)
  qed (use other in simp)
  have fr: "frames_ok q2" using wq(3) by (simp add: frames_ok_def addr r(5))
  have new: "offered q2 m (n + k + j) (bss ! j)" if j: "j < length bss" for j
  proof -
    have "holds m (as ! j) (bss ! j)"
      unfolding holds_def m_def
    proof (rule fold_store_same)
      fix i assume i: "i < length bss" "i \<noteq> j"
      then have "head_of q (n + k + i) \<noteq> head_of q (n + k + j)"
        using head_of_inj [of "n + k + i" "n + k + j" q] head_of_inj [of "n + k + j" "n + k + i" q] few j wq(4) by (cases "i < j") (auto simp: k_def)
      then show "apart (as ! i) (as ! j)" using i j frames_okD(2) [OF wq(3) hb(1) hb(1)] by (simp add: as_def head)
    qed (use short j in \<open>simp_all add: as_def\<close>)
    then show ?thesis using each [rule_format, of j] j short
      by (simp add: offered_def Let_def head slot h2 r(5) as_def)
  qed
  have dist: "head_of q (n + j) \<noteq> head_of q (n + k + i) \<and> head_of q (n + j) \<noteq> Suc (head_of q (n + k + i)) \<and>
        Suc (head_of q (n + j)) \<noteq> head_of q (n + k + i) \<and> Suc (head_of q (n + j)) \<noteq> Suc (head_of q (n + k + i)) \<and>
        (n + j) mod unat (qsize q) \<noteq> (n + k + i) mod unat (qsize q)" if "i < length bss" "j < k" for i j
    using head_of_other [OF wq(1,4), of "n + j" "n + k + i"] slot_other [OF wq(4), of "n + j" "n + k + i"] that few by (simp add: k_def)
  have far: "load m (d_addr (descriptors q ! c)) l = load (memory s) (d_addr (descriptors q ! c)) l"
    if c: "c = head_of q (n + j) \<or> c = Suc (head_of q (n + j))" and j: "j < k" and l: "l \<le> 4096" for c j l
  proof -
    have "\<forall>a \<in> set as. apart a (d_addr (descriptors q ! c))"
    proof
      fix a assume "a \<in> set as"
      then obtain i where "i < length bss" "a = d_addr (descriptors q ! head_of q (n + k + i))" by (auto simp: as_def head)
      then show "apart a (d_addr (descriptors q ! c))"
        using c frames_okD(2) [OF wq(3) hb(1) hb(1)] frames_okD(2) [OF wq(3) hb(1) hb(2)] dist [of i j] j by (auto simp: not_sym)
    qed
    then show ?thesis
      unfolding m_def using short l by (rule fold_store_other)
  qed
  have old: "offered q2 m (n + j) (pend ! j)" if j: "j < k" for j
  proof -
    note d = dist [OF _ j]
    have same: "descriptors q2 ! head_of q (n + j) = descriptors q ! head_of q (n + j)"
      "descriptors q2 ! Suc (head_of q (n + j)) = descriptors q ! Suc (head_of q (n + j))"
      "a_ring (avail q2) ! ((n + j) mod unat (qsize q)) = a_ring (avail q) ! ((n + j) mod unat (qsize q))"
      using d other oring by (simp_all add: head slot)
    have o: "offered q (memory s) (n + j) (pend ! j)" using wq(6) [OF j] .
    then have len: "length (pend ! j) \<le> 4096" by (simp add: offered_def Let_def)
    have "load m (d_addr (descriptors q ! head_of q (n + j))) (length (pend ! j)) = load (memory s) (d_addr (descriptors q ! head_of q (n + j))) (length (pend ! j))"
      using far j len by blast
    then show ?thesis using o same by (simp add: offered_def Let_def h2 r(5) holds_def)
  qed
  have "unat (free_head q2) mod unat (qsize q2) = head_of q2 (n + (k + length bss))"
    using unat_add_mod [of "unat (qsize q)" "free_head q" "2 * length bss"] queue_wfD(4) [OF wq(1)] head [of "length bss"]
    by (simp add: r(5,6) head_at_def h2 add.assoc)
  moreover have "offered q2 m (n + j) ((pend @ bss) ! j)" if "j < length (pend @ bss)" for j
    using old [of j] new [of "j - k"] that by (cases "j < k") (simp_all add: nth_append k_def)
  ultimately have "waiting q2 m n (pend @ bss)"
    using r(3,4,5,7) fr wq(4,5) few by (simp add: waiting_def k_def [symmetric] add.assoc)
  moreover have "submitted (control_queue s) (memory s) q2 m n (length pend)"
    using far addr r(5,8,9) by (auto simp: submitted_def q_def [symmetric] k_def [symmetric])
  ultimately show thesis using that sub by blast
qed

section \<open>What the worker expects\<close>

definition create_bytes :: "u32 \<times> u32 \<Rightarrow> nat \<Rightarrow> u8 list" where
  "create_bytes dims r = header_bytes ResourceCreate2D 0 0 @ create_request r dims"

definition attach_bytes :: "nat \<Rightarrow> nat \<Rightarrow> u32 \<Rightarrow> u8 list" where
  "attach_bytes r f b = header_bytes ResourceAttachBacking 0 0 @ attach_request r f b"

definition swap_requests :: "gpu_framebuffer \<Rightarrow> u8 list list" where
  "swap_requests fb =
     (let r = (if \<not> fb_flip fb then 1 else 2) in
      [header_bytes TransferToHost2D 0 0 @ struct_bytes TransferToHost2DRequest_layout (full_rect fb @ [0, r, 0]),
       header_bytes ResourceFlush 0 0 @ struct_bytes ResourceFlushRequest_layout (full_rect fb @ [r, 0]),
       header_bytes SetScanout flag_fence 1 @ struct_bytes SetScanoutRequest_layout (full_rect fb @ [0, r])])"

definition is_null :: "smart_frame_id \<Rightarrow> bool" where
  "is_null f \<longleftrightarrow> sf_id f = nullframe"

text \<open>
  The flag \<open>mid\<close> says that a swap has submitted its requests and not yet cleared \<^verbatim>\<open>sync_done\<close>.
\<close>

definition expected :: "gpu \<Rightarrow> bool \<Rightarrow> u8 list list \<Rightarrow> bool" where
  "expected s mid pend \<longleftrightarrow>
     (case worker s of
        AtDisplayInfo \<Rightarrow> pend = [header_bytes GetDisplayInfo 0 0] \<and> is_null (framebuffer s ! 0) \<and> is_null (framebuffer s ! 1)
      | AtCreate i \<Rightarrow>
          i = 0 \<and> pend = [create_bytes (display_size s) 1, create_bytes (display_size s) 2] \<and> is_null (framebuffer s ! 0) \<and> is_null (framebuffer s ! 1) \<or>
          i = 1 \<and> (\<exists>f. pend = [create_bytes (display_size s) 2, attach_bytes 1 f (fb_bytes s)]) \<and> is_null (framebuffer s ! 1)
      | AtAttach i \<Rightarrow>
          i = 0 \<and> (\<exists>f g. pend = [attach_bytes 1 f (fb_bytes s), attach_bytes 2 g (fb_bytes s)]) \<or>
          i = 1 \<and> (\<exists>g. pend = [attach_bytes 2 g (fb_bytes s)])
      | AtLoop \<Rightarrow> pend = [] \<or> (\<exists>fb n. n < 3 \<and> pend = drop n (swap_requests fb))
      | Finished \<Rightarrow> False) \<and>
     (worker s \<noteq> AtLoop \<longrightarrow> sync_done s \<noteq> 0 \<and> \<not> mid) \<and> (worker s = AtLoop \<and> pend \<noteq> [] \<and> \<not> mid \<longrightarrow> sync_done s = 0) \<and>
     new_device_messages s = (if worker s = AtLoop then 1 else 0) \<and> length (framebuffer s) = 2 \<and> bmm_wf (frames s)"

lemma expected_cong:
  assumes "worker s' = worker s" "framebuffer s' = framebuffer s" "display_size s' = display_size s" "sync_done s' = sync_done s"
    "new_device_messages s' = new_device_messages s" "frames s' = frames s"
  shows "expected s' mid pend \<longleftrightarrow> expected s mid pend"
  unfolding expected_def fb_bytes_def assms ..

section \<open>The device\<close>

text \<open>
  A device that answers in order. The requests it is offered are those of the available ring. Answering request n, it
  writes nothing but the response buffer of that request, reports success (for the first request with an enabled mode)
  and repeats the fence flag of the request; then it puts the head of the request into the used ring.
\<close>

definition head_offered :: "queue \<Rightarrow> nat \<Rightarrow> nat" where
  "head_offered q i = unat (a_ring (avail q) ! (i mod unat (qsize q)))"

definition request_at :: "queue \<Rightarrow> nat \<Rightarrow> u64" where
  "request_at q i = d_addr (descriptors q ! head_offered q i)"

definition response_at :: "queue \<Rightarrow> nat \<Rightarrow> u64" where
  "response_at q i = d_addr (descriptors q ! unat (d_next (descriptors q ! head_offered q i)))"

definition outstanding :: "queue \<Rightarrow> nat \<Rightarrow> nat" where
  "outstanding q n = unat (a_index (avail q) - of_nat n)"

definition good_answer :: "mem \<Rightarrow> u64 \<Rightarrow> u64 \<Rightarrow> bool" where
  "good_answer m request response \<longleftrightarrow>
     (if has_type m request GetDisplayInfo
      then has_type m response OkDisplayInfo \<and> (\<exists>i < info_size. mode_num m response i ''enabled'' \<noteq> 0)
      else has_type m response OkNodata) \<and>
     header_num m response ''flags'' = header_num m request ''flags''"

definition answers :: "gpu \<Rightarrow> nat \<Rightarrow> mem \<Rightarrow> bool" where
  "answers s n m \<longleftrightarrow>
     (\<forall>x. 4096 \<le> unat (x - response_at (control_queue s) n) \<longrightarrow> m x = memory s x) \<and>
     good_answer m (request_at (control_queue s) n) (response_at (control_queue s) n)"

definition post_used :: "u32 \<times> u32 \<Rightarrow> queue \<Rightarrow> queue" where
  "post_used e q =
     (let u = used q in
      q\<lparr>used := u\<lparr>u_ring := (u_ring u)[unat (u_index u) mod unat (qsize q) := e], u_index := u_index u + 1\<rparr>\<rparr>)"

definition posts :: "gpu \<Rightarrow> nat \<Rightarrow> gpu \<Rightarrow> bool" where
  "posts s n s' \<longleftrightarrow> (\<exists>m len. 0 < outstanding (control_queue s) n \<and> answers s n m \<and> 0 < len \<and> len \<le> 4096 \<and>
     s' = s\<lparr>memory := m, control_queue := post_used (of_nat (head_offered (control_queue s) n), len) (control_queue s)\<rparr>)"

text \<open>
  The states of the driver, with the number t of answers the device has posted and the flag for a swap under way. The
  constructor; an answer of the device; a run of the interrupt handler, whatever it returns; the announced device being
  opened; and the two parts of a buffer swap, which other steps may separate. At most 65535 answers are considered:
  \<^verbatim>\<open>read_one_buffer\<close> compares a 32-bit count with the 16-bit index of the ring, and the queue breaks with the next one.
\<close>

inductive gpu_run :: "gpu \<Rightarrow> nat \<Rightarrow> bool \<Rightarrow> bool" where
  start: "queue_wf q \<Longrightarrow> added_descriptors q = 0 \<Longrightarrow> free_head q = 0 \<Longrightarrow> a_index (avail q) = 0 \<Longrightarrow> u_index (used q) = 0 \<Longrightarrow>
    last_used q = 0 \<Longrightarrow> frames_ok q \<Longrightarrow> 8 \<le> unat (qsize q) \<Longrightarrow> bmm_wf fr \<Longrightarrow> new_gpu_device q c m fr = Some s \<Longrightarrow> gpu_run s 0 False"
| answer: "gpu_run s t mid \<Longrightarrow> posts s t s' \<Longrightarrow> t < 65535 \<Longrightarrow> gpu_run s' (Suc t) mid"
| interrupt: "gpu_run s t mid \<Longrightarrow> process_control_queue s = Some (e, s') \<Longrightarrow> gpu_run s' t mid"
| opened: "gpu_run s t mid \<Longrightarrow> 0 < new_device_messages s \<Longrightarrow> create_devfs_framebuffer s = (fb, s') \<Longrightarrow> gpu_run s' t mid"
| swap_begins: "gpu_run s t False \<Longrightarrow> 0 < new_device_messages s \<Longrightarrow> sync_done s \<noteq> 0 \<Longrightarrow> swap_submit fb s = Some s' \<Longrightarrow> gpu_run s' t True"
| swap_ends: "gpu_run s t True \<Longrightarrow> swap_commit fb s = (fb', s') \<Longrightarrow> gpu_run s' t False"

section \<open>The invariant\<close>

lemma outstanding_at:
  assumes "waiting q m n pend" "n \<le> t" "t \<le> n + length pend"
  shows "outstanding q t = n + length pend - t"
proof -
  have a: "a_index (avail q) = of_nat (n + length pend)" "length pend \<le> 3" using assms(1) by (simp_all add: waiting_def)
  obtain d where d: "n + length pend = t + d" using assms(3) le_Suc_ex by blast
  then have "a_index (avail q) - of_nat t = (of_nat d :: u16)" unfolding a(1) by simp
  moreover have "d \<le> 3" using d a(2) assms(2) by simp
  ultimately show ?thesis unfolding outstanding_def by (simp add: unat_of_nat_small d)
qed

lemma waiting_head:
  assumes "waiting q m n pend" "j < length pend"
  shows "head_offered q (n + j) = head_of q (n + j)" "request_at q (n + j) = d_addr (descriptors q ! head_of q (n + j))"
    "response_at q (n + j) = d_addr (descriptors q ! Suc (head_of q (n + j)))" "holds m (request_at q (n + j)) (pend ! j)"
    "request_at q (n + j) \<noteq> 0" "response_at q (n + j) \<noteq> 0" "length (pend ! j) \<le> 4096"
    "0 < len \<Longrightarrow> len \<le> 4096 \<Longrightarrow> entry_buffers (descriptors q) (of_nat (head_offered q (n + j)), len) = Some (request_at q (n + j), response_at q (n + j))"
proof -
  have w: "queue_wf q" "frames_ok q" "offered q m (n + j) (pend ! j)" using assms by (simp_all add: waiting_def)
  note hb = head_of_bound [OF w(1), of "n + j"]
  have small: "unat (qsize q) < 2 ^ 16" using u16_bound by simp
  then have u: "unat (of_nat (head_of q (n + j)) :: u16) = head_of q (n + j)" "unat (of_nat (Suc (head_of q (n + j))) :: u16) = Suc (head_of q (n + j))"
    using hb by (intro unat_of_nat_small; simp)+
  show 1: "head_offered q (n + j) = head_of q (n + j)" using w(3) u by (simp add: head_offered_def offered_def Let_def)
  show 2: "request_at q (n + j) = d_addr (descriptors q ! head_of q (n + j))" by (simp add: request_at_def 1)
  show 3: "response_at q (n + j) = d_addr (descriptors q ! Suc (head_of q (n + j)))"
    using w(3) u(2) by (simp add: response_at_def 1 offered_def Let_def)
  show "holds m (request_at q (n + j)) (pend ! j)" "length (pend ! j) \<le> 4096" using w(3) by (simp_all add: 2 offered_def Let_def)
  show "request_at q (n + j) \<noteq> 0" "response_at q (n + j) \<noteq> 0" unfolding 2 3 using frames_okD(1) [OF w(2)] hb by blast+
  show "entry_buffers (descriptors q) (of_nat (head_offered q (n + j)), len) = Some (request_at q (n + j), response_at q (n + j))"
    if "0 < len" "len \<le> 4096"
    unfolding 1 2 3 using w(3) hb small queue_wfD(5) [OF w(1)] that by (intro chain_entry) (simp_all add: offered_def Let_def)
qed

text \<open>
  The driver has handled n answers and the device has posted t: the entries between them are in the used ring, each with a
  successful answer.
\<close>

definition posted :: "queue \<Rightarrow> mem \<Rightarrow> nat \<Rightarrow> nat \<Rightarrow> bool" where
  "posted q m n t \<longleftrightarrow>
     n \<le> t \<and> t < 65536 \<and> last_used q = of_nat n \<and> u_index (used q) = of_nat t \<and>
     (\<forall>i. n \<le> i \<and> i < t \<longrightarrow>
        (\<exists>len. u_ring (used q) ! (i mod unat (qsize q)) = (of_nat (head_offered q i), len) \<and> 0 < len \<and> len \<le> 4096) \<and>
        good_answer m (request_at q i) (response_at q i))"

definition in_step :: "gpu \<Rightarrow> nat \<Rightarrow> nat \<Rightarrow> bool \<Rightarrow> u8 list list \<Rightarrow> bool" where
  "in_step s n t mid pend \<longleftrightarrow>
     waiting (control_queue s) (memory s) n pend \<and> expected s mid pend \<and> posted (control_queue s) (memory s) n t \<and> t \<le> n + length pend"

definition gpu_inv :: "gpu \<Rightarrow> nat \<Rightarrow> nat \<Rightarrow> bool \<Rightarrow> bool" where
  "gpu_inv s n t mid \<longleftrightarrow> (\<exists>pend. in_step s n t mid pend)"

lemma good_answer_cong:
  assumes "load m' a 4096 = load m a 4096" "load m' b 4096 = load m b 4096"
  shows "good_answer m' a b \<longleftrightarrow> good_answer m a b"
proof -
  have h: "header_num m' a f = header_num m a f" "header_num m' b f = header_num m b f" for f
    using assms by (simp_all add: header_num_def header_size load_prefix [of 24 4096])
  have "mode_num m' b i f = mode_num m b i f" if "i < info_size" for i f
  proof -
    have "24 + i * 24 + 24 \<le> (4096 :: nat)" using that by (simp add: info_size_def)
    moreover have "struct_size Mode_layout = 24" by (simp add: Mode_layout_def Rect_layout_def struct_size_def)
    ultimately show ?thesis
      using assms(2) by (simp add: mode_num_def header_size load_part [of "24 + i * 24" 24 4096] del: of_nat_add of_nat_mult)
  qed
  then show ?thesis by (auto simp: good_answer_def has_type_def h)
qed

lemma posted_submitted:
  assumes p: "posted q m n t" and w: "waiting q m n pend" "waiting q' m' n (pend @ bss)" and t: "t \<le> n + length pend"
    and sub: "submitted q m q' m' n (length pend)"
  shows "posted q' m' n t"
proof -
  have same: "head_offered q' i = head_offered q i" "request_at q' i = request_at q i" "response_at q' i = response_at q i"
    "good_answer m' (request_at q i) (response_at q i) \<longleftrightarrow> good_answer m (request_at q i) (response_at q i)"
    if i: "n \<le> i" "i < t" for i
  proof -
    obtain j where j: "i = n + j" "j < length pend" using i t by (metis add_less_cancel_left le_add_diff_inverse order_less_le_trans)
    have h: "head_of q' k = head_of q k" for k using sub by (simp add: head_of_def submitted_def)
    note a = waiting_head [OF w(1) j(2)] and b = waiting_head [OF w(2), of j]
    show "head_offered q' i = head_offered q i" using a(1) b(1) j by (simp add: h)
    show "request_at q' i = request_at q i" "response_at q' i = response_at q i"
      using a(2,3) b(2,3) j sub by (simp_all add: h submitted_def)
    show "good_answer m' (request_at q i) (response_at q i) \<longleftrightarrow> good_answer m (request_at q i) (response_at q i)"
      by (rule good_answer_cong) (use a(2,3) j sub in \<open>simp_all add: submitted_def\<close>)
  qed
  show ?thesis
    using p sub same by (simp add: posted_def submitted_def)
qed

lemma waiting_used: "length (u_ring u) = length (u_ring (used q)) \<Longrightarrow> waiting (q\<lparr>used := u\<rparr>) m n pend \<longleftrightarrow> waiting q m n pend"
  by (simp add: waiting_def queue_wf_def frames_ok_def head_of_def offered_def)

lemma waiting_last_used: "waiting (q\<lparr>last_used := l\<rparr>) m n pend \<longleftrightarrow> waiting q m n pend"
  by (simp add: waiting_def queue_wf_def frames_ok_def head_of_def offered_def)

lemma positions_used:
  "head_offered (q\<lparr>used := u\<rparr>) i = head_offered q i" "request_at (q\<lparr>used := u\<rparr>) i = request_at q i"
  "response_at (q\<lparr>used := u\<rparr>) i = response_at q i" "head_offered (q\<lparr>last_used := l\<rparr>) i = head_offered q i"
  "request_at (q\<lparr>last_used := l\<rparr>) i = request_at q i" "response_at (q\<lparr>last_used := l\<rparr>) i = response_at q i"
  by (simp_all add: head_offered_def request_at_def response_at_def)

lemma load_outside:
  assumes "\<forall>x. 4096 \<le> unat (x - a) \<longrightarrow> m' x = m x" "apart a b"
  shows "load m' b 4096 = load m b 4096"
  using assms by (simp add: load_def apart_def)

text \<open>An answer of the device keeps the driver in step.\<close>

lemma answers_elsewhere:
  assumes w: "waiting (control_queue s) (memory s) n pend" and a: "answers s t m" and t: "n \<le> t" "t < n + length pend" and j: "j < length pend"
  shows "load m (d_addr (descriptors (control_queue s) ! head_of (control_queue s) (n + j))) 4096 =
      load (memory s) (d_addr (descriptors (control_queue s) ! head_of (control_queue s) (n + j))) 4096"
    and "n + j \<noteq> t \<Longrightarrow> load m (d_addr (descriptors (control_queue s) ! Suc (head_of (control_queue s) (n + j)))) 4096 =
      load (memory s) (d_addr (descriptors (control_queue s) ! Suc (head_of (control_queue s) (n + j)))) 4096"
proof -
  let ?q = "control_queue s"
  have wq: "queue_wf ?q" "frames_ok ?q" "8 \<le> unat (qsize ?q)" "length pend \<le> 3" using w by (simp_all add: waiting_def)
  obtain i where i: "t = n + i" "i < length pend" using t le_Suc_ex by (metis add_less_cancel_left)
  have r: "response_at ?q t = d_addr (descriptors ?q ! Suc (head_of ?q t))" using waiting_head(3) [OF w i(2)] i(1) by simp
  note hb = head_of_bound [OF wq(1)]
  have out: "\<forall>x. 4096 \<le> unat (x - response_at ?q t) \<longrightarrow> m x = memory s x" using a by (simp add: answers_def)
  have ne: "Suc (head_of ?q t) \<noteq> head_of ?q (n + j)" using hb(2) by (metis even_Suc)
  show "load m (d_addr (descriptors ?q ! head_of ?q (n + j))) 4096 = load (memory s) (d_addr (descriptors ?q ! head_of ?q (n + j))) 4096"
    by (rule load_outside [OF out]) (use frames_okD(2) [OF wq(2) hb(3) hb(1) ne] r in simp)
  show "load m (d_addr (descriptors ?q ! Suc (head_of ?q (n + j)))) 4096 = load (memory s) (d_addr (descriptors ?q ! Suc (head_of ?q (n + j)))) 4096"
    if other: "n + j \<noteq> t"
  proof -
    have "head_of ?q t \<noteq> head_of ?q (n + j)"
      using head_of_inj [of t "n + j" ?q] head_of_inj [of "n + j" t ?q] wq(3,4) i j other by (cases "t < n + j") auto
    then have "apart (response_at ?q t) (d_addr (descriptors ?q ! Suc (head_of ?q (n + j))))"
      unfolding r using frames_okD(2) [OF wq(2) hb(3) hb(3)] by simp
    then show ?thesis by (rule load_outside [OF out])
  qed
qed

lemma posts_posted:
  assumes w: "waiting (control_queue s) (memory s) n pend" and p: "posted (control_queue s) (memory s) n t"
    and t: "t < n + length pend" "t < 65535" and a: "answers s t m" and len: "0 < len" "len \<le> 4096"
  defines "q' \<equiv> post_used (of_nat (head_offered (control_queue s) t), len) (control_queue s)"
  shows "waiting q' m n pend" "posted q' m n (Suc t)"
proof -
  let ?q = "control_queue s"
  have wq: "queue_wf ?q" "8 \<le> unat (qsize ?q)" "length pend \<le> 3" using w by (simp_all add: waiting_def)
  have n: "n \<le> t" "u_index (used ?q) = of_nat t" "last_used ?q = of_nat n" using p by (simp_all add: posted_def)
  note else = answers_elsewhere [OF w a n(1) t(1)]
  have ut: "unat (of_nat t :: u16) = t" using t(2) by (intro unat_of_nat_small) simp
  define u where "u = (used ?q)\<lparr>u_ring := (u_ring (used ?q))[t mod unat (qsize ?q) := (of_nat (head_offered ?q t), len)], u_index := of_nat (Suc t)\<rparr>"
  have q': "q' = ?q\<lparr>used := u\<rparr>" by (simp add: q'_def post_used_def n(2) ut u_def Let_def add.commute)
  have "waiting ?q m n pend" by (rule waiting_memory [OF w]) (rule else(1))
  then show "waiting q' m n pend" by (simp add: q' waiting_used u_def)
  have N: "length (u_ring (used ?q)) = unat (qsize ?q)" using queue_wfD(7) [OF wq(1)] .
  have entry: "\<exists>l. u_ring u ! (i mod unat (qsize ?q)) = (of_nat (head_offered ?q i), l) \<and> 0 < l \<and> l \<le> 4096"
    and good: "good_answer m (request_at ?q i) (response_at ?q i)" if i: "n \<le> i" "i < Suc t" for i
  proof -
    obtain j where j: "i = n + j" "j < length pend" using i t(1) by (metis add_less_cancel_left le_add_diff_inverse less_Suc_eq_le order_le_less_trans)
    note h = waiting_head [OF w j(2)]
    show "good_answer m (request_at ?q i) (response_at ?q i)"
    proof (cases "i = t")
      case True
      then show ?thesis using a by (simp add: answers_def)
    next
      case False
      then have "good_answer (memory s) (request_at ?q i) (response_at ?q i)" using p i by (simp add: posted_def)
      then show ?thesis
        using else(1) [OF j(2)] else(2) [OF j(2)] False j(1) h(2,3) good_answer_cong [of m _ "memory s"] by auto
    qed
    show "\<exists>l. u_ring u ! (i mod unat (qsize ?q)) = (of_nat (head_offered ?q i), l) \<and> 0 < l \<and> l \<le> 4096"
    proof (cases "i = t")
      case True
      then show ?thesis using len N wq(2) by (auto simp: u_def)
    next
      case False
      then have "i mod unat (qsize ?q) \<noteq> t mod unat (qsize ?q)"
        using slot_other [OF wq(2), of i t] i t(1) wq(3) by simp
      then show ?thesis using p i False by (auto simp: u_def posted_def)
    qed
  qed
  show "posted q' m n (Suc t)"
    using n t(2) entry good by (auto simp: posted_def q' positions_used u_def)
qed

lemma swap_submit_eq: "swap_submit fb s = submit (swap_requests fb) s"
  by (simp add: swap_submit_def submit_def swap_requests_def Let_def queue_data_bytes [of _ "header_bytes _ _ _"] del: bind.bind_lunit split: bind_splits)

lemma request_lengths [simp]:
  "length (create_bytes dims r) \<le> 4096" "length (attach_bytes r f b) \<le> 4096" "length (header_bytes t fl fe) \<le> 4096"
  "bs \<in> set (swap_requests fb) \<Longrightarrow> length bs \<le> 4096" "length (swap_requests fb) = 3"
  by (auto simp: create_bytes_def attach_bytes_def get_num_struct_bytes_header create_request_def attach_request_def swap_requests_def
      ResourceCreate2DRequest_layout_def ResourceAttachBackingRequest_layout_def MemEntry_layout_def full_rect_def Rect_layout_def
      TransferToHost2DRequest_layout_def ResourceFlushRequest_layout_def SetScanoutRequest_layout_def Let_def)

lemma allocate_total:
  assumes "bmm_wf m"
  shows "\<exists>r m'. allocate m n = Some (r, m') \<and> bmm_wf m' \<and> (\<forall>e. r = Inl e \<longrightarrow> e = NoEnoughMemory \<and> m' = m)"
proof -
  have ff: "first_fit_from m n (range_begin m) (allocate m n)"
    unfolding allocate_def by (rule alloc_loop_first_fit [OF assms])
  then obtain r m' where a: "allocate m n = Some (r, m')" by (cases "allocate m n") (auto simp: first_fit_from_def)
  show ?thesis
  proof (cases r)
    case (Inl e)
    then show ?thesis using ff a assms by (simp add: first_fit_from_def)
  next
    case (Inr f)
    then have "set_bits m (sf_id f) n True = Some m'" using ff a by (simp add: first_fit_from_def)
    then show ?thesis using a Inr set_bits_wf [OF _ assms] by blast
  qed
qed

lemma assign_null: "is_null f \<Longrightarrow> smart_move_assign f g m = Some (f\<lparr>sf_id := sf_id g, sf_frames := sf_frames g\<rparr>, g\<lparr>sf_id := sf_id f\<rparr>, m)"
  by (simp add: smart_move_assign_def smart_free_def is_null_def)

lemma handle_goes_on:
  assumes "resume s request response = Some (Success, s1)" "worker s1 \<noteq> Finished" "request \<noteq> 0" "response \<noteq> 0"
  shows "handle_completion s request response = Some (None,
      if header_num (memory s1) response ''flags'' AND flag_fence \<noteq> 0
      then s1\<lparr>sync_done := 1, events_notified := (if sync_done_event s1 then events_notified s1 + 1 else events_notified s1)\<rparr> else s1)"
  using assms by (simp add: handle_completion_def)

text \<open>The worker has stopped because frames for a frame buffer could not be allocated.\<close>

definition stopped :: "gpu \<Rightarrow> bool \<Rightarrow> bool" where
  "stopped s mid \<longleftrightarrow> worker s = Finished \<and> \<not> mid \<and> new_device_messages s = 0 \<and>
     (\<exists>k. allocate (frames s) k = Some (Inl NoEnoughMemory, frames s))"

text \<open>The situation of a completion: the oldest request b has been answered and taken out of the used ring.\<close>

definition answered :: "gpu \<Rightarrow> nat \<Rightarrow> nat \<Rightarrow> u64 \<Rightarrow> u64 \<Rightarrow> u8 list \<Rightarrow> u8 list list \<Rightarrow> bool" where
  "answered s n t request response b pend \<longleftrightarrow>
     waiting (control_queue s) (memory s) (Suc n) pend \<and> posted (control_queue s) (memory s) (Suc n) t \<and> t \<le> Suc n + length pend \<and>
     holds (memory s) request b \<and> request \<noteq> 0 \<and> response \<noteq> 0 \<and> good_answer (memory s) request response"

definition goes_on :: "gpu \<Rightarrow> nat \<Rightarrow> nat \<Rightarrow> bool \<Rightarrow> u64 \<Rightarrow> u64 \<Rightarrow> bool" where
  "goes_on s n t mid request response \<longleftrightarrow>
     (\<exists>s'. handle_completion s request response = Some (None, s') \<and> gpu_inv s' (Suc n) t mid) \<or>
     (\<exists>s'. handle_completion s request response = Some (Some NoEnoughMemory, s') \<and> stopped s' mid)"

lemma goes_onI:
  assumes "resume s request response = Some (Success, s1)" "request \<noteq> 0" "response \<noteq> 0"
    and "in_step s1 (Suc n) t mid pend" "worker s1 \<noteq> AtLoop \<or> pend = []"
  shows "goes_on s n t mid request response"
proof -
  have "worker s1 \<noteq> Finished" using assms(4) by (auto simp: in_step_def expected_def)
  note h = handle_goes_on [OF assms(1) this assms(2,3)]
  have "in_step (s1\<lparr>sync_done := 1, events_notified := e\<rparr>) (Suc n) t mid pend" for e
    using assms(4,5) by (auto simp: in_step_def expected_def fb_bytes_def split: phase.splits)
  then have "gpu_inv (if P then s1\<lparr>sync_done := 1, events_notified := e\<rparr> else s1) (Suc n) t mid" for P e
    using assms(4) by (cases P) (auto simp: gpu_inv_def)
  then show ?thesis unfolding goes_on_def h by blast
qed

lemma submit_step:
  assumes w: "answered s n t request response b pend" and s0: "control_queue s0 = control_queue s" "memory s0 = memory s"
    and few: "length pend + length bss \<le> 3" and short: "\<forall>b \<in> set bss. length b \<le> 4096"
  obtains q m x where "submit bss s0 = Some (s0\<lparr>control_queue := q, memory := m, notified := notified s0 @ [x]\<rparr>)"
    "waiting q m (Suc n) (pend @ bss)" "posted q m (Suc n) t" "t \<le> Suc n + length (pend @ bss)"
proof -
  have a: "waiting (control_queue s0) (memory s0) (Suc n) pend" "posted (control_queue s0) (memory s0) (Suc n) t" "t \<le> Suc n + length pend"
    using w s0 by (simp_all add: answered_def)
  obtain q m x where sub: "submit bss s0 = Some (s0\<lparr>control_queue := q, memory := m, notified := notified s0 @ [x]\<rparr>)"
      "waiting q m (Suc n) (pend @ bss)" "submitted (control_queue s0) (memory s0) q m (Suc n) (length pend)"
    by (rule submit_waiting [OF a(1) few short])
  have "posted q m (Suc n) t" by (rule posted_submitted [OF a(2,1) sub(2) a(3) sub(3)])
  then show thesis using that [OF sub(1,2)] a(3) by simp
qed

lemma display_info_step:
  assumes a: "answered s n t request response b pend" and x: "expected s mid (b # pend)" and p: "worker s = AtDisplayInfo"
  shows "goes_on s n t mid request response"
proof -
  let ?m = "memory s"
  have e: "b = header_bytes GetDisplayInfo 0 0" "pend = []" "is_null (framebuffer s ! 0)" "is_null (framebuffer s ! 1)"
    "sync_done s \<noteq> 0" "\<not> mid" "new_device_messages s = 0" "length (framebuffer s) = 2" "bmm_wf (frames s)"
    using x p by (auto simp: expected_def)
  have ty: "has_type ?m request GetDisplayInfo" using a e(1) holds_header(1) [of ?m request GetDisplayInfo 0 0 "[]"] by (simp add: answered_def)
  have r: "has_type ?m response OkDisplayInfo" "\<exists>i < info_size. mode_num ?m response i ''enabled'' \<noteq> 0"
    using a ty by (simp_all add: answered_def good_answer_def)
  obtain i where i: "find (\<lambda>i. mode_num ?m response i ''enabled'' \<noteq> 0) [0..<info_size] = Some i"
    using r(2) by (cases "find (\<lambda>i. mode_num ?m response i ''enabled'' \<noteq> 0) [0..<info_size]") (auto simp: find_None_iff)
  define dims where "dims = (of_nat (mode_num ?m response i ''width'') :: u32, of_nat (mode_num ?m response i ''height'') :: u32)"
  define s0 where "s0 = s\<lparr>display_size := dims\<rparr>"
  let ?bs = "[create_bytes dims 1, create_bytes dims 2]"
  obtain q m' y where sub: "submit ?bs s0 = Some (s0\<lparr>control_queue := q, memory := m', notified := notified s0 @ [y]\<rparr>)"
      "waiting q m' (Suc n) (pend @ ?bs)" "posted q m' (Suc n) t" "t \<le> Suc n + length (pend @ ?bs)"
    by (rule submit_step [OF a, of s0 ?bs]) (simp_all add: s0_def e(2))
  define s1 where "s1 = s0\<lparr>control_queue := q, memory := m', notified := notified s0 @ [y], worker := AtCreate 0\<rparr>"
  have "worker_display_info s request response = do { s \<leftarrow> submit ?bs s0; co_yield (AtCreate 0) s }"
    using ty r i by (simp add: worker_display_info_def dims_def [symmetric] s0_def submit_def create_bytes_def queue_data_bytes [of _ "header_bytes _ _ _"] Let_def)
  then have res: "resume s request response = Some (Success, s1)"
    using p sub(1) by (simp add: resume_def co_yield_def s1_def)
  have "expected s1 mid ?bs"
    using e by (simp add: expected_def s1_def s0_def)
  then have "in_step s1 (Suc n) t mid ?bs" using sub(2-4) e(2) by (simp add: in_step_def s1_def)
  then show ?thesis
    using goes_onI [OF res] a by (simp add: answered_def s1_def)
qed

lemma create_payload:
  assumes "holds m request (create_bytes dims r)" "r < 2 ^ 32"
  shows "has_type m request ResourceCreate2D"
    "get_num ResourceCreate2DRequest_layout ''resource_id''
       (load m (request + of_nat (struct_size ControlHeader_layout)) (struct_size ResourceCreate2DRequest_layout)) = r"
proof -
  show "has_type m request ResourceCreate2D" using assms(1) unfolding create_bytes_def by (simp add: holds_header(1))
  have "load m (request + 24) 16 = create_request r dims"
    using holds_payload [OF assms(1) [unfolded create_bytes_def], of 16]
    by (simp add: create_request_def ResourceCreate2DRequest_layout_def)
  then show "get_num ResourceCreate2DRequest_layout ''resource_id''
       (load m (request + of_nat (struct_size ControlHeader_layout)) (struct_size ResourceCreate2DRequest_layout)) = r"
    using assms(2) unfolding header_size
    by (simp add: ResourceCreate2DRequest_layout_def struct_size_def create_request_def get_num_def get_bytes_def le_nat_le_bytes)
qed

lemma create_step:
  assumes a: "answered s n t request response b pend" and x: "expected s mid (b # pend)" and p: "worker s = AtCreate i"
  shows "goes_on s n t mid request response"
proof -
  let ?m = "memory s"
  define r where "r = i + 1"
  have r: "b = create_bytes (display_size s) r" "r = i + 1" "i \<le> 1" "is_null (framebuffer s ! (r - 1))"
    using x p by (auto simp: expected_def r_def numeral_2_eq_2)
  have e: "sync_done s \<noteq> 0" "\<not> mid" "new_device_messages s = 0" "length (framebuffer s) = 2" "bmm_wf (frames s)"
    using x p by (auto simp: expected_def)
  have pl: "has_type ?m request ResourceCreate2D"
    "get_num ResourceCreate2DRequest_layout ''resource_id''
       (load ?m (request + of_nat (struct_size ControlHeader_layout)) (struct_size ResourceCreate2DRequest_layout)) = r"
    using create_payload [of ?m request "display_size s" r] a r by (simp_all add: answered_def)
  have ty: "has_type ?m response OkNodata"
    using a pl(1) by (auto simp: answered_def good_answer_def has_type_def split: if_splits)
  let ?n = "(unat (fb_bytes s) + bytes_per_frame - 1) div bytes_per_frame"
  obtain y fr where al: "allocate (frames s) ?n = Some (y, fr)" "bmm_wf fr" "\<forall>e. y = Inl e \<longrightarrow> e = NoEnoughMemory \<and> fr = frames s"
    using allocate_total [OF e(5)] by blast
  show ?thesis
  proof (cases y)
    case (Inl err)
    then have "stopped (s\<lparr>frames := fr, worker := Finished\<rparr>) mid"
      using al e(2,3) by (auto simp: stopped_def)
    then show ?thesis
      using Inl pl ty al p a by (simp add: goes_on_def handle_completion_def resume_def worker_create_def co_return_def answered_def)
  next
    case (Inr f)
    define f' where "f' = (framebuffer s ! (r - 1))\<lparr>sf_id := sf_id f, sf_frames := sf_frames f\<rparr>"
    define s0 where "s0 = s\<lparr>frames := fr, framebuffer := (framebuffer s)[r - 1 := f'], framebuffer_frames := ?n\<rparr>"
    have pend: "length pend = 1" using x p by (auto simp: expected_def)
    let ?b = "attach_bytes r (sf_id f') (fb_bytes s)"
    obtain q m' z where sub: "submit [?b] s0 = Some (s0\<lparr>control_queue := q, memory := m', notified := notified s0 @ [z]\<rparr>)"
        "waiting q m' (Suc n) (pend @ [?b])" "posted q m' (Suc n) t" "t \<le> Suc n + length (pend @ [?b])"
      by (rule submit_step [OF a, of s0 "[?b]"]) (simp_all add: s0_def pend)
    define s1 where "s1 = s0\<lparr>control_queue := q, memory := m', notified := notified s0 @ [z], worker := (if i = 0 then AtCreate 1 else AtAttach 0)\<rparr>"
    have "worker_create i s request response =
        do { s \<leftarrow> submit [?b] s0; co_yield (if i = 0 then AtCreate 1 else AtAttach 0) s }"
      using pl ty al(1) Inr r assign_null [OF r(4)]
      by (simp add: worker_create_def Let_def s0_def submit_def attach_bytes_def f'_def fb_bytes_def queue_data_bytes [of _ "header_bytes _ _ _"])
    then have res: "resume s request response = Some (Success, s1)"
      using p sub(1) by (simp add: resume_def co_yield_def s1_def)
    have "expected s1 mid (pend @ [?b])"
      using x p r e al(2) by (auto simp: expected_def s1_def s0_def fb_bytes_def le_Suc_eq numeral_2_eq_2)
    then have "in_step s1 (Suc n) t mid (pend @ [?b])" using sub(2-4) by (simp add: in_step_def s1_def)
    then show ?thesis
      using goes_onI [OF res] a by (simp add: answered_def s1_def)
  qed
qed

lemma attach_step:
  assumes a: "answered s n t request response b pend" and x: "expected s mid (b # pend)" and p: "worker s = AtAttach i"
  shows "goes_on s n t mid request response"
proof -
  let ?m = "memory s"
  obtain r f where b: "b = attach_bytes r f (fb_bytes s)" using x p by (auto simp: expected_def)
  then have "holds ?m request (header_bytes ResourceAttachBacking 0 0 @ attach_request r f (fb_bytes s))"
    using a by (simp add: answered_def attach_bytes_def)
  then have pl: "has_type ?m request u \<longleftrightarrow> u = ResourceAttachBacking" for u by (rule holds_header(1))
  have ty: "has_type ?m response OkNodata" using a by (simp add: answered_def good_answer_def pl)
  define s1 where "s1 = (if i = 0 then s\<lparr>worker := AtAttach 1\<rparr>
    else s\<lparr>new_device_messages := new_device_messages s + 1, worker := AtLoop\<rparr>)"
  have "resume s request response = Some (Success, s1)"
    using p pl ty by (simp add: resume_def worker_attach_def co_yield_def s1_def)
  then show ?thesis
  proof (rule goes_onI)
    have "expected s1 mid pend"
      using x p by (auto simp: expected_def s1_def fb_bytes_def)
    then show "in_step s1 (Suc n) t mid pend" using a by (simp add: in_step_def answered_def s1_def)
    show "worker s1 \<noteq> AtLoop \<or> pend = []"
      using x p by (auto simp: expected_def s1_def fb_bytes_def)
  qed (use a in \<open>simp_all add: answered_def\<close>)
qed

text \<open>In the main loop only the last of the three requests of a swap carries the fence.\<close>

lemma swap_request_cases:
  assumes "b # pend = drop k (swap_requests fb)" "k < 3"
  obtains t fl p where "b = header_bytes t fl (if pend = [] then 1 else 0) @ p" "t \<in> {TransferToHost2D, ResourceFlush, SetScanout}"
    "fl = (if pend = [] then 1 else 0)" "pend = drop (Suc k) (swap_requests fb)"
proof -
  obtain p1 p2 p3 where l: "swap_requests fb = [header_bytes TransferToHost2D 0 0 @ p1, header_bytes ResourceFlush 0 0 @ p2, header_bytes SetScanout 1 1 @ p3]"
    unfolding swap_requests_def Let_def flag_fence_def by blast
  consider "k = 0" | "k = 1" | "k = 2" using assms(2) by linarith
  then show thesis
  proof cases
    case 1
    then show ?thesis using assms(1) by (intro that [of TransferToHost2D 0 p1]) (simp_all add: l)
  next
    case 2
    then show ?thesis using assms(1) by (intro that [of ResourceFlush 0 p2]) (simp_all add: l)
  next
    case 3
    then show ?thesis using assms(1) by (intro that [of SetScanout 1 p3]) (simp_all add: l)
  qed
qed

lemma loop_handle:
  assumes a: "answered s n t request response b pend" and p: "worker s = AtLoop" and k: "b # pend = drop k (swap_requests fb)" "k < 3"
  shows "\<exists>e. handle_completion s request response =
    Some (None, s\<lparr>sync_done := (if pend = [] then 1 else sync_done s), events_notified := e\<rparr>)"
proof -
  let ?m = "memory s"
  obtain ty fl pl where b: "b = header_bytes ty fl (if pend = [] then 1 else 0) @ pl" "ty \<in> {TransferToHost2D, ResourceFlush, SetScanout}"
      "fl = (if pend = [] then 1 else 0)" "pend = drop (Suc k) (swap_requests fb)"
    by (rule swap_request_cases [OF k])
  have h: "has_type ?m request u \<longleftrightarrow> u = ty" "header_num ?m request ''flags'' = fl" for u
    using a b holds_header [of ?m request ty fl "if pend = [] then 1 else 0" pl] by (auto simp: answered_def)
  have "ty \<noteq> GetDisplayInfo" using b(2) by auto
  then have r: "has_type ?m response OkNodata" "header_num ?m response ''flags'' = fl" "request \<noteq> 0" "response \<noteq> 0"
    using a by (simp_all add: answered_def good_answer_def h)
  have "resume s request response = Some (Success, s)"
    using p b(2) h r by (auto simp: resume_def worker_loop_def co_yield_def)
  note g = handle_goes_on [OF this _ r(3,4)]
  show ?thesis
  proof (cases "pend = []")
    case True
    then show ?thesis using g p r(2) b(3)
      by (intro exI [of _ "if sync_done_event s then events_notified s + 1 else events_notified s"]) (simp add: flag_fence_def)
  next
    case False
    then show ?thesis using g p r(2) b(3) by (intro exI [of _ "events_notified s"]) (simp add: flag_fence_def)
  qed
qed

lemma loop_step:
  assumes a: "answered s n t request response b pend" and x: "expected s mid (b # pend)" and p: "worker s = AtLoop"
  shows "goes_on s n t mid request response"
proof -
  obtain fb k where k: "k < 3" "b # pend = drop k (swap_requests fb)" using x p by (auto simp: expected_def)
  have tl: "pend = drop (Suc k) (swap_requests fb)" using k(2) by (metis drop_Suc drop_tl list.sel(3))
  have ex: "pend = [] \<or> (\<exists>fb n. n < 3 \<and> pend = drop n (swap_requests fb))"
    using tl request_lengths(5) [of fb] by (metis drop_eq_Nil not_le)
  obtain e where e: "handle_completion s request response =
      Some (None, s\<lparr>sync_done := (if pend = [] then 1 else sync_done s), events_notified := e\<rparr>)"
    using loop_handle [OF a p k(2,1)] by blast
  have "expected (s\<lparr>sync_done := (if pend = [] then 1 else sync_done s), events_notified := e\<rparr>) mid pend"
    using x p ex by (simp add: expected_def)
  then show ?thesis using e a by (auto simp: goes_on_def gpu_inv_def in_step_def answered_def)
qed

lemma completion_step:
  assumes a: "answered s n t request response b pend" and x: "expected s mid (b # pend)"
  shows "goes_on s n t mid request response"
proof -
  have "worker s \<noteq> Finished" using x by (auto simp: expected_def)
  then show ?thesis
    using display_info_step [OF a x] create_step [OF a x] attach_step [OF a x] loop_step [OF a x] by (cases "worker s") blast+
qed

section \<open>The interrupt handler\<close>

lemma process_none:
  assumes "posted (control_queue s) m n n"
  shows "process_control_queue s = Some (Success, s)"
proof -
  have p: "n < 65536" "last_used (control_queue s) = of_nat n" "u_index (used (control_queue s)) = of_nat n"
    using assms by (simp_all add: posted_def)
  have "ucast (of_nat n :: u16) = (of_nat n :: u32)"
    using p(1) by (simp add: word_unat_eq_iff unat_of_nat take_bit_nat_eq_self unsigned_ucast_eq)
  then show ?thesis
    using p by (subst process_control_queue.simps) (simp add: read_one_buffer_def)
qed

lemma process_next:
  assumes w: "waiting (control_queue s) (memory s) n (b # pend)" and p: "posted (control_queue s) (memory s) n t"
    and t: "n < t" "t \<le> n + length (b # pend)"
  defines "s1 \<equiv> s\<lparr>control_queue := (control_queue s)\<lparr>last_used := of_nat (Suc n)\<rparr>\<rparr>"
  defines "request \<equiv> request_at (control_queue s) n" and "response \<equiv> response_at (control_queue s) n"
  shows "process_control_queue s =
      do { (x, s) \<leftarrow> handle_completion s1 request response; case x of Some e \<Rightarrow> Some (e, s) | None \<Rightarrow> process_control_queue s }"
    "answered s1 n t request response b pend"
proof -
  let ?q = "control_queue s"
  have wq: "queue_wf ?q" using w by (simp add: waiting_def)
  have N: "qsize ?q \<noteq> 0" using queue_wfD(1) [OF wq] by auto
  have n: "t < 65536" "last_used ?q = of_nat n" "u_index (used ?q) = of_nat t" using p by (simp_all add: posted_def)
  have un: "unat (of_nat n :: u32) = n" using n(1) t(1) by (intro unat_of_nat_small) simp
  have "unat (ucast (of_nat t :: u16) :: u32) = t"
    using n(1) by (simp add: unsigned_ucast_eq unat_of_nat take_bit_nat_eq_self)
  then have ne: "last_used ?q \<noteq> ucast (u_index (used ?q))" using un t(1) unfolding n by (metis less_irrefl)
  obtain len where e: "u_ring (used ?q) ! (n mod unat (qsize ?q)) = (of_nat (head_offered ?q n), len)" "0 < len" "len \<le> 4096"
      "good_answer (memory s) request response"
    using p t(1) unfolding posted_def request_def response_def by (metis order_refl)
  note h = waiting_head [OF w, of 0, simplified]
  have "entry_buffers (descriptors ?q) (of_nat (head_offered ?q n), len) = Some (request, response)"
    using h(8) e(2,3) by (simp add: request_def response_def)
  then have "read_one_buffer ?q = Some (Some (request, response), ?q\<lparr>last_used := of_nat (Suc n)\<rparr>)"
    using ne N e(1) by (simp add: read_one_buffer_def n(2) un add.commute)
  then show "process_control_queue s =
      do { (x, s) \<leftarrow> handle_completion s1 request response; case x of Some e \<Rightarrow> Some (e, s) | None \<Rightarrow> process_control_queue s }"
    by (subst process_control_queue.simps) (simp add: s1_def)
  have "posted (?q\<lparr>last_used := of_nat (Suc n)\<rparr>) (memory s) (Suc n) t"
    using p t(1) by (auto simp: posted_def positions_used)
  then show "answered s1 n t request response b pend"
    using waiting_pop [OF w] h(4-6) e(4) t(2) by (simp add: answered_def s1_def waiting_last_used request_def response_def)
qed

text \<open>The handler consumes every posted answer, or stops because the frames for a frame buffer cannot be allocated.\<close>

lemma process_step:
  assumes "gpu_inv s n t mid"
  shows "\<exists>e s'. process_control_queue s = Some (e, s') \<and>
    (e = Success \<and> gpu_inv s' t t mid \<or> e = NoEnoughMemory \<and> stopped s' mid)"
  using assms
proof (induction "t - n" arbitrary: s n)
  case 0
  then obtain pend where "in_step s n t mid pend" unfolding gpu_inv_def by blast
  then have "n = t" using 0(1) by (simp add: in_step_def posted_def)
  then show ?case using process_none [of s "memory s" t] 0(2) by (auto simp: gpu_inv_def in_step_def)
next
  case (Suc d)
  obtain p0 where p0: "in_step s n t mid p0" using Suc(3) unfolding gpu_inv_def by blast
  have "n < t" using Suc(2) by simp
  then obtain b pend where b: "p0 = b # pend" using p0 by (cases p0) (auto simp: in_step_def)
  have i: "waiting (control_queue s) (memory s) n (b # pend)" "posted (control_queue s) (memory s) n t" "t \<le> n + length (b # pend)"
      "expected s mid (b # pend)"
    using p0 unfolding in_step_def b by blast+
  define s1 where "s1 = s\<lparr>control_queue := (control_queue s)\<lparr>last_used := of_nat (Suc n)\<rparr>\<rparr>"
  note nx = process_next [OF i(1,2) \<open>n < t\<close> i(3), folded s1_def]
  have "expected s1 mid (b # pend)" using i(4) expected_cong [of s1 s] by (simp add: s1_def)
  then have g: "goes_on s1 n t mid (request_at (control_queue s) n) (response_at (control_queue s) n)"
    by (rule completion_step [OF nx(2)])
  then show ?case
    unfolding goes_on_def
  proof (elim disjE exE conjE)
    fix s' assume h: "handle_completion s1 (request_at (control_queue s) n) (response_at (control_queue s) n) = Some (None, s')" "gpu_inv s' (Suc n) t mid"
    have "d = t - Suc n" using Suc(2) by simp
    then show ?thesis using Suc(1) [OF _ h(2)] h(1) nx(1) by simp
  next
    fix s' assume "handle_completion s1 (request_at (control_queue s) n) (response_at (control_queue s) n) = Some (Some NoEnoughMemory, s')" "stopped s' mid"
    then show ?thesis using nx(1) by simp
  qed
qed

text \<open>A worker that has stopped is never resumed by a handler that returns.\<close>

lemma process_stopped:
  assumes "process_control_queue s = Some r"
  shows "worker s = Finished \<longrightarrow> worker (snd r) = Finished \<and> frames (snd r) = frames s \<and> new_device_messages (snd r) = new_device_messages s"
proof (rule process_control_queue.raw_induct [OF _ assms, where P = "\<lambda>s r. worker s = Finished \<longrightarrow>
    worker (snd r) = Finished \<and> frames (snd r) = frames s \<and> new_device_messages (snd r) = new_device_messages s"], goal_cases)
  case (1 f s r)
  show ?case
  proof
    assume fin: "worker s = Finished"
    obtain b q where q: "read_one_buffer (control_queue s) = Some (b, q)" using 1(2) by (auto split: bind_splits)
    show "worker (snd r) = Finished \<and> frames (snd r) = frames s \<and> new_device_messages (snd r) = new_device_messages s"
    proof (cases b)
      case None
      then show ?thesis using 1(2) q fin by auto
    next
      case (Some ab)
      obtain a c where ab: "ab = (a, c)" by force
      have "handle_completion (s\<lparr>control_queue := q\<rparr>) a c = (if a = 0 \<or> c = 0 then Some (None, s\<lparr>control_queue := q\<rparr>) else None)"
        using fin by (simp add: handle_completion_def resume_def)
      then have "f (s\<lparr>control_queue := q\<rparr>) = Some r" using 1(2) q Some ab by (simp split: if_splits)
      then show ?thesis using 1(1) [of "s\<lparr>control_queue := q\<rparr>" r] fin by simp
    qed
  qed
qed

lemma swap_step:
  assumes inv: "gpu_inv s n t False" and ready: "0 < new_device_messages s" "sync_done s \<noteq> 0"
  shows "\<exists>s'. swap_submit fb s = Some s' \<and> gpu_inv s' n t True"
proof -
  obtain pend where p: "in_step s n t False pend" using inv unfolding gpu_inv_def by blast
  have loop: "worker s = AtLoop" "pend = []" using p ready by (auto simp: in_step_def expected_def split: if_splits)
  have i: "waiting (control_queue s) (memory s) n pend" "posted (control_queue s) (memory s) n t" "t \<le> n + length pend"
    using p by (simp_all add: in_step_def)
  obtain q m x where sub: "submit (swap_requests fb) s = Some (s\<lparr>control_queue := q, memory := m, notified := notified s @ [x]\<rparr>)"
      "waiting q m n (pend @ swap_requests fb)" "submitted (control_queue s) (memory s) q m n (length pend)"
    by (rule submit_waiting [OF i(1), of "swap_requests fb"]) (use loop in simp, simp)
  let ?s = "s\<lparr>control_queue := q, memory := m, notified := notified s @ [x]\<rparr>"
  have "expected ?s True (swap_requests fb)"
    using p loop by (auto simp: in_step_def expected_def intro!: exI [of _ fb] exI [of _ 0])
  then have "in_step ?s n t True (swap_requests fb)"
    using sub(2) loop(2) posted_submitted [OF i(2,1) sub(2) i(3) sub(3)] i(3) by (simp add: in_step_def)
  then show ?thesis using sub(1) by (auto simp: gpu_inv_def swap_submit_eq)
qed

lemma start_step:
  assumes q: "queue_wf q" "added_descriptors q = 0" "free_head q = 0" "a_index (avail q) = 0" "u_index (used q) = 0" "last_used q = 0"
      "frames_ok q" "8 \<le> unat (qsize q)" and fr: "bmm_wf fr"
  shows "\<exists>s. new_gpu_device q c m fr = Some s \<and> gpu_inv s 0 0 False \<and> worker s = AtDisplayInfo \<and> outstanding (control_queue s) 0 = 1"
proof -
  define s where "s = \<lparr>control_queue = q, cursor_queue = c, display_size = (1024, 768),
    framebuffer = [\<lparr>sf_id = nullframe, sf_frames = 0\<rparr>, \<lparr>sf_id = nullframe, sf_frames = 0\<rparr>], framebuffer_frames = 0, worker = AtDisplayInfo,
    sync_done = 1, sync_done_event = False, memory = m, frames = fr, notified = [], new_device_messages = 0, events_notified = 0\<rparr>"
  have w: "waiting (control_queue s) (memory s) 0 []" using q by (simp add: waiting_def s_def head_of_def)
  have p: "posted (control_queue s) (memory s) 0 0" using q by (simp add: posted_def s_def)
  let ?b = "header_bytes GetDisplayInfo 0 0"
  obtain q' m' x where sub: "submit [?b] s = Some (s\<lparr>control_queue := q', memory := m', notified := notified s @ [x]\<rparr>)" "waiting q' m' 0 ([] @ [?b])"
      "submitted (control_queue s) (memory s) q' m' 0 (length ([] :: u8 list list))"
    by (rule submit_waiting [OF w, of "[?b]"]) simp_all
  let ?s = "s\<lparr>control_queue := q', memory := m', notified := notified s @ [x]\<rparr>"
  have "new_gpu_device q c m fr = Some ?s" using sub(1) by (simp add: new_gpu_device_def submit_def s_def Let_def)
  moreover have "expected ?s False [?b]" using fr by (simp add: expected_def s_def is_null_def)
  then have "in_step ?s 0 0 False [?b]"
    using sub(2) posted_submitted [OF p w sub(2) _ sub(3)] by (simp add: in_step_def)
  ultimately show ?thesis using outstanding_at [OF sub(2), of 0] by (auto simp: gpu_inv_def s_def)
qed

lemma gpu_run_inv: "gpu_run s t mid \<Longrightarrow> (\<exists>n. gpu_inv s n t mid) \<or> stopped s mid"
proof (induction rule: gpu_run.induct)
  case (start q fr c m s)
  then show ?case using start_step [OF start(1-9), of c m] by auto
next
  case (answer s t mid s')
  obtain m len where a: "0 < outstanding (control_queue s) t" "answers s t m" "0 < len" "len \<le> 4096"
      "s' = s\<lparr>memory := m, control_queue := post_used (of_nat (head_offered (control_queue s) t), len) (control_queue s)\<rparr>"
    using answer(2) unfolding posts_def by blast
  from answer.IH show ?case
  proof (elim disjE exE)
    fix n assume "gpu_inv s n t mid"
    then obtain pend where p: "in_step s n t mid pend" unfolding gpu_inv_def by blast
    then have i: "waiting (control_queue s) (memory s) n pend" "posted (control_queue s) (memory s) n t" "t \<le> n + length pend" "n \<le> t"
      by (simp_all add: in_step_def posted_def)
    have lt: "t < n + length pend" using outstanding_at [OF i(1,4,3)] a(1) by simp
    have "expected s' mid pend" using p expected_cong [of s' s] by (simp add: in_step_def a(5))
    then have "in_step s' n (Suc t) mid pend"
      using posts_posted [OF i(1,2) lt answer(3) a(2-4)] lt by (simp add: in_step_def a(5))
    then show ?thesis by (auto simp: gpu_inv_def)
  next
    assume "stopped s mid"
    then show ?thesis by (auto simp: stopped_def a(5))
  qed
next
  case (interrupt s t mid e s')
  from interrupt.IH show ?case
  proof (elim disjE exE)
    fix n assume "gpu_inv s n t mid"
    then show ?thesis using process_step [of s n t mid] interrupt(2) by auto
  next
    assume "stopped s mid"
    then show ?thesis using process_stopped [OF interrupt(2)] by (auto simp: stopped_def)
  qed
next
  case (opened s t mid fb s')
  then have s': "s' = s\<lparr>sync_done_event := True\<rparr>" by (simp add: create_devfs_framebuffer_def Let_def)
  have "gpu_inv s' n t mid" if "gpu_inv s n t mid" for n
    using that expected_cong [of s' s] by (auto simp: gpu_inv_def in_step_def s')
  then show ?case using opened by (auto simp: stopped_def)
next
  case (swap_begins s t fb s')
  then show ?case using swap_step [of s _ t fb] by (auto simp: stopped_def)
next
  case (swap_ends s t fb fb' s')
  then obtain n where "gpu_inv s n t True" by (auto simp: stopped_def)
  moreover have "s' = s\<lparr>sync_done := 0\<rparr>" using swap_ends(2) by (simp add: swap_commit_def)
  moreover have "worker s = AtLoop" using calculation(1) by (auto simp: gpu_inv_def in_step_def expected_def)
  ultimately have "gpu_inv s' n t False" by (auto simp: gpu_inv_def in_step_def expected_def)
  then show ?case by blast
qed

lemma device_can_answer:
  assumes p: "waiting (control_queue s) (memory s) n pend" and t: "n \<le> t" "t < n + length pend"
  shows "\<exists>s'. posts s t s'"
proof -
  define q where "q = control_queue s"
  have w: "queue_wf q" "frames_ok q" using p by (simp_all add: waiting_def q_def)
  obtain j where j: "t = n + j" "j < length pend" using t le_Suc_ex by (metis add_less_cancel_left)
  note head = waiting_head [OF p j(2), folded q_def j(1)]
  define ty where "ty = (if has_type (memory s) (request_at q t) GetDisplayInfo then OkDisplayInfo else OkNodata)"
  define fl where "fl = header_num (memory s) (request_at q t) ''flags''"
  define modes where "modes = struct_bytes Mode_layout [0, 0, 1024, 768, 1, 0]"
  define bs where "bs = header_bytes ty fl 0 @ modes"
  define m where "m = store (response_at q t) bs (memory s)"
  have short: "length bs = 48" by (simp add: bs_def get_num_struct_bytes_header modes_def Mode_layout_def Rect_layout_def)
  have out: "m x = memory s x" if "4096 \<le> unat (x - response_at q t)" for x
    using that short by (simp add: m_def store_def)
  have "Suc (head_of q t) \<noteq> head_of q t" by simp
  then have "apart (response_at q t) (request_at q t)"
    unfolding head(2,3) by (rule frames_okD(2) [OF w(2) head_of_bound(3) [OF w(1)] head_of_bound(1) [OF w(1)]])
  then have "load m (request_at q t) 4096 = load (memory s) (request_at q t) 4096"
    using out by (intro load_outside) blast+
  then have hd: "header_num m (request_at q t) f = header_num (memory s) (request_at q t) f" for f
    by (simp add: header_num_def header_size load_prefix [of 24 4096])
  have hold: "holds m (response_at q t) bs" unfolding holds_def m_def by (rule load_store_same) (simp add: short)
  have "fl < 2 ^ 32" unfolding fl_def header_num_def
    using get_num_lt [of ControlHeader_layout "''flags''" 4 4] by (simp add: ControlHeader_layout_def)
  then have h: "has_type m (response_at q t) ty" "header_num m (response_at q t) ''flags'' = fl"
    using holds_header [OF hold [unfolded bs_def]] by simp_all
  have "mode_num m (response_at q t) 0 ''enabled'' \<noteq> 0"
  proof -
    have "load m (response_at q t + 24) 24 = modes"
      using holds_payload [OF hold [unfolded bs_def], of 24] by (simp add: modes_def Mode_layout_def Rect_layout_def)
    moreover have "struct_size Mode_layout = 24" by (simp add: Mode_layout_def Rect_layout_def struct_size_def)
    ultimately have "mode_num m (response_at q t) 0 ''enabled'' = get_num Mode_layout ''enabled'' modes"
      by (simp add: mode_num_def header_size)
    then show ?thesis by (simp add: modes_def Mode_layout_def Rect_layout_def get_num_def get_bytes_def le_nat_le_bytes)
  qed
  then have "\<exists>i < info_size. mode_num m (response_at q t) i ''enabled'' \<noteq> 0" unfolding info_size_def by (intro exI [of _ 0]) simp
  then have "good_answer m (request_at q t) (response_at q t)"
    using h by (auto simp: good_answer_def has_type_def hd ty_def fl_def split: if_splits)
  then have "answers s t m" using out by (simp add: answers_def q_def)
  moreover have "0 < outstanding (control_queue s) t" using outstanding_at [OF p t(1)] t(2) by simp
  ultimately show ?thesis unfolding posts_def by (intro exI [of _ m] exI [of _ 1] exI) simp
qed

section \<open>Properties\<close>


definition sample_queue :: queue where
  "sample_queue = new_queue 0 8 0x3000 (Inr \<lparr>sf_id = 16, sf_frames = 8\<rparr>) []"

definition sample_frames :: bmm where
  "sample_frames = \<lparr>allocation_map = [0], range_begin = 1, range_end = 20\<rparr>"

lemma sample_queue_ok:
  "queue_wf sample_queue" "added_descriptors sample_queue = 0" "free_head sample_queue = 0" "a_index (avail sample_queue) = 0"
  "u_index (used sample_queue) = 0" "last_used sample_queue = 0" "frames_ok sample_queue" "8 \<le> unat (qsize sample_queue)"
proof -
  show "queue_wf sample_queue"
    by (auto simp: queue_wf_def sample_queue_def new_queue_def create_available_def create_used_def intro!: exI [of _ 3])
  show "added_descriptors sample_queue = 0" "free_head sample_queue = 0" "a_index (avail sample_queue) = 0" "8 \<le> unat (qsize sample_queue)"
    "u_index (used sample_queue) = 0" "last_used sample_queue = 0"
    by (simp_all add: sample_queue_def new_queue_def create_available_def create_used_def)
  show "frames_ok sample_queue"
    by (auto simp: frames_ok_def sample_queue_def new_queue_def init_descriptor_def bytes_per_frame_def intro!: exI [of _ 16])
qed




text \<open>The driver runs, and every request has been answered and handled.\<close>

definition idle :: "gpu \<Rightarrow> nat \<Rightarrow> bool" where
  "idle s n \<longleftrightarrow> worker s = AtLoop \<and> sync_done s \<noteq> 0 \<and> waiting (control_queue s) (memory s) n [] \<and>
     posted (control_queue s) (memory s) n n"

lemma announced_idle:
  assumes "gpu_run s t False" "0 < new_device_messages s" "sync_done s \<noteq> 0"
  shows "idle s t"
proof -
  obtain n pend where "in_step s n t False pend"
    using gpu_run_inv [OF assms(1)] assms(2) by (auto simp: gpu_inv_def stopped_def)
  then show ?thesis using assms(2,3) by (auto simp: idle_def in_step_def expected_def posted_def split: if_splits)
qed

text \<open>Three answers posted to a driver in its main loop, and the handler run after them.\<close>

lemma post_next:
  assumes w: "waiting (control_queue s) (memory s) n pend" and p: "posted (control_queue s) (memory s) n t"
    and t: "t < n + length pend" "t < 65535"
  obtains s' where "posts s t s'" "waiting (control_queue s') (memory s') n pend" "posted (control_queue s') (memory s') n (Suc t)"
    "worker s' = worker s" "sync_done s' = sync_done s"
proof -
  have "n \<le> t" using p by (simp add: posted_def)
  then obtain s' where s': "posts s t s'" using device_can_answer [OF w _ t(1)] by blast
  then obtain m len where a: "answers s t m" "0 < len" "len \<le> 4096"
      "s' = s\<lparr>memory := m, control_queue := post_used (of_nat (head_offered (control_queue s) t), len) (control_queue s)\<rparr>"
    unfolding posts_def by blast
  show thesis using that [OF s'] posts_posted [OF w p t a(1-3)] by (simp add: a(4))
qed

lemma loop_process:
  assumes w: "waiting (control_queue s) (memory s) n pend" and p: "posted (control_queue s) (memory s) n (n + length pend)"
    and loop: "worker s = AtLoop" and k: "pend = drop k (swap_requests fb)"
  shows "\<exists>s'. process_control_queue s = Some (Success, s') \<and> waiting (control_queue s') (memory s') (n + length pend) [] \<and>
    posted (control_queue s') (memory s') (n + length pend) (n + length pend)"
  using assms
proof (induction pend arbitrary: s n k)
  case Nil
  then show ?case using process_none [of s "memory s" n] by auto
next
  case (Cons b pend)
  define s1 where "s1 = s\<lparr>control_queue := (control_queue s)\<lparr>last_used := of_nat (Suc n)\<rparr>\<rparr>"
  note nx = process_next [OF Cons.prems(1,2), folded s1_def, simplified]
  have lt: "k < 3" using Cons.prems(4) request_lengths(5) [of fb] by (metis drop_eq_Nil list.distinct(1) not_le)
  have l1: "worker s1 = AtLoop" using Cons.prems(3) by (simp add: s1_def)
  obtain e where e: "handle_completion s1 (request_at (control_queue s) n) (response_at (control_queue s) n) =
      Some (None, s1\<lparr>sync_done := (if pend = [] then 1 else sync_done s1), events_notified := e\<rparr>)"
    using loop_handle [OF nx(2) l1 Cons.prems(4) lt] by blast
  define s2 where "s2 = s1\<lparr>sync_done := (if pend = [] then 1 else sync_done s1), events_notified := e\<rparr>"
  have tl: "pend = drop (Suc k) (swap_requests fb)" using Cons.prems(4) by (metis drop_Suc drop_tl list.sel(3))
  have "\<exists>s'. process_control_queue s2 = Some (Success, s') \<and> waiting (control_queue s') (memory s') (Suc n + length pend) [] \<and>
    posted (control_queue s') (memory s') (Suc n + length pend) (Suc n + length pend)"
    by (rule Cons.IH [OF _ _ _ tl]) (use nx(2) l1 in \<open>simp_all add: answered_def s2_def\<close>)
  then show ?case using nx(1) e by (simp add: s2_def)
qed

text \<open>
  C37. A buffer swap can freeze the display. \<^verbatim>\<open>swap\<close> clears \<^verbatim>\<open>sync_done\<close> only after it has notified the device, so the
  device can answer all three requests, and the interrupt handler handle the answers and set \<^verbatim>\<open>sync_done\<close>, in between. Then
  \<^verbatim>\<open>sync_done\<close> is 0 although no request is outstanding and the handler has nothing to do: nothing will ever set it again,
  and every later \<^verbatim>\<open>swap\<close> returns without doing anything.
\<close>

theorem swap_loses_fence:
  assumes "idle s n" "n + 3 < 65536"
  shows "\<exists>s1 s2 s3 s4 s5 fb' s6. swap_submit fb s = Some s1 \<and> posts s1 n s2 \<and> posts s2 (n + 1) s3 \<and> posts s3 (n + 2) s4 \<and>
    process_control_queue s4 = Some (Success, s5) \<and> swap_commit fb s5 = (fb', s6) \<and>
    outstanding (control_queue s6) (n + 3) = 0 \<and> process_control_queue s6 = Some (Success, s6) \<and>
    sync_done s6 = 0 \<and> (\<forall>fb2. swap fb2 s6 = Some (fb2, s6))"
proof -
  have p: "waiting (control_queue s) (memory s) n []" "posted (control_queue s) (memory s) n n" and loop: "worker s = AtLoop"
    using assms(1) by (simp_all add: idle_def)
  obtain q m x where sub: "submit (swap_requests fb) s = Some (s\<lparr>control_queue := q, memory := m, notified := notified s @ [x]\<rparr>)"
      "waiting q m n ([] @ swap_requests fb)" "submitted (control_queue s) (memory s) q m n (length ([] :: u8 list list))"
    by (rule submit_waiting [OF p(1), of "swap_requests fb"]) simp_all
  define s1 where "s1 = s\<lparr>control_queue := q, memory := m, notified := notified s @ [x]\<rparr>"
  let ?l = "swap_requests fb"
  have w1: "waiting (control_queue s1) (memory s1) n ?l" "posted (control_queue s1) (memory s1) n n" "worker s1 = AtLoop"
    using sub(2) loop posted_submitted [OF p(2,1) sub(2) _ sub(3)] by (simp_all add: s1_def)
  obtain s2 where s2: "posts s1 n s2" "waiting (control_queue s2) (memory s2) n ?l" "posted (control_queue s2) (memory s2) n (Suc n)" "worker s2 = AtLoop"
    by (rule post_next [OF w1(1,2)]) (use assms(2) w1(3) in simp_all)
  obtain s3 where s3: "posts s2 (Suc n) s3" "waiting (control_queue s3) (memory s3) n ?l" "posted (control_queue s3) (memory s3) n (Suc (Suc n))" "worker s3 = AtLoop"
    by (rule post_next [OF s2(2,3)]) (use assms(2) s2(4) in simp_all)
  obtain s4 where s4: "posts s3 (Suc (Suc n)) s4" "waiting (control_queue s4) (memory s4) n ?l" "posted (control_queue s4) (memory s4) n (Suc (Suc (Suc n)))" "worker s4 = AtLoop"
    by (rule post_next [OF s3(2,3)]) (use assms(2) s3(4) in simp_all)
  have three: "n + length ?l = n + 3" "Suc (Suc (Suc n)) = n + 3" by simp_all
  obtain s5 where s5: "process_control_queue s4 = Some (Success, s5)" "waiting (control_queue s5) (memory s5) (n + 3) []"
      "posted (control_queue s5) (memory s5) (n + 3) (n + 3)"
    using loop_process [OF s4(2) _ s4(4), of 0 fb] s4(3) three by auto
  define s6 where "s6 = s5\<lparr>sync_done := 0\<rparr>"
  have "outstanding (control_queue s6) (n + 3) = 0" using outstanding_at [OF s5(2), of "n + 3"] by (simp add: s6_def)
  moreover have "process_control_queue s6 = Some (Success, s6)" by (rule process_none [of s6 "memory s5" "n + 3"]) (use s5(3) in \<open>simp add: s6_def\<close>)
  moreover have "swap_submit fb s = Some s1" using sub(1) by (simp add: swap_submit_eq s1_def)
  moreover have "swap_commit fb s5 = (fst (swap_commit fb s5), s6)" by (simp add: swap_commit_def s6_def)
  moreover have "sync_done s6 = 0" "\<forall>fb2. swap fb2 s6 = Some (fb2, s6)" by (simp_all add: s6_def swap_def)
  ultimately show ?thesis
    using s2(1) s3(1) s4(1) s5(1) by (metis Suc_eq_plus1 add_2_eq_Suc')
qed

theorem swap_loses_fence_witness:
  "\<exists>s fb s1 s5. idle s 0 \<and> swap_submit fb s = Some s1 \<and> sync_done (snd (swap_commit fb s5)) = 0 \<and>
     outstanding (control_queue (snd (swap_commit fb s5))) 3 = 0"
proof -
  let ?fb = "\<lparr>fb_buffers = (32, 33), fb_size = (1, 1), fb_flip = False, fb_data = 0x20000\<rparr>"
  define s where "s = \<lparr>control_queue = sample_queue, cursor_queue = sample_queue, display_size = (1, 1),
    framebuffer = [\<lparr>sf_id = 32, sf_frames = 1\<rparr>, \<lparr>sf_id = 33, sf_frames = 1\<rparr>], framebuffer_frames = 1, worker = AtLoop,
    sync_done = 1, sync_done_event = True, memory = (\<lambda>_. 0), frames = sample_frames, notified = [], new_device_messages = 1, events_notified = 0\<rparr>"
  have "idle s 0" using sample_queue_ok by (simp add: idle_def s_def waiting_def head_of_def posted_def)
  moreover from swap_loses_fence [OF this, of ?fb] obtain s1 s5 fb' s6 where
    "swap_submit ?fb s = Some s1" "swap_commit ?fb s5 = (fb', s6)" "outstanding (control_queue s6) (0 + 3) = 0" "sync_done s6 = 0"
    by auto
  ultimately show ?thesis by (intro exI [of _ s] exI [of _ ?fb] exI [of _ s1] exI [of _ s5]) simp
qed

end
