(* ===== verification/Spec2Isabelle.thy ===== *)
theory Spec2Isabelle
  imports Frame_Allocator Process_System Fs_Types Page_Cache Fat_Directory Gpt Paging Xhci_Ring Locks Fs_System Gpu_Protocol
begin

text \<open>
  Verification of the klee kernel, a multiprocessor kernel for x86-64 in C++. All paths below are relative to the
  \<^verbatim>\<open>src\<close> directory of the kernel.

  \<^bold>\<open>The program.\<close> The boot loader hands a UEFI memory map to the kernel. From it the frame allocator is built; page
  tables, page caches, device queues and thread stacks take their memory there. The process manager runs threads on all
  processors from per-processor run queues; mutexes and events block on its events. The file system manager keeps a tree
  of open files over drivers (root, temporary, device and FAT file systems); files are read and written through a page
  cache. Devices are found by the PCI scan; the USB host controller is driven through rings of request blocks, the
  virtio graphics device through a pair of descriptor rings.

  \<^bold>\<open>Conventions.\<close> Structures are records or, where their bytes or bits matter, layouts; classes with state
  are records passed through the operations; raw pointers are keys of a store. \<open>Result\<close> is a sum (\<open>Inl\<close> the error),
  \<open>Error\<close> the code itself. \<open>None\<close> as the value of an operation is undefined behaviour (an access out of range, a dangling
  or null pointer), a panic, or a loop that does not end, so a theorem that an operation is \<open>Some\<close> is a safety statement.
  Definitions have the names of the source where these are free; each definition has one name in all theories.

  \<^bold>\<open>Foundations.\<close>
  \<^item> \<open>Klee_Prelude\<close>: error codes (\<^verbatim>\<open>error.hpp\<close>), results, lemmas on lists and words.
  \<^item> \<open>Byte_Layout\<close>, \<open>Bit_Layout\<close>: packed structures as lists of members with sizes in bytes or bits, little-endian
    numbers, and the value of a member after a store to the same or another member.
  \<^item> \<open>Dense_Map\<close>: \<^verbatim>\<open>util/dense-map.hpp\<close>; the locale \<open>slot_map\<close> is what the process manager relies on.

  \<^bold>\<open>Memory.\<close>
  \<^item> \<open>Frame_Allocator\<close> (\<^verbatim>\<open>memory/\<close>): the bitmap, first fit, single frames, release, construction from the memory
    map. Allocation is first fit and marks exactly the run it returns, release undoes it, and construction marks exactly
    the frames no available descriptor covers. The locale \<open>frame_source\<close> is the contract of single-frame allocation.
  \<^item> \<open>Paging\<close> (\<^verbatim>\<open>paging.hpp\<close>, \<^verbatim>\<open>process/process-detail.hpp\<close>): entry formats, the four levels of tables (one locale
    \<open>table_level\<close>, interpreted for each upper level), \<open>map_virtual_to_physical\<close>, the identity map. Mapping is related to
    the page walk of the processor on memory; the kernel part of every process stays the identity.

  \<^bold>\<open>Threads.\<close>
  \<^item> \<open>Thread_Context\<close> (\<^verbatim>\<open>process/process.asm\<close>, \<^verbatim>\<open>process/process.hpp\<close>): saving and restoring of the registers; a
    restored context resumes where the call that saved it returns.
  \<^item> \<open>Run_Queue\<close>: threads and \<^verbatim>\<open>ProcessorLocal\<close> of \<^verbatim>\<open>process/manager.hpp\<close>; selection by nice value and round robin.
  \<^item> \<open>Process_Manager\<close>: the operations of \<^verbatim>\<open>process::Manager\<close>. \<open>Process_Invariant\<close> and \<open>Process_Safety\<close>: the
    consistency of queues, current threads, wait lists, dead threads and ownership, kept by each operation.
    \<open>Migration_Counts\<close> and \<open>Thread_Migration\<close>: load balancing, its safety, a condition under which it ends and a
    state on which it does not. \<open>Process_System\<close>: the transition system of all operations on all processors, the
    invariant of its reachable states, and the behaviour of notification, exit and join.
  \<^item> \<open>Locks\<close> (\<^verbatim>\<open>util/spinlock.hpp\<close>, \<^verbatim>\<open>mutex.hpp\<close>, \<^verbatim>\<open>util/mutex-like.hpp\<close>, \<^verbatim>\<open>util/critical-queue.hpp\<close>): every atomic
    access is a step and threads interleave; the mutex excludes, the spin lock does not, and an event can lose a wake-up.

  \<^bold>\<open>Files.\<close>
  \<^item> \<open>Fs_Types\<close> (\<^verbatim>\<open>fs/file-abstract.hpp\<close>, \<^verbatim>\<open>fs/handle.hpp\<close>): attributes, open counts and the sharing rules.
  \<^item> \<open>Page_Cache\<close> (\<^verbatim>\<open>fs/fs.hpp\<close>, \<^verbatim>\<open>fs/pagecache.hpp\<close>, \<^verbatim>\<open>fs/drivers/dev/block.hpp\<close>): a cached read or write is a
    read or write of a flat array of bytes, for every provider of pages that meets the locale \<open>cache_provider\<close>.
  \<^item> \<open>Fat\<close>, \<open>Fat_Volume\<close>, \<open>Fat_Directory\<close> (\<^verbatim>\<open>fs/drivers/fat/\<close>, \<^verbatim>\<open>util/encoding.hpp\<close>): the driver follows the cluster
    chains of the volume image, its directory search is a search in the list of entries, and a file read through the
    page cache shows its chain.
  \<^item> \<open>Gpt\<close> (\<^verbatim>\<open>block/gpt.hpp\<close>): the partition scan, which reads its header through the buffer it overwrites.
  \<^item> \<open>Fs_Manager\<close> (\<^verbatim>\<open>fs/fs.hpp\<close>, \<^verbatim>\<open>fs/handle.hpp\<close>, \<^verbatim>\<open>fs/manager.hpp\<close>): the tree of operators, handles, mounts.
    \<open>Fs_Handles\<close> and \<open>Fs_Runs\<close>: the invariant that counts are the numbers of open handles and nothing dangles, under the
    locales \<open>driver_contract\<close> and \<open>volume_contract\<close>. \<open>Fs_Drivers\<close> (\<^verbatim>\<open>fs/drivers/\<close>, \<^verbatim>\<open>devfs/\<close>): the root, temporary and
    device drivers, which meet the contract. \<open>Fs_System\<close>: the properties of the manager with these drivers.

  \<^bold>\<open>Devices.\<close>
  \<^item> \<open>Pci\<close> (\<^verbatim>\<open>pci.hpp\<close>, \<^verbatim>\<open>io.hpp\<close>): configuration space, capabilities, interrupts by message, and the scan, which
    finds exactly the functions on the buses reachable from those it starts at.
  \<^item> \<open>Xhci_Layout\<close> (\<^verbatim>\<open>usb/xhci/trb.hpp\<close>, \<^verbatim>\<open>context.hpp\<close>, \<^verbatim>\<open>registers.hpp\<close>): formats of blocks, contexts and
    registers. \<open>Xhci_Ring\<close> (\<^verbatim>\<open>usb/xhci/ring.hpp\<close>): both kinds of rings are queues between driver and controller; the
    locale \<open>cycle_fifo\<close> holds what they share.
  \<^item> \<open>Virtio_Queue\<close> (\<^verbatim>\<open>virtio/queue.hpp\<close>): requests, completions and the wrap-around of the used index.
    \<open>Virtio_Gpu\<close> (\<^verbatim>\<open>virtio/gpu.hpp\<close>, \<^verbatim>\<open>pci.hpp\<close>, \<^verbatim>\<open>flags.hpp\<close>, \<^verbatim>\<open>util/coroutine.hpp\<close>): the driver, its worker coroutine
    as a state machine. \<open>Gpu_Protocol\<close>: with a device that answers in order the waiting requests are those the worker
    expects answers for, and a fence that completes too early is lost.

  \<^bold>\<open>Parameters.\<close> What is outside the kernel is an argument: the contents of the block device, the outcomes of frame
  allocation where a component only consumes frames, the PCI data port, the answers of the graphics device, the
  addresses \<^verbatim>\<open>new\<close> returns, and the contents of uninitialised storage.

  \<^bold>\<open>Bounds.\<close>
  \<^item> Fuel of \<open>scan_devices\<close> (nesting of bridges): 256 is enough when every bridge leads to a higher bus number, since
    bus numbers have 8 bits; the scan is shown to return then.
  \<^item> Fuel of \<open>migrate_threads\<close> (passes of the balancing loop): some number of passes is enough when no processor has
    more pinned threads than its threshold, and no number is in the state of the livelock theorem.
  \<^item> Fuel of \<open>tmp_free\<close> (depth of a directory): the number of objects created so far, which no depth exceeds because
    a directory is created after the one that holds it.
  \<^item> Loops that need not end are partial functions with value \<open>None\<close> then: \<open>follow_mountpoints\<close>, \<open>readdir_loop\<close>,
    \<open>find_loop\<close>, \<open>find_capability\<close>, \<open>find_configs\<close>, \<open>find_response\<close> and \<open>process_control_queue\<close>.
  \<^item> Widths: sizes and frame numbers are natural numbers where the source cannot overflow, and reduced modulo
    \<open>2 ^ 16\<close>, \<open>2 ^ 32\<close> or \<open>2 ^ 64\<close> where it can. The identifiers of processes, threads and events do not wrap.

  \<^bold>\<open>Not modelled.\<close> The boot loader and start-up code, the terminal, the AHCI and ACPI code, the enumeration of USB
  devices and their class drivers, interrupt and segment tables, the local APIC, multiprocessor start-up, the ELF loader
  and system calls, logging, and the user programs: they consist of device registers, privileged instructions or output,
  or only call the components above. Operations of the process manager are atomic, as the code intends with its locks;
  what the spin lock really guarantees is the subject of \<open>Locks\<close>. The locks around the children and counts of files and
  the wake-ups of device readers are left out.
\<close>

end
